(* ===== verification/Prelude.thy ===== *)
theory Prelude
  imports Main "HOL-Library.Word" "HOL-Library.Signed_Division" "HOL-Library.Multiset"
begin

text \<open>
  Shared vocabulary of the development: the machine types of an LP64 C program, the faults a
  C program can run into, results that are either a fault or a value, and the generic facts on
  lists, maps and results that the component theories use.

  A C \<^verbatim>\<open>int\<close> is an \<^typ>\<open>int\<close> together with the wrap-around \<open>s32\<close> written out at each
  operation that can leave the 32-bit range (the kernel is built with
  \<^verbatim>\<open>-fno-strict-overflow\<close>, so signed arithmetic wraps); \<^verbatim>\<open>unsigned long\<close> is
  \<open>64 word\<close>. Pointers to heap objects are addresses (\<open>addr\<close>); the null pointer is
  \<^term>\<open>None\<close> where a pointer can be null.
\<close>

named_theorems fault_simps "equations that run the fault monad"
named_theorems inv_intros "introduction rules for the components' invariants"

type_synonym addr = nat
type_synonym u64 = "64 word"
type_synonym u32 = "32 word"
type_synonym byte = "8 word"

section \<open>Faults and results\<close>

text \<open>
  Every way the C code leaves defined behaviour is a value: a null or dangling pointer that is
  dereferenced, an access outside an object, a division by zero or one that overflows.
\<close>

datatype fault = NullDeref | UseAfterFree | OutOfBounds | DivByZero

type_synonym 'a result = "fault + 'a"

definition bind_r :: "'a result \<Rightarrow> ('a \<Rightarrow> 'b result) \<Rightarrow> 'b result" where
  "bind_r m f = (case m of Inl e \<Rightarrow> Inl e | Inr x \<Rightarrow> f x)"

lemma bind_r_simps [simp, fault_simps]:
  "bind_r (Inl e) f = Inl e"
  "bind_r (Inr x) f = f x"
  by (simp_all add: bind_r_def)

lemma bind_r_Inr_iff: "bind_r m f = Inr y \<longleftrightarrow> (\<exists>x. m = Inr x \<and> f x = Inr y)"
  by (cases m) auto

lemma bind_r_Inl_iff:
  "bind_r m f = Inl e \<longleftrightarrow> m = Inl e \<or> (\<exists>x. m = Inr x \<and> f x = Inl e)"
  by (cases m) auto

text \<open>Following a pointer: the object it points to, or the fault.\<close>

definition deref :: "(addr \<rightharpoonup> 'o) \<Rightarrow> addr option \<Rightarrow> 'o result" where
  "deref h p = (case p of None \<Rightarrow> Inl NullDeref
                | Some a \<Rightarrow> (case h a of None \<Rightarrow> Inl UseAfterFree | Some x \<Rightarrow> Inr x))"

lemma deref_simps [simp, fault_simps]:
  "deref h None = Inl NullDeref"
  "h a = Some x \<Longrightarrow> deref h (Some a) = Inr x"
  "h a = None \<Longrightarrow> deref h (Some a) = Inl UseAfterFree"
  by (simp_all add: deref_def)

lemma deref_Inr_iff: "deref h p = Inr x \<longleftrightarrow> (\<exists>a. p = Some a \<and> h a = Some x)"
  by (auto simp: deref_def split: option.splits)

text \<open>\<^verbatim>\<open>kfree\<close> (or \<^verbatim>\<open>kmem_cache_free\<close>, \<^verbatim>\<open>free\<close>) of a live object.\<close>

definition kfree :: "(addr \<rightharpoonup> 'o) \<Rightarrow> addr \<Rightarrow> (addr \<rightharpoonup> 'o) result" where
  "kfree h a = (case h a of None \<Rightarrow> Inl UseAfterFree | Some _ \<Rightarrow> Inr (h(a := None)))"

lemma kfree_live [simp, fault_simps]: "h a = Some x \<Longrightarrow> kfree h a = Inr (h(a := None))"
  by (simp add: kfree_def)

lemma kfree_freed [simp, fault_simps]: "h a = None \<Longrightarrow> kfree h a = Inl UseAfterFree"
  by (simp add: kfree_def)

section \<open>Machine integers\<close>

definition s32 :: "int \<Rightarrow> int" where
  "s32 x = signed_take_bit 31 x"

definition INT_MAX :: int where
  "INT_MAX = 2147483647"

definition c_int :: "int \<Rightarrow> bool" where
  "c_int x \<longleftrightarrow> - 2147483648 \<le> x \<and> x \<le> 2147483647"

lemma s32_id: "c_int x \<Longrightarrow> s32 x = x"
  by (simp add: s32_def c_int_def signed_take_bit_int_eq_self)

lemma c_int_s32 [simp]: "c_int (s32 x)"
  using signed_take_bit_int_greater_eq_minus_exp [of 31 x] signed_take_bit_int_less_exp [of 31 x]
  by (simp add: s32_def c_int_def)

text \<open>
  C division truncates towards zero; a zero divisor traps, and so does the one quotient that
  does not fit.
\<close>

definition c_div :: "int \<Rightarrow> int \<Rightarrow> int result" where
  "c_div a b = (if b = 0 \<or> (a = - 2147483648 \<and> b = - 1) then Inl DivByZero
                else Inr (signed_divide a b))"

lemma signed_divide_nonneg: "0 \<le> a \<Longrightarrow> 0 < b \<Longrightarrow> signed_divide a b = a div (b::int)"
  by (cases "a = 0") (simp_all add: signed_divide_int_def)

lemma c_div_pos: "0 \<le> a \<Longrightarrow> 0 < b \<Longrightarrow> c_div a b = Inr (a div b)"
  by (simp add: c_div_def signed_divide_nonneg)

section \<open>Lists and maps\<close>

lemma remove1_filter_distinct: "distinct xs \<Longrightarrow> remove1 x xs = filter (\<lambda>y. y \<noteq> x) xs"
  by (auto simp: distinct_remove1_removeAll removeAll_filter_not_eq intro: filter_cong)

lemma find_SomeD: "List.find P xs = Some x \<Longrightarrow> x \<in> set xs \<and> P x"
  by (auto simp: find_Some_iff)

lemma find_None_set: "List.find P xs = None \<longleftrightarrow> (\<forall>x \<in> set xs. \<not> P x)"
  by (auto simp: find_None_iff)

section \<open>Transition systems\<close>

text \<open>
  Each concurrent component is a set of initial states and a step relation. The locale states
  what an inductive invariant promises and derives, once, that it holds in every reachable state.
\<close>

locale transition_system =
  fixes init :: "'s \<Rightarrow> bool"
    and step :: "'s \<Rightarrow> 's \<Rightarrow> bool"
    and inv :: "'s \<Rightarrow> bool"
  assumes inv_init: "init s \<Longrightarrow> inv s"
    and inv_step: "inv s \<Longrightarrow> step s t \<Longrightarrow> inv t"
begin

lemma inv_steps: "step\<^sup>*\<^sup>* s t \<Longrightarrow> inv s \<Longrightarrow> inv t"
  by (induction rule: rtranclp_induct) (auto intro: inv_step)

lemma inv_reachable: "init s \<Longrightarrow> step\<^sup>*\<^sup>* s t \<Longrightarrow> inv t"
  by (blast intro: inv_steps inv_init)

end

text \<open>
  A refinement of an abstract specification: under its invariant every step of the system is a step
  of the specification or leaves the abstract state as it is. So the abstract states of every run
  are a run of the specification, and what the specification keeps holds in every reachable state.
\<close>

locale refinement = transition_system init step inv
  for init :: "'s \<Rightarrow> bool" and step :: "'s \<Rightarrow> 's \<Rightarrow> bool" and inv :: "'s \<Rightarrow> bool" +
  fixes abs_of :: "'s \<Rightarrow> 'a"
    and spec_step :: "'a \<Rightarrow> 'a \<Rightarrow> bool"
  assumes simulates: "inv s \<Longrightarrow> step s t \<Longrightarrow> abs_of t = abs_of s \<or> spec_step (abs_of s) (abs_of t)"
begin

lemma refines_steps: "step\<^sup>*\<^sup>* s t \<Longrightarrow> inv s \<Longrightarrow> spec_step\<^sup>*\<^sup>* (abs_of s) (abs_of t)"
proof (induction rule: rtranclp_induct)
  case (step t u)
  then have "abs_of u = abs_of t \<or> spec_step (abs_of t) (abs_of u)" using simulates inv_steps by blast
  then show ?case using step by (auto intro: rtranclp.rtrancl_into_rtrancl)
qed simp

lemma refines_reachable: "init s \<Longrightarrow> step\<^sup>*\<^sup>* s t \<Longrightarrow> spec_step\<^sup>*\<^sup>* (abs_of s) (abs_of t)"
  by (blast intro: refines_steps inv_init)

lemma spec_invariant:
  assumes "\<And>a b. P a \<Longrightarrow> spec_step a b \<Longrightarrow> P b" and "init s" and "step\<^sup>*\<^sup>* s t" and "P (abs_of s)"
  shows "P (abs_of t)"
  using refines_reachable [OF assms(2,3)] assms(4) by (induction rule: rtranclp_induct) (auto intro: assms(1))

end

text \<open>
  A transition system that works towards a goal: its steps include turns, which can always be
  taken and lower a rank until the goal is reached. Every run of turns then reaches the goal, within
  as many turns as the rank says.
\<close>

locale progress_system = transition_system +
  fixes turn :: "'a \<Rightarrow> 'a \<Rightarrow> bool"
    and goal :: "'a \<Rightarrow> bool"
    and rank :: "'a \<Rightarrow> nat"
  assumes turn_step: "turn s t \<Longrightarrow> step s t"
    and turn_enabled: "inv s \<Longrightarrow> \<not> goal s \<Longrightarrow> \<exists>t. turn s t"
    and turn_rank: "inv s \<Longrightarrow> \<not> goal s \<Longrightarrow> turn s t \<Longrightarrow> rank t < rank s"
begin

text \<open>There is such a run from every state.\<close>

lemma run_exists:
  assumes "inv s"
  shows "\<exists>f. f 0 = s \<and> (\<forall>i. \<not> goal (f i) \<longrightarrow> turn (f i) (f (Suc i)))"
proof -
  have "\<exists>f. \<forall>n. (inv (f n) \<and> (n = 0 \<longrightarrow> f n = s)) \<and> (\<not> goal (f n) \<longrightarrow> turn (f n) (f (Suc n)))"
  proof (rule dependent_nat_choice)
    show "\<exists>y. (inv y \<and> (Suc n = 0 \<longrightarrow> y = s)) \<and> (\<not> goal x \<longrightarrow> turn x y)" if "inv x \<and> (n = 0 \<longrightarrow> x = s)" for x n
      using that turn_enabled [of x] inv_step turn_step by (cases "goal x") blast+
  qed (use assms in blast)
  then show ?thesis by blast
qed

lemma goal_reachable: "inv s \<Longrightarrow> \<exists>t. turn\<^sup>*\<^sup>* s t \<and> inv t \<and> goal t"
proof (induction "rank s" arbitrary: s rule: less_induct)
  case less
  show ?case
  proof (cases "goal s")
    case False
    then obtain u where u: "turn s u" using turn_enabled less.prems by blast
    then have "inv u" "rank u < rank s" using less.prems False inv_step turn_step turn_rank by blast+
    then obtain t where "turn\<^sup>*\<^sup>* u t" "inv t" "goal t" using less.hyps by blast
    then show ?thesis using u by (meson converse_rtranclp_into_rtranclp)
  qed (use less.prems in blast)
qed

lemma runs_reach_goal:
  assumes "inv (f 0)" and "\<And>i. \<not> goal (f i) \<Longrightarrow> turn (f i) (f (Suc i))"
  shows "\<exists>i \<le> rank (f 0). inv (f i) \<and> goal (f i)"
  using assms
proof (induction "rank (f 0)" arbitrary: f rule: less_induct)
  case less
  show ?case
  proof (cases "goal (f 0)")
    case False
    let ?g = "\<lambda>i. f (Suc i)"
    have r: "rank (?g 0) < rank (f 0)" using turn_rank less.prems False by simp
    have "inv (?g 0)" using inv_step turn_step less.prems False by blast
    then obtain i where "i \<le> rank (?g 0)" "inv (?g i)" "goal (?g i)"
      using less.hyps [of ?g] r less.prems(2) by auto
    then show ?thesis using r by (intro exI [of _ "Suc i"]) simp
  qed (use less.prems in blast)
qed

end

text \<open>
  Progress among disturbances: steps that are not turns raise the rank by a bounded amount. In a run that
  stays away from the goal the number of turns is bounded by the rank at the start and the number of disturbances.
\<close>

locale disturbed_system = progress_system +
  fixes cost :: nat
  assumes disturbed_rank: "inv s \<Longrightarrow> \<not> goal s \<Longrightarrow> step s t \<Longrightarrow> \<not> turn s t \<Longrightarrow> rank t \<le> rank s + cost"
begin

lemma turns_bounded:
  assumes "inv (f 0)" and "\<And>i. i < n \<Longrightarrow> \<not> goal (f i) \<and> step (f i) (f (Suc i))"
  shows "card {i. i < n \<and> turn (f i) (f (Suc i))} + rank (f n) \<le> rank (f 0) + cost * card {i. i < n \<and> \<not> turn (f i) (f (Suc i))}
     \<and> inv (f n)"
  using assms(2)
proof (induction n)
  case (Suc n)
  let ?T = "\<lambda>n. {i. i < n \<and> turn (f i) (f (Suc i))}" and ?D = "\<lambda>n. {i. i < n \<and> \<not> turn (f i) (f (Suc i))}"
  have IH: "card (?T n) + rank (f n) \<le> rank (f 0) + cost * card (?D n)" and inv: "inv (f n)" using Suc by auto
  have st: "\<not> goal (f n)" "step (f n) (f (Suc n))" using Suc.prems by auto
  have "card (?T (Suc n)) + rank (f (Suc n)) \<le> rank (f 0) + cost * card (?D (Suc n))"
  proof (cases "turn (f n) (f (Suc n))")
    case True
    then have "?T (Suc n) = insert n (?T n)" "?D (Suc n) = ?D n" by (auto simp: less_Suc_eq)
    then show ?thesis using IH turn_rank [OF inv st(1) True] by simp
  next
    case False
    then have "?T (Suc n) = ?T n" "?D (Suc n) = insert n (?D n)" by (auto simp: less_Suc_eq)
    then show ?thesis using IH disturbed_rank [OF inv st False] by simp
  qed
  then show ?case using inv_step [OF inv st(2)] by blast
qed (use assms(1) in simp)

end

text \<open>
  A part of the state that settles: no step raises the rank, and a step that changes that part
  lowers it. In every infinite run the part changes at most as often as the rank says.
\<close>

locale settling_system = transition_system +
  fixes view :: "'a \<Rightarrow> 'v"
    and height :: "'a \<Rightarrow> nat"
  assumes step_height: "inv s \<Longrightarrow> step s t \<Longrightarrow> height t \<le> height s"
    and view_height: "inv s \<Longrightarrow> step s t \<Longrightarrow> view t \<noteq> view s \<Longrightarrow> height t < height s"
begin

lemma run_inv: "inv (f 0) \<Longrightarrow> (\<And>i. step (f i) (f (Suc i))) \<Longrightarrow> inv (f n)"
  by (induction n) (auto intro: inv_step)

lemma changes_before:
  assumes "inv (f 0)" and "\<And>i. step (f i) (f (Suc i))"
  shows "card {i. i < n \<and> view (f (Suc i)) \<noteq> view (f i)} + height (f n) \<le> height (f 0)"
proof (induction n)
  case (Suc n)
  let ?C = "\<lambda>n. {i. i < n \<and> view (f (Suc i)) \<noteq> view (f i)}"
  have inv: "inv (f n)" using run_inv assms by blast
  show ?case
  proof (cases "view (f (Suc n)) = view (f n)")
    case True
    then have "?C (Suc n) = ?C n" by (auto simp: less_Suc_eq)
    then show ?thesis using Suc step_height [OF inv assms(2)] by simp
  next
    case False
    then have "?C (Suc n) = insert n (?C n)" by (auto simp: less_Suc_eq)
    then have "card (?C (Suc n)) = Suc (card (?C n))" by simp
    then show ?thesis using Suc view_height [OF inv assms(2) False] by simp
  qed
qed simp

lemma changes_bounded:
  assumes "inv (f 0)" and "\<And>i. step (f i) (f (Suc i))"
  shows "finite {i. view (f (Suc i)) \<noteq> view (f i)} \<and> card {i. view (f (Suc i)) \<noteq> view (f i)} \<le> height (f 0)"
proof (rule ccontr)
  let ?A = "{i. view (f (Suc i)) \<noteq> view (f i)}"
  assume "\<not> (finite ?A \<and> card ?A \<le> height (f 0))"
  then have "\<exists>B. B \<subseteq> ?A \<and> finite B \<and> card B = Suc (height (f 0))"
  proof (cases "finite ?A")
    case True
    then have "Suc (height (f 0)) \<le> card ?A" using \<open>\<not> (finite ?A \<and> card ?A \<le> height (f 0))\<close> by simp
    from obtain_subset_with_card_n [OF this] show ?thesis by metis
  next
    case False
    from infinite_arbitrarily_large [OF this, of "Suc (height (f 0))"] show ?thesis by blast
  qed
  then obtain B where B: "B \<subseteq> ?A" "finite B" "card B = Suc (height (f 0))" by blast
  let ?n = "Suc (Max B)"
  have "B \<subseteq> {i. i < ?n \<and> view (f (Suc i)) \<noteq> view (f i)}" using B by (auto simp: less_Suc_eq_le)
  then have "card B \<le> card {i. i < ?n \<and> view (f (Suc i)) \<noteq> view (f i)}" by (intro card_mono) simp_all
  then show False using changes_before [of f ?n, OF assms] B(3) by simp
qed

end

end
