(* ===== verification/C_Lib.thy ===== *)
theory C_Lib
  imports Prelude
begin

text \<open>
  The parts of the C and kernel string library that the sources call: decimal output
  (\<^verbatim>\<open>%d\<close>, \<^verbatim>\<open>%u\<close>, \<^verbatim>\<open>%lu\<close> of \<^verbatim>\<open>sprintf\<close>), decimal input (\<^verbatim>\<open>%d\<close> of
  \<^verbatim>\<open>sscanf\<close>, \<^verbatim>\<open>kstrtol\<close>), and the view of a byte buffer as a C string. The lemmas are the
  round trips the proc-file protocols rest on: what one side prints is what the other reads.
\<close>

section \<open>Characters and C strings\<close>

abbreviation NUL :: char where
  "NUL \<equiv> CHR 0x00"

abbreviation newline :: char where
  "newline \<equiv> CHR 0x0A"

definition isdigit :: "char \<Rightarrow> bool" where
  "isdigit c \<longleftrightarrow> 48 \<le> (of_char c :: nat) \<and> of_char c \<le> (57 :: nat)"

definition digit_val :: "char \<Rightarrow> nat" where
  "digit_val c = of_char c - 48"

definition isspace :: "char \<Rightarrow> bool" where
  "isspace c \<longleftrightarrow> c = CHR '' '' \<or> (9 \<le> (of_char c :: nat) \<and> of_char c \<le> (13 :: nat))"

text \<open>The C string that starts \<open>off\<close> bytes into a buffer: up to the first NUL.\<close>

definition cstr :: "string \<Rightarrow> string" where
  "cstr buf = takeWhile (\<lambda>c. c \<noteq> NUL) buf"

definition cstr_at :: "string \<Rightarrow> nat \<Rightarrow> string result" where
  "cstr_at buf off = (if off < length buf \<and> NUL \<in> set (drop off buf)
                      then Inr (cstr (drop off buf)) else Inl OutOfBounds)"

lemma cstr_id: "NUL \<notin> set s \<Longrightarrow> cstr (s @ NUL # t) = s"
  unfolding cstr_def by (induction s) auto

lemma cstr_split: "NUL \<in> set buf \<Longrightarrow> buf = cstr buf @ NUL # drop (Suc (length (cstr buf))) buf"
  unfolding cstr_def by (induction buf) auto

lemma cstr_at_terminated:
  "off \<le> length s \<Longrightarrow> NUL \<notin> set (drop off s) \<Longrightarrow> cstr_at (s @ [NUL]) off = Inr (drop off s)"
  by (simp add: cstr_at_def cstr_id)

text \<open>
  Writing a C string into an array and measuring one. An array is the list of all its bytes, so
  a write that does not fit and a search that runs off the end are faults.
\<close>

definition strcpy_at :: "string \<Rightarrow> nat \<Rightarrow> string \<Rightarrow> string result" where
  "strcpy_at buf off s =
     (if off + length s < length buf
      then Inr (take off buf @ s @ NUL # drop (Suc (off + length s)) buf) else Inl OutOfBounds)"

definition strlen :: "string \<Rightarrow> nat result" where
  "strlen buf = (if NUL \<in> set buf then Inr (length (cstr buf)) else Inl OutOfBounds)"

text \<open>\<^verbatim>\<open>sprintf\<close> into a local array of \<open>n\<close> bytes: the text has to leave room for the NUL.\<close>

definition sprintf_into :: "nat \<Rightarrow> string \<Rightarrow> string result" where
  "sprintf_into n s = (if length s < n then Inr s else Inl OutOfBounds)"

lemma strcpy_at_length: "strcpy_at buf off s = Inr buf' \<Longrightarrow> length buf' = length buf"
  by (auto simp: strcpy_at_def split: if_splits)

lemma strlen_cstr: "NUL \<notin> set s \<Longrightarrow> strlen (s @ NUL # t) = Inr (length s)"
  by (simp add: strlen_def cstr_id)

section \<open>Decimal output\<close>

fun show_nat :: "nat \<Rightarrow> string" where
  "show_nat n = (if n < 10 then [char_of (48 + n)]
                 else show_nat (n div 10) @ [char_of (48 + n mod 10)])"

declare show_nat.simps [simp del]

text \<open>\<^verbatim>\<open>%d\<close>: a minus sign for negative values.\<close>

definition show_int :: "int \<Rightarrow> string" where
  "show_int i = (if i < 0 then CHR ''-'' # show_nat (nat (- i)) else show_nat (nat i))"

text \<open>\<^verbatim>\<open>%lu\<close>: the unsigned reading of a 64-bit value.\<close>

definition show_ulong :: "u64 \<Rightarrow> string" where
  "show_ulong w = show_nat (unat w)"

lemma digit_char:
  "n < 10 \<Longrightarrow> isdigit (char_of (48 + n)) \<and> digit_val (char_of (48 + n)) = n"
  by (simp add: isdigit_def digit_val_def)

lemma show_nat_digits: "c \<in> set (show_nat n) \<Longrightarrow> isdigit c"
proof (induction n rule: show_nat.induct)
  case (1 n)
  then show ?case
    by (cases "n < 10") (auto simp: show_nat.simps [of n] digit_char)
qed

lemma show_nat_nonempty [simp]: "show_nat n \<noteq> []"
  by (simp add: show_nat.simps [of n])

lemma isdigit_not_space: "isdigit c \<Longrightarrow> \<not> isspace c"
  by (auto simp: isdigit_def isspace_def)

lemma isdigit_not_NUL: "isdigit c \<Longrightarrow> c \<noteq> NUL"
  by (auto simp: isdigit_def)

lemma isdigit_not_sign: "isdigit c \<Longrightarrow> c \<noteq> CHR ''-'' \<and> c \<noteq> CHR ''+''"
  by (auto simp: isdigit_def)

lemma show_nat_hd: "\<exists>c cs. show_nat n = c # cs \<and> isdigit c"
  using show_nat_nonempty [of n] show_nat_digits [of _ n]
  by (cases "show_nat n") auto

lemma show_nat_no_NUL [simp]: "NUL \<notin> set (show_nat n)"
  using show_nat_digits isdigit_not_NUL by blast

lemma show_int_no_NUL [simp]: "NUL \<notin> set (show_int i)"
  by (simp add: show_int_def)

lemma show_nat_length_le: "n < 10 ^ k \<Longrightarrow> 0 < k \<Longrightarrow> length (show_nat n) \<le> k"
proof (induction n arbitrary: k rule: show_nat.induct)
  case (1 n)
  show ?case
  proof (cases "n < 10")
    case True
    with 1 show ?thesis by (simp add: show_nat.simps [of n])
  next
    case False
    obtain j where k: "k = Suc j"
      using "1.prems" by (cases k) auto
    with False "1.prems" have j: "0 < j" by (cases j) auto
    have "n div 10 < 10 ^ j"
      using "1.prems"(1) by (simp add: k less_mult_imp_div_less mult.commute)
    with False j 1 have "length (show_nat (n div 10)) \<le> j" by blast
    with False show ?thesis by (simp add: show_nat.simps [of n] k)
  qed
qed

section \<open>Decimal input\<close>

text \<open>The digits at the front of a string, as a number, and what follows them.\<close>

fun scan_digits :: "nat \<Rightarrow> string \<Rightarrow> nat \<times> string" where
  "scan_digits acc [] = (acc, [])"
| "scan_digits acc (c # cs) =
     (if isdigit c then scan_digits (10 * acc + digit_val c) cs else (acc, c # cs))"

fun no_digit_first :: "string \<Rightarrow> bool" where
  "no_digit_first [] = True"
| "no_digit_first (c # _) = (\<not> isdigit c)"

lemma scan_digits_stop: "no_digit_first cs \<Longrightarrow> scan_digits acc cs = (acc, cs)"
  by (cases cs) auto

fun digits_val :: "nat \<Rightarrow> string \<Rightarrow> nat" where
  "digits_val acc [] = acc"
| "digits_val acc (c # cs) = digits_val (10 * acc + digit_val c) cs"

lemma scan_digits_append:
  "(\<And>c. c \<in> set ds \<Longrightarrow> isdigit c) \<Longrightarrow> no_digit_first cs \<Longrightarrow>
   scan_digits acc (ds @ cs) = (digits_val acc ds, cs)"
  by (induction ds arbitrary: acc) (auto simp: scan_digits_stop)

lemma digits_val_append: "digits_val acc (xs @ ys) = digits_val (digits_val acc xs) ys"
  by (induction xs arbitrary: acc) auto

lemma digits_val_show_nat: "digits_val 0 (show_nat n) = n"
proof (induction n rule: show_nat.induct)
  case (1 n)
  show ?case
  proof (cases "n < 10")
    case True
    then show ?thesis by (simp add: show_nat.simps [of n] digit_char)
  next
    case False
    with 1 have "digits_val 0 (show_nat (n div 10)) = n div 10" by simp
    with False show ?thesis
      by (simp add: show_nat.simps [of n] digits_val_append digit_char)
  qed
qed

lemma scan_digits_show_nat: "no_digit_first cs \<Longrightarrow> scan_digits 0 (show_nat n @ cs) = (n, cs)"
  by (simp add: scan_digits_append show_nat_digits digits_val_show_nat)

text \<open>
  The kernel's \<^verbatim>\<open>%d\<close>: leading white space is skipped, one minus sign may follow, and at least
  one digit is needed. The value is stored in an \<^verbatim>\<open>int\<close>, so it wraps.
\<close>

definition skip_spaces :: "string \<Rightarrow> string" where
  "skip_spaces = dropWhile isspace"

definition scan_d :: "string \<Rightarrow> (int \<times> string) option" where
  "scan_d str =
     (case skip_spaces str of
        [] \<Rightarrow> None
      | c # cs \<Rightarrow>
          if c = CHR ''-'' then
            (if cs \<noteq> [] \<and> isdigit (hd cs)
             then (let (n, rest) = scan_digits 0 cs in Some (s32 (- int n), rest)) else None)
          else if isdigit c
          then (let (n, rest) = scan_digits 0 (c # cs) in Some (s32 (int n), rest)) else None)"

lemma skip_spaces_digit: "isdigit c \<Longrightarrow> skip_spaces (c # cs) = c # cs"
  by (simp add: skip_spaces_def isdigit_not_space)

lemma skip_spaces_space [simp]: "isspace c \<Longrightarrow> skip_spaces (c # cs) = skip_spaces cs"
  by (simp add: skip_spaces_def)

lemma scan_d_space [simp]: "isspace c \<Longrightarrow> scan_d (c # cs) = scan_d cs"
  by (simp add: scan_d_def)

lemma scan_d_show_nat:
  assumes "no_digit_first cs"
  shows "scan_d (show_nat n @ cs) = Some (s32 (int n), cs)"
proof -
  obtain c ds where s: "show_nat n = c # ds" and d: "isdigit c"
    using show_nat_hd by blast
  have "scan_digits 0 (c # ds @ cs) = (n, cs)"
    using scan_digits_show_nat [OF assms, of n] s by simp
  with s d show ?thesis
    by (simp add: scan_d_def skip_spaces_digit isdigit_not_sign)
qed

lemma scan_d_show_int:
  assumes "no_digit_first cs" and "c_int i"
  shows "scan_d (show_int i @ cs) = Some (i, cs)"
proof (cases "i < 0")
  case True
  obtain c ds where s: "show_nat (nat (- i)) = c # ds" and d: "isdigit c"
    using show_nat_hd by blast
  have "scan_digits 0 (c # ds @ cs) = (nat (- i), cs)"
    using scan_digits_show_nat [OF assms(1), of "nat (- i)"] s by simp
  moreover have "skip_spaces (CHR ''-'' # c # ds @ cs) = CHR ''-'' # c # ds @ cs"
    by (simp add: skip_spaces_def isspace_def)
  ultimately show ?thesis
    using True s d assms(2) by (simp add: scan_d_def show_int_def s32_id)
next
  case False
  with assms show ?thesis
    by (simp add: show_int_def scan_d_show_nat s32_id)
qed

text \<open>
  \<^verbatim>\<open>sscanf\<close> with a format made of \<^verbatim>\<open>%d\<close> directives, literal characters and white space:
  the values converted before the first mismatch.
\<close>

datatype directive = Conv_d | Lit char | Space

fun sscanf :: "directive list \<Rightarrow> string \<Rightarrow> int list" where
  "sscanf [] str = []"
| "sscanf (Conv_d # fs) str =
     (case scan_d str of None \<Rightarrow> [] | Some (i, rest) \<Rightarrow> i # sscanf fs rest)"
| "sscanf (Lit c # fs) str =
     (case str of [] \<Rightarrow> [] | d # rest \<Rightarrow> if c = d then sscanf fs rest else [])"
| "sscanf (Space # fs) str = sscanf fs (skip_spaces str)"

lemma scan_d_c_int: "scan_d str = Some (i, rest) \<Longrightarrow> c_int i"
  by (auto simp: scan_d_def Let_def split: list.splits if_splits prod.splits)

lemma sscanf_c_int: "i \<in> set (sscanf fs str) \<Longrightarrow> c_int i"
  by (induction fs str rule: sscanf.induct)
     (auto split: option.splits list.splits if_splits
           dest: scan_d_c_int dest!: sym [of "Some _" "scan_d _"])

lemma scan_d_skip [simp]: "scan_d (skip_spaces str) = scan_d str"
  by (simp add: scan_d_def skip_spaces_def)

text \<open>
  \<^verbatim>\<open>kstrtol(s, 10, res)\<close>: an optional sign, at least one digit, at most one trailing newline,
  and nothing else; a value outside a \<^verbatim>\<open>long\<close> is refused. \<^term>\<open>None\<close> is a non-zero return,
  which leaves \<^verbatim>\<open>*res\<close> as it was.
\<close>

definition kstrtoull_digits :: "string \<Rightarrow> nat option" where
  "kstrtoull_digits cs =
     (let (n, rest) = scan_digits 0 cs
      in if cs \<noteq> [] \<and> isdigit (hd cs) \<and> (rest = [] \<or> rest = [newline]) then Some n else None)"

definition kstrtol :: "string \<Rightarrow> int option" where
  "kstrtol s =
     (case s of
        [] \<Rightarrow> None
      | c # cs \<Rightarrow>
          if c = CHR ''-''
          then (case kstrtoull_digits cs of
                  Some n \<Rightarrow> if n \<le> 2 ^ 63 then Some (- int n) else None | None \<Rightarrow> None)
          else (case kstrtoull_digits (if c = CHR ''+'' then cs else s) of
                  Some n \<Rightarrow> if n < 2 ^ 63 then Some (int n) else None | None \<Rightarrow> None))"

lemma kstrtoull_digits_show: "kstrtoull_digits (show_nat n) = Some n"
proof -
  obtain c ds where s: "show_nat n = c # ds" and d: "isdigit c"
    using show_nat_hd by blast
  then show ?thesis
    using scan_digits_show_nat [of "[]" n] by (simp add: kstrtoull_digits_def s)
qed

lemma kstrtol_show_int:
  assumes "- (2 ^ 63) \<le> i" and "i < 2 ^ 63"
  shows "kstrtol (show_int i) = Some i"
proof (cases "i < 0")
  case True
  then show ?thesis
    using assms by (simp add: kstrtol_def show_int_def kstrtoull_digits_show)
next
  case False
  obtain c ds where s: "show_nat (nat i) = c # ds" and d: "isdigit c"
    using show_nat_hd by blast
  with False assms kstrtoull_digits_show [of "nat i"] show ?thesis
    by (simp add: kstrtol_def show_int_def isdigit_not_sign)
qed

text \<open>\<^verbatim>\<open>atoi\<close>, for numbers that fit a \<^verbatim>\<open>long\<close>: a sign is optional, and no digits give 0.\<close>

definition atoi :: "string \<Rightarrow> int" where
  "atoi str =
     (let str = skip_spaces str;
          str = (case str of c # d # cs \<Rightarrow> if c = CHR ''+'' \<and> isdigit d then d # cs else str | _ \<Rightarrow> str)
      in case scan_d str of None \<Rightarrow> 0 | Some (i, _) \<Rightarrow> i)"

section \<open>Lines\<close>

text \<open>\<^verbatim>\<open>fgets\<close> into an array of \<open>n\<close> bytes: up to and including a newline, at most \<open>n - 1\<close> bytes.\<close>

fun take_line :: "nat \<Rightarrow> string \<Rightarrow> string \<times> string" where
  "take_line 0 s = ([], s)"
| "take_line (Suc k) [] = ([], [])"
| "take_line (Suc k) (c # cs) =
     (if c = newline then ([c], cs) else (let (l, r) = take_line k cs in (c # l, r)))"

definition fgets :: "nat \<Rightarrow> string \<Rightarrow> (string \<times> string) option" where
  "fgets n s = (if s = [] then None else Some (take_line (n - 1) s))"

lemma take_line_append: "take_line k s = (l, r) \<Longrightarrow> l @ r = s"
  by (induction k s arbitrary: l r rule: take_line.induct) (auto split: if_splits prod.splits)

lemma take_line_progress: "take_line k s = (l, r) \<Longrightarrow> 0 < k \<Longrightarrow> s \<noteq> [] \<Longrightarrow> length r < length s"
  by (cases k; cases s) (auto split: if_splits prod.splits dest: take_line_append)

lemma take_line_line:
  "newline \<notin> set body \<Longrightarrow> length body < k \<Longrightarrow>
   take_line k (body @ newline # rest) = (body @ [newline], rest)"
proof (induction body arbitrary: k)
  case Nil
  then show ?case by (cases k) auto
next
  case (Cons c cs)
  then show ?case by (cases k) auto
qed

text \<open>A line without a newline among its first \<open>k\<close> bytes is cut there.\<close>

lemma take_line_cut:
  "newline \<notin> set l \<Longrightarrow> take_line (length l) (l @ r) = (l, r)"
  by (induction l) auto

end
