(* ===== verification/Proc_Status.thy ===== *)
theory Proc_Status
  imports C_Lib
begin

text \<open>
  The contract of the two \<^verbatim>\<open>/proc\<close> status readers (\<open>mp1_read\<close> of MP1 and \<open>mp_read\<close> of MP2):
  both walk a list, print one line per entry into a scratch array, append it to the output
  buffer with \<^verbatim>\<open>strcpy\<close>, and find the new end with \<^verbatim>\<open>strlen\<close>. The locale states the loop as a
  parameter with its two equations (the second for entries that can be read) and derives what it leaves in the buffer, and exactly when it
  runs past the end.
\<close>

locale status_loop =
  fixes loop :: "'e list \<Rightarrow> string \<Rightarrow> nat \<Rightarrow> string result"
    and line :: "'e \<Rightarrow> string"
    and cap :: nat
    and live :: "'e \<Rightarrow> bool"
  assumes loop_Nil: "loop [] buf off = Inr buf"
    and loop_Cons: "live e \<Longrightarrow> loop (e # es) buf off =
          bind_r (sprintf_into cap (line e)) (\<lambda>temp.
          bind_r (strcpy_at buf off temp) (\<lambda>buf'.
          bind_r (strlen buf') (\<lambda>off'. loop es buf' off')))"
    and line_NUL: "NUL \<notin> set (line e)"
    and line_fits: "live e \<Longrightarrow> length (line e) < cap"
begin

text \<open>One entry: the line is appended to the text already printed.\<close>

lemma loop_step:
  assumes "live e" and "NUL \<notin> set pre" and "length pre + length (line e) < length (pre @ rest)"
  shows "\<exists>rest'. loop (e # es) (pre @ rest) (length pre) =
           loop es ((pre @ line e) @ NUL # rest') (length (pre @ line e))
         \<and> length ((pre @ line e) @ NUL # rest') = length (pre @ rest)"
proof -
  let ?rest' = "drop (Suc (length (line e))) rest"
  have cp: "strcpy_at (pre @ rest) (length pre) (line e) =
              Inr ((pre @ line e) @ NUL # ?rest')"
    using assms(3) by (simp add: strcpy_at_def)
  have len: "strlen ((pre @ line e) @ NUL # ?rest') = Inr (length (pre @ line e))"
    using assms(2) line_NUL [of e] by (intro strlen_cstr) auto
  have "length ((pre @ line e) @ NUL # ?rest') = length (pre @ rest)"
    using strcpy_at_length [OF cp] .
  moreover have "loop (e # es) (pre @ rest) (length pre) =
           loop es ((pre @ line e) @ NUL # ?rest') (length (pre @ line e))"
    using cp len line_fits [of e] assms(1) by (simp add: loop_Cons sprintf_into_def)
  ultimately show ?thesis by blast
qed

lemma loop_appends:
  assumes "\<And>e. e \<in> set es \<Longrightarrow> live e" and "NUL \<notin> set pre"
    and "length pre + length (concat (map line es)) < length (pre @ NUL # rest)"
  shows "\<exists>rest'. loop es (pre @ NUL # rest) (length pre) =
           Inr (pre @ concat (map line es) @ NUL # rest')
         \<and> length (pre @ concat (map line es) @ NUL # rest') = length (pre @ NUL # rest)"
  using assms
proof (induction es arbitrary: pre rest)
  case Nil
  then show ?case by (auto simp: loop_Nil)
next
  case (Cons e es)
  let ?d = "pre @ line e"
  obtain r where step: "loop (e # es) (pre @ NUL # rest) (length pre) =
        loop es (?d @ NUL # r) (length ?d)"
      and len: "length (?d @ NUL # r) = length (pre @ NUL # rest)"
    using loop_step [of e pre "NUL # rest" es] Cons.prems by auto
  have "NUL \<notin> set ?d" using Cons.prems(2) line_NUL by auto
  moreover have "length ?d + length (concat (map line es)) < length (?d @ NUL # r)"
    using Cons.prems(3) len by simp
  ultimately obtain r' where r': "loop es (?d @ NUL # r) (length ?d) =
        Inr (?d @ concat (map line es) @ NUL # r')"
      "length (?d @ concat (map line es) @ NUL # r') = length (?d @ NUL # r)"
    using Cons.IH [of ?d r] Cons.prems(1) by auto
  show ?case
    using step r' len by (intro exI [of _ r']) simp
qed

text \<open>From an uninitialised buffer, a non-empty list that fits leaves exactly its lines.\<close>

lemma loop_text:
  assumes "es \<noteq> []" and "\<And>e. e \<in> set es \<Longrightarrow> live e" and "length (concat (map line es)) < length buf"
  shows "\<exists>rest. loop es buf 0 = Inr (concat (map line es) @ NUL # rest)
         \<and> length (concat (map line es) @ NUL # rest) = length buf"
proof -
  from assms(1) obtain e es' where es: "es = e # es'" by (cases es) auto
  obtain r where step: "loop (e # es') buf 0 = loop es' (line e @ NUL # r) (length (line e))"
      and len: "length (line e @ NUL # r) = length buf"
    using loop_step [of e "[]" buf es'] assms(2,3) by (auto simp: es)
  show ?thesis
    using loop_appends [of es' "line e" r] step len assms(2,3) line_NUL [of e]
    by (auto simp: es)
qed

lemma loop_overruns_from:
  assumes "\<And>e. e \<in> set es \<Longrightarrow> live e" and "NUL \<notin> set pre"
    and "length pre < length (pre @ rest)"
    and "length (pre @ rest) \<le> length pre + length (concat (map line es))"
  shows "loop es (pre @ rest) (length pre) = Inl OutOfBounds"
  using assms
proof (induction es arbitrary: pre rest)
  case Nil
  then show ?case by simp
next
  case (Cons e es)
  let ?d = "pre @ line e"
  show ?case
  proof (cases "length pre + length (line e) < length (pre @ rest)")
    case True
    obtain r where step: "loop (e # es) (pre @ rest) (length pre) =
          loop es (?d @ NUL # r) (length ?d)"
        and len: "length (?d @ NUL # r) = length (pre @ rest)"
      using loop_step [OF _ Cons.prems(2) True, of es] Cons.prems(1) by auto
    have "loop es (?d @ NUL # r) (length ?d) = Inl OutOfBounds"
      using Cons.prems line_NUL [of e] len by (intro Cons.IH) auto
    with step show ?thesis by simp
  next
    case False
    then show ?thesis
      using line_fits [of e] Cons.prems(1) by (simp add: loop_Cons sprintf_into_def strcpy_at_def)
  qed
qed

text \<open>A list whose lines do not fit overruns the buffer: nothing in the loop checks.\<close>

lemma loop_overruns:
  "(\<And>e. e \<in> set es \<Longrightarrow> live e) \<Longrightarrow> 0 < length buf \<Longrightarrow> length buf \<le> length (concat (map line es)) \<Longrightarrow>
   loop es buf 0 = Inl OutOfBounds"
  using loop_overruns_from [of es "[]" buf] by simp

end

end
