(* ===== verification/MP1_Status.thy ===== *)
theory MP1_Status
  imports Proc_Status
begin

text \<open>
  MP1: the kernel module that keeps a list of registered processes and their CPU times
  (\<^verbatim>\<open>src/MP1/mp1.c\<close>, \<^verbatim>\<open>src/MP1/mp1_given.h\<close>). A write to \<^verbatim>\<open>/proc/mp1/status\<close> registers a
  process, a timer queues the bottom half every five seconds, the bottom half refreshes the CPU
  times and drops the processes that ended, and a read prints the list.

  The kernel list \<^verbatim>\<open>head\<close> is the list of its nodes' addresses, front first; the nodes live in a
  heap. What comes from outside is an argument: the process table, the clock, the conversions
  between jiffies and milliseconds, the address \<^verbatim>\<open>kmalloc\<close> returns and the bytes it finds there.
\<close>

section \<open>State\<close>

record mp1_list =
  cpu_time :: u64
  mp1_pid :: int

record mp1_state =
  mp1_head :: "addr list"
  mp1_heap :: "addr \<rightharpoonup> mp1_list"
  mp1_timer :: "u64 option"
  mp1_work :: bool

text \<open>What the module reads of a \<^verbatim>\<open>task_struct\<close>; the process table maps pids to tasks.\<close>

record task_struct =
  utime :: u64

type_synonym ptab = "int \<rightharpoonup> task_struct"

section \<open>Operations\<close>

text \<open>\<^verbatim>\<open>get_cpu_use\<close>: the user time of a live process; \<^term>\<open>None\<close> is its return value -1.\<close>

definition get_cpu_use :: "ptab \<Rightarrow> int \<Rightarrow> u64 option" where
  "get_cpu_use pt pid = (case pt pid of Some t \<Rightarrow> Some (utime t) | None \<Rightarrow> None)"

text \<open>The format \<^verbatim>\<open>"%lu: %lu ms\n"\<close>; \<open>j2m\<close> is \<^verbatim>\<open>jiffies_to_msecs\<close>.\<close>

definition mp1_line :: "(u64 \<Rightarrow> u32) \<Rightarrow> mp1_list \<Rightarrow> string" where
  "mp1_line j2m e = show_ulong (word_of_int (mp1_pid e)) @ '': ''
     @ show_ulong (ucast (j2m (cpu_time e))) @ '' ms'' @ [newline]"

fun mp1_read_loop ::
  "(u64 \<Rightarrow> u32) \<Rightarrow> (addr \<rightharpoonup> mp1_list) \<Rightarrow> addr list \<Rightarrow> string \<Rightarrow> nat \<Rightarrow> string result" where
  "mp1_read_loop j2m h [] buf offset = Inr buf"
| "mp1_read_loop j2m h (a # as) buf offset =
     bind_r (deref h (Some a)) (\<lambda>entry.
     bind_r (sprintf_into 256 (mp1_line j2m entry)) (\<lambda>temp.
     bind_r (strcpy_at buf offset temp) (\<lambda>buf'.
     bind_r (strlen buf') (\<lambda>offset'. mp1_read_loop j2m h as buf' offset'))))"

text \<open>
  A read returns the bytes copied to the user (its return value is their number) and the new
  file position. \<open>buf\<close> is what the 2048 bytes from \<^verbatim>\<open>kmalloc\<close> hold at the start.
\<close>

definition mp1_read :: "(u64 \<Rightarrow> u32) \<Rightarrow> string \<Rightarrow> mp1_state \<Rightarrow> nat \<Rightarrow> (string \<times> nat) result" where
  "mp1_read j2m buf s pos =
     (if 0 < pos then Inr ([], pos)
      else bind_r (mp1_read_loop j2m (mp1_heap s) (mp1_head s) buf 0) (\<lambda>buf'.
           bind_r (strlen buf') (\<lambda>n. Inr (take (Suc n) buf', pos + Suc n))))"

text \<open>
  A write registers a process: \<open>a\<close> is the address of the new node, \<open>junk\<close> what its \<^verbatim>\<open>pid\<close> field
  holds before \<^verbatim>\<open>kstrtol\<close>, which leaves it alone when the text is not a number.
\<close>

definition mp1_write :: "addr \<Rightarrow> int \<Rightarrow> string \<Rightarrow> mp1_state \<Rightarrow> nat \<times> mp1_state" where
  "mp1_write a junk ubuf s =
     (let pid = (case kstrtol (cstr (ubuf @ [NUL])) of Some p \<Rightarrow> p | None \<Rightarrow> junk);
          new_node = \<lparr>cpu_time = 1337, mp1_pid = pid\<rparr>
      in (length ubuf, s\<lparr>mp1_heap := (mp1_heap s)(a \<mapsto> new_node), mp1_head := a # mp1_head s\<rparr>))"

text \<open>The top half: queue the bottom half and re-arm the timer.\<close>

definition mp1_timer_callback :: "(u32 \<Rightarrow> u64) \<Rightarrow> u64 \<Rightarrow> mp1_state \<Rightarrow> mp1_state" where
  "mp1_timer_callback m2j jiffies s =
     s\<lparr>mp1_work := True, mp1_timer := Some (jiffies + m2j 5000)\<rparr>"

text \<open>
  The bottom half: \<^verbatim>\<open>list_for_each_entry_safe\<close> visits the nodes the list had at the start. The
  \<^verbatim>\<open>long\<close> pid is passed to an \<^verbatim>\<open>int\<close> parameter.
\<close>

fun bottom_loop :: "ptab \<Rightarrow> addr list \<Rightarrow> mp1_state \<Rightarrow> mp1_state result" where
  "bottom_loop pt [] s = Inr s"
| "bottom_loop pt (a # as) s =
     bind_r (deref (mp1_heap s) (Some a)) (\<lambda>entry.
       (case get_cpu_use pt (s32 (mp1_pid entry)) of
          Some v \<Rightarrow> bottom_loop pt as
                      (s\<lparr>mp1_heap := (mp1_heap s)(a \<mapsto> entry\<lparr>cpu_time := v\<rparr>)\<rparr>)
        | None \<Rightarrow> bottom_loop pt as (s\<lparr>mp1_head := remove1 a (mp1_head s)\<rparr>)))"

definition bottom_fn :: "ptab \<Rightarrow> mp1_state \<Rightarrow> mp1_state result" where
  "bottom_fn pt s = bottom_loop pt (mp1_head s) s"

text \<open>The work queue takes the item off before it runs it.\<close>

definition mp1_run_work :: "ptab \<Rightarrow> mp1_state \<Rightarrow> mp1_state result" where
  "mp1_run_work pt s = bottom_fn pt (s\<lparr>mp1_work := False\<rparr>)"

definition mp1_init :: "(u32 \<Rightarrow> u64) \<Rightarrow> u64 \<Rightarrow> mp1_state" where
  "mp1_init m2j jiffies =
     \<lparr>mp1_head = [], mp1_heap = Map.empty, mp1_timer = Some (jiffies + m2j 5000),
      mp1_work = False\<rparr>"

text \<open>
  The walk of \<^verbatim>\<open>mp1_exit\<close> over the list: it reads the next pointer of a node and then frees it.
\<close>

fun mp1_free_loop :: "addr list \<Rightarrow> (addr \<rightharpoonup> mp1_list) \<Rightarrow> (addr \<rightharpoonup> mp1_list) result" where
  "mp1_free_loop [] h = Inr h"
| "mp1_free_loop (a # as) h =
     bind_r (deref h (Some a)) (\<lambda>_. bind_r (kfree h a) (\<lambda>h'. mp1_free_loop as h'))"

text \<open>
  Unloading frees the nodes (the list head still points at them), deletes the timer and destroys
  the work queue, which first runs a bottom half that is still queued.
\<close>

definition mp1_exit :: "ptab \<Rightarrow> mp1_state \<Rightarrow> mp1_state result" where
  "mp1_exit pt s =
     bind_r (mp1_free_loop (mp1_head s) (mp1_heap s)) (\<lambda>h.
       let s' = s\<lparr>mp1_heap := h, mp1_timer := None\<rparr>
       in if mp1_work s' then mp1_run_work pt s' else Inr s')"

section \<open>Invariant\<close>

text \<open>The list has no node twice, its nodes are live, and the timer is armed.\<close>

definition mp1_inv :: "mp1_state \<Rightarrow> bool" where
  "mp1_inv s \<longleftrightarrow> distinct (mp1_head s) \<and> set (mp1_head s) \<subseteq> dom (mp1_heap s)
                 \<and> mp1_timer s \<noteq> None"

definition mp1_entry :: "mp1_state \<Rightarrow> addr \<Rightarrow> mp1_list" where
  "mp1_entry s a = the (mp1_heap s a)"

text \<open>The registered processes with their recorded times, in list order.\<close>

definition mp1_procs :: "mp1_state \<Rightarrow> mp1_list list" where
  "mp1_procs s = map (mp1_entry s) (mp1_head s)"

text \<open>What the bottom half should leave of a list of entries: live processes, refreshed.\<close>

fun refresh :: "ptab \<Rightarrow> mp1_list list \<Rightarrow> mp1_list list" where
  "refresh pt [] = []"
| "refresh pt (e # es) = (case get_cpu_use pt (s32 (mp1_pid e)) of
     Some v \<Rightarrow> e\<lparr>cpu_time := v\<rparr> # refresh pt es | None \<Rightarrow> refresh pt es)"

inductive mp1_step :: "mp1_state \<Rightarrow> mp1_state \<Rightarrow> bool" where
  m1_write: "mp1_heap s a = None \<Longrightarrow> mp1_write a junk ubuf s = (n, t) \<Longrightarrow> mp1_step s t"
| m1_timer: "mp1_timer s \<noteq> None \<Longrightarrow> mp1_step s (mp1_timer_callback m2j jiffies s)"
| m1_work: "mp1_work s \<Longrightarrow> mp1_run_work pt s = Inr t \<Longrightarrow> mp1_step s t"

inductive_cases mp1_stepE: "mp1_step s t"

section \<open>The bottom half\<close>

text \<open>
  The loop, on any list of distinct live nodes: it never faults, it touches no other node, and
  afterwards exactly the nodes of live processes are left, with the process's time.
\<close>

definition alive :: "ptab \<Rightarrow> mp1_state \<Rightarrow> addr \<Rightarrow> bool" where
  "alive pt s a \<longleftrightarrow> get_cpu_use pt (s32 (mp1_pid (mp1_entry s a))) \<noteq> None"

definition new_time :: "ptab \<Rightarrow> mp1_state \<Rightarrow> addr \<Rightarrow> mp1_list" where
  "new_time pt s a = (mp1_entry s a)
     \<lparr>cpu_time := the (get_cpu_use pt (s32 (mp1_pid (mp1_entry s a))))\<rparr>"

text \<open>One pass of the loop, and what it leaves of the other entries.\<close>

definition bottom_entry :: "ptab \<Rightarrow> addr \<Rightarrow> mp1_state \<Rightarrow> mp1_state" where
  "bottom_entry pt a s =
     (if alive pt s a then s\<lparr>mp1_heap := (mp1_heap s)(a \<mapsto> new_time pt s a)\<rparr>
      else s\<lparr>mp1_head := remove1 a (mp1_head s)\<rparr>)"

lemma bottom_loop_entry:
  "mp1_heap s a \<noteq> None \<Longrightarrow> bottom_loop pt (a # as) s = bottom_loop pt as (bottom_entry pt a s)"
  by (auto simp: bottom_entry_def alive_def new_time_def mp1_entry_def split: option.splits)

lemma bottom_entry_simps [simp]:
  "mp1_heap (bottom_entry pt a s) =
     (if alive pt s a then (mp1_heap s)(a \<mapsto> new_time pt s a) else mp1_heap s)"
  "mp1_head (bottom_entry pt a s) = (if alive pt s a then mp1_head s else remove1 a (mp1_head s))"
  "bottom_entry pt a s\<lparr>mp1_head := hs, mp1_heap := hp\<rparr> = s\<lparr>mp1_head := hs, mp1_heap := hp\<rparr>"
  by (simp_all add: bottom_entry_def)

lemma bottom_entry_other:
  "b \<noteq> a \<Longrightarrow> alive pt (bottom_entry pt a s) b = alive pt s b"
  "b \<noteq> a \<Longrightarrow> new_time pt (bottom_entry pt a s) b = new_time pt s b"
  by (simp_all add: alive_def new_time_def mp1_entry_def)

lemma bottom_loop_spec:
  assumes "distinct as" and "\<And>a. a \<in> set as \<Longrightarrow> mp1_heap s a \<noteq> None"
    and "distinct (mp1_head s)"
  shows "bottom_loop pt as s = Inr (s
     \<lparr>mp1_head := filter (\<lambda>a. a \<in> set as \<longrightarrow> alive pt s a) (mp1_head s),
      mp1_heap := (\<lambda>a. if a \<in> set as \<and> alive pt s a then Some (new_time pt s a)
                       else mp1_heap s a)\<rparr>)"
  using assms
proof (induction as arbitrary: s)
  case (Cons a as)
  let ?t = "bottom_entry pt a s"
  have a: "a \<notin> set as" using Cons.prems(1) by simp
  have keep: "alive pt ?t b = alive pt s b" if "b \<in> set as" for b
    using that a bottom_entry_other(1) by metis
  have "bottom_loop pt as ?t = Inr (?t
     \<lparr>mp1_head := filter (\<lambda>b. b \<in> set as \<longrightarrow> alive pt ?t b) (mp1_head ?t),
      mp1_heap := (\<lambda>b. if b \<in> set as \<and> alive pt ?t b then Some (new_time pt ?t b) else mp1_heap ?t b)\<rparr>)"
    using Cons.prems by (intro Cons.IH) auto
  moreover have "filter (\<lambda>b. b \<in> set as \<longrightarrow> alive pt ?t b) (mp1_head ?t) =
      filter (\<lambda>b. b \<in> set (a # as) \<longrightarrow> alive pt s b) (mp1_head s)"
    using Cons.prems(3) a keep by (auto simp: remove1_filter_distinct intro!: filter_cong)
  moreover have "(\<lambda>b. if b \<in> set as \<and> alive pt ?t b then Some (new_time pt ?t b) else mp1_heap ?t b) =
      (\<lambda>b. if b \<in> set (a # as) \<and> alive pt s b then Some (new_time pt s b) else mp1_heap s b)"
  proof
    fix b
    show "(if b \<in> set as \<and> alive pt ?t b then Some (new_time pt ?t b) else mp1_heap ?t b) =
          (if b \<in> set (a # as) \<and> alive pt s b then Some (new_time pt s b) else mp1_heap s b)"
      using a bottom_entry_other [of b a pt s] by (cases "b = a") auto
  qed
  ultimately show ?case using Cons.prems(2) [of a] bottom_loop_entry [of s a pt as] by simp
qed simp

lemma bottom_fn_spec:
  assumes "mp1_inv s"
  shows "bottom_fn pt s = Inr (s
     \<lparr>mp1_head := filter (alive pt s) (mp1_head s),
      mp1_heap := (\<lambda>a. if a \<in> set (mp1_head s) \<and> alive pt s a then Some (new_time pt s a)
                       else mp1_heap s a)\<rparr>)"
proof -
  have "filter (\<lambda>a. a \<in> set (mp1_head s) \<longrightarrow> alive pt s a) (mp1_head s) =
        filter (alive pt s) (mp1_head s)"
    by (intro filter_cong) auto
  then show ?thesis
    using bottom_loop_spec [of "mp1_head s" s pt] assms
    by (auto simp: bottom_fn_def mp1_inv_def subset_iff)
qed

lemma refresh_alive:
  "map (new_time pt s) (filter (alive pt s) as) = refresh pt (map (mp1_entry s) as)"
  by (induction as) (auto simp: alive_def new_time_def)

lemma mp1_procs_refresh:
  assumes "bottom_fn pt s = Inr t" and "mp1_inv s"
  shows "mp1_procs t = refresh pt (mp1_procs s)"
proof -
  have t: "t = s\<lparr>mp1_head := filter (alive pt s) (mp1_head s),
      mp1_heap := (\<lambda>a. if a \<in> set (mp1_head s) \<and> alive pt s a then Some (new_time pt s a)
                       else mp1_heap s a)\<rparr>"
    using assms bottom_fn_spec by simp
  have "mp1_procs t = map (new_time pt s) (filter (alive pt s) (mp1_head s))"
    by (simp add: mp1_procs_def mp1_entry_def t)
  then show ?thesis by (simp add: refresh_alive mp1_procs_def)
qed

lemma bottom_fn_inv:
  assumes "bottom_fn pt s = Inr t" and "mp1_inv s"
  shows "mp1_inv t"
  using assms bottom_fn_spec [of s pt] by (auto simp: mp1_inv_def)

section \<open>Every reachable state\<close>

lemma mp1_inv_work [simp]: "mp1_inv (s\<lparr>mp1_work := w\<rparr>) = mp1_inv s"
  by (simp add: mp1_inv_def)

lemma mp1_write_inv:
  "mp1_write a junk ubuf s = (n, t) \<Longrightarrow> mp1_heap s a = None \<Longrightarrow> mp1_inv s \<Longrightarrow> mp1_inv t"
  by (auto simp: mp1_write_def mp1_inv_def Let_def)

lemma mp1_step_inv: "mp1_step s t \<Longrightarrow> mp1_inv s \<Longrightarrow> mp1_inv t"
proof (induction rule: mp1_step.induct)
  case (m1_write s a junk ubuf n t)
  then show ?case by (blast intro: mp1_write_inv)
next
  case (m1_timer s m2j jiffies)
  then show ?case by (simp add: mp1_inv_def mp1_timer_callback_def)
next
  case (m1_work s pt t)
  then show ?case by (auto simp: mp1_run_work_def intro: bottom_fn_inv)
qed

interpretation mp1_sys: transition_system "\<lambda>s. \<exists>m2j j. s = mp1_init m2j j" mp1_step mp1_inv
proof unfold_locales
  fix s assume "\<exists>m2j j. s = mp1_init m2j j"
  then show "mp1_inv s" by (auto simp: mp1_inv_def mp1_init_def)
qed (rule mp1_step_inv)

section \<open>Reading the status file\<close>

lemma show_ulong_length: "length (show_ulong w) \<le> 20"
proof -
  have "unat w < 2 ^ 64"
    using unsigned_less [of w, where ?'a = nat] by simp
  then have "unat w < 10 ^ 20" by simp
  then show ?thesis
    by (simp add: show_ulong_def show_nat_length_le)
qed

lemma show_ulong_NUL [simp]: "NUL \<notin> set (show_ulong w)"
  by (simp add: show_ulong_def)

lemma mp1_line_length: "length (mp1_line j2m e) \<le> 46"
  using show_ulong_length [of "word_of_int (mp1_pid e)"]
    show_ulong_length [of "ucast (j2m (cpu_time e))"]
  by (simp add: mp1_line_def)

lemma mp1_line_NUL [simp]: "NUL \<notin> set (mp1_line j2m e)"
  by (simp add: mp1_line_def)

interpretation mp1_sl: status_loop "mp1_read_loop j2m h" "\<lambda>a. mp1_line j2m (the (h a))" 256
    "\<lambda>a. h a \<noteq> None" for j2m h
proof unfold_locales
  fix e
  show "length (mp1_line j2m (the (h e))) < 256"
    using mp1_line_length [of j2m "the (h e)"] by simp
qed auto

definition mp1_text :: "(u64 \<Rightarrow> u32) \<Rightarrow> mp1_state \<Rightarrow> string" where
  "mp1_text j2m s = concat (map (mp1_line j2m) (mp1_procs s))"

lemma mp1_text_heap:
  "concat (map (\<lambda>a. mp1_line j2m (the (mp1_heap s a))) (mp1_head s)) = mp1_text j2m s"
  by (simp add: mp1_text_def mp1_procs_def mp1_entry_def comp_def)

lemma mp1_text_NUL: "NUL \<notin> set (mp1_text j2m s)"
  by (auto simp: mp1_text_def)

section \<open>Unloading\<close>

lemma mp1_free_loop_spec:
  assumes "distinct as" and "\<And>a. a \<in> set as \<Longrightarrow> h a \<noteq> None"
  shows "mp1_free_loop as h = Inr (h |` (- set as))"
  using assms
proof (induction as arbitrary: h)
  case Nil
  then show ?case by simp
next
  case (Cons a as)
  obtain e where e: "h a = Some e" using Cons.prems(2) [of a] by auto
  have "mp1_free_loop (a # as) h = mp1_free_loop as (h(a := None))"
    by (simp add: e)
  also have "\<dots> = Inr (h(a := None) |` (- set as))"
    using Cons.prems by (intro Cons.IH) auto
  also have "h(a := None) |` (- set as) = h |` (- set (a # as))"
    by (auto simp: restrict_map_def)
  finally show ?case .
qed

text \<open>What a read returns, and what a registration leaves, for the modules and the programs that use them.\<close>

lemma mp1_read_fits:
  assumes "mp1_inv s" and "mp1_head s \<noteq> []" and "length buf = 2048"
    and "length (mp1_text j2m s) < 2048"
  shows "mp1_read j2m buf s 0 = Inr (mp1_text j2m s @ [NUL], Suc (length (mp1_text j2m s)))"
proof -
  have live: "\<And>a. a \<in> set (mp1_head s) \<Longrightarrow> mp1_heap s a \<noteq> None"
    using assms(1) by (auto simp: mp1_inv_def)
  obtain r where "mp1_read_loop j2m (mp1_heap s) (mp1_head s) buf 0 = Inr (mp1_text j2m s @ NUL # r)"
    using mp1_sl.loop_text [where j2m = j2m and h = "mp1_heap s" and buf = buf, OF assms(2) live] assms(3,4) by (auto simp: mp1_text_heap)
  then show ?thesis
    by (simp add: mp1_read_def strlen_cstr mp1_text_NUL)
qed

lemma mp1_write_registers:
  assumes "mp1_inv s" and "mp1_heap s a = None" and "- (2 ^ 63) \<le> p" and "p < 2 ^ 63"
    and "mp1_write a junk (show_int p) s = (n, t)"
  shows "n = length (show_int p)" and "mp1_inv t"
    and "mp1_procs t = \<lparr>cpu_time = 1337, mp1_pid = p\<rparr> # mp1_procs s" and "mp1_head t = a # mp1_head s"
proof -
  have "kstrtol (cstr (show_int p @ [NUL])) = Some p"
    using assms(3,4) by (simp add: cstr_id kstrtol_show_int)
  then have t: "n = length (show_int p)"
      "t = s\<lparr>mp1_heap := (mp1_heap s)(a \<mapsto> \<lparr>cpu_time = 1337, mp1_pid = p\<rparr>),
             mp1_head := a # mp1_head s\<rparr>"
    using assms(5) by (simp_all add: mp1_write_def)
  have "a \<notin> set (mp1_head s)"
    using assms(1,2) by (auto simp: mp1_inv_def)
  then show "mp1_procs t = \<lparr>cpu_time = 1337, mp1_pid = p\<rparr> # mp1_procs s"
    by (auto simp: mp1_procs_def mp1_entry_def t(2))
  show "n = length (show_int p)" "mp1_head t = a # mp1_head s" using t by simp_all
  show "mp1_inv t" using assms(1,2,5) by (blast intro: mp1_write_inv)
qed

section \<open>Properties\<close>

text \<open>A module state with one registered process, for the witnesses.\<close>

definition mp1_demo :: mp1_state where
  "mp1_demo = snd (mp1_write 1 0 ''42'' (mp1_init (\<lambda>_. 1250) 0))"

definition demo_ptab :: ptab where
  "demo_ptab = [42 \<mapsto> \<lparr>utime = 7\<rparr>]"

lemma mp1_demo_simps [simp]:
  "mp1_head mp1_demo = [1]"
  "mp1_heap mp1_demo = [1 \<mapsto> \<lparr>cpu_time = 1337, mp1_pid = 42\<rparr>]"
  "mp1_timer mp1_demo = Some 1250"
  "mp1_work mp1_demo = False"
proof -
  have "kstrtol (cstr (''42'' @ [NUL])) = Some 42"
    by (simp add: kstrtol_def cstr_def kstrtoull_digits_def isdigit_def digit_val_def)
  then show "mp1_head mp1_demo = [1]"
    "mp1_heap mp1_demo = [1 \<mapsto> \<lparr>cpu_time = 1337, mp1_pid = 42\<rparr>]"
    "mp1_timer mp1_demo = Some 1250" "mp1_work mp1_demo = False"
    by (simp_all add: mp1_demo_def mp1_write_def mp1_init_def)
qed

text \<open>
  C29. In every state the module can reach from loading, the list has no node twice, all its
  nodes are allocated, the timer is armed, and the bottom half runs to its end without a fault:
  afterwards the list holds, in the old order, exactly the entries whose process still exists,
  each with the process's current user time.
\<close>

theorem mp1_bottom_half_correct:
  assumes "mp1_step\<^sup>*\<^sup>* (mp1_init m2j jiffies) s"
  shows "mp1_inv s \<and> (\<exists>t. bottom_fn pt s = Inr t \<and> mp1_inv t
           \<and> mp1_procs t = refresh pt (mp1_procs s))"
proof -
  have inv: "mp1_inv s" using assms by (blast intro: mp1_sys.inv_reachable)
  then obtain t where "bottom_fn pt s = Inr t" using bottom_fn_spec by blast
  with inv show ?thesis by (blast intro: bottom_fn_inv mp1_procs_refresh)
qed

theorem mp1_bottom_half_correct_witness:
  "mp1_inv mp1_demo \<and> (\<exists>t. bottom_fn demo_ptab mp1_demo = Inr t \<and> mp1_inv t
     \<and> mp1_procs t = refresh demo_ptab (mp1_procs mp1_demo))"
proof (rule mp1_bottom_half_correct)
  show "mp1_step\<^sup>*\<^sup>* (mp1_init (\<lambda>_. 1250) 0) mp1_demo"
    unfolding mp1_demo_def
    by (rule r_into_rtranclp, rule m1_write) (simp add: mp1_init_def, rule surjective_pairing)
qed

text \<open>
  C32. Reading the status file at position 0, when the lines of the registered processes fit in the 2048 bytes of the
  buffer. If some process is registered the read returns one line per process followed by a NUL,
  whatever the buffer held before. If none is, nothing is written to the buffer, and the read returns the string that
  happens to be in the uninitialised memory, or runs off its end when there is no NUL in it. At any later position
  the read returns nothing.
\<close>

theorem mp1_read_lists_all:
  assumes "mp1_inv s" and "length buf = 2048" and "length (mp1_text j2m s) < 2048"
  shows "mp1_read j2m buf s 0 =
           (if mp1_head s \<noteq> [] then Inr (mp1_text j2m s @ [NUL], Suc (length (mp1_text j2m s)))
            else if NUL \<in> set buf then Inr (cstr buf @ [NUL], Suc (length (cstr buf)))
            else Inl OutOfBounds)
         \<and> mp1_read j2m buf s (Suc pos) = Inr ([], Suc pos)"
proof (cases "mp1_head s = []")
  case True
  have "take (Suc (length (cstr buf))) buf = cstr buf @ [NUL]" if "NUL \<in> set buf"
    using cstr_split [OF that] by (metis append_eq_conv_conj append.assoc append_Cons append_Nil length_append_singleton)
  then show ?thesis using True by (simp add: mp1_read_def strlen_def)
next
  case False
  then show ?thesis using mp1_read_fits [OF assms(1) False assms(2,3)] by (simp add: mp1_read_def)
qed

theorem mp1_read_lists_all_witness:
  "mp1_read (\<lambda>_. 4) (replicate 2048 (CHR ''x'')) mp1_demo 0
     = Inr (mp1_text (\<lambda>_. 4) mp1_demo @ [NUL], Suc (length (mp1_text (\<lambda>_. 4) mp1_demo)))
   \<and> mp1_read (\<lambda>_. 4) (replicate 2048 (CHR ''x'')) (mp1_init (\<lambda>_. 1250) 0) 0 = Inl OutOfBounds"
proof -
  have demo: "mp1_inv mp1_demo" "mp1_head mp1_demo \<noteq> []" by (simp_all add: mp1_inv_def)
  have "length (mp1_text (\<lambda>_. 4) mp1_demo) < 2048"
    using mp1_line_length [of "\<lambda>_. 4" "\<lparr>cpu_time = 1337, mp1_pid = 42\<rparr>"]
    by (simp add: mp1_text_def mp1_procs_def mp1_entry_def)
  moreover have "mp1_inv (mp1_init (\<lambda>_. 1250) 0)" "mp1_head (mp1_init (\<lambda>_. 1250) 0) = []"
      "mp1_text (\<lambda>_. 4) (mp1_init (\<lambda>_. 1250) 0) = []"
    by (simp_all add: mp1_inv_def mp1_init_def mp1_text_def mp1_procs_def)
  ultimately show ?thesis
    using mp1_read_lists_all [OF demo(1), of "replicate 2048 (CHR ''x'')" "\<lambda>_. 4"] demo(2)
      mp1_read_lists_all [of "mp1_init (\<lambda>_. 1250) 0" "replicate 2048 (CHR ''x'')" "\<lambda>_. 4"]
    by simp
qed

text \<open>
  Nothing bounds the output of a read by the buffer: as soon as the lines of the registered
  processes need 2048 bytes or more, the read writes past the end of its buffer.
\<close>

theorem mp1_read_overruns:
  assumes "mp1_inv s" and "length buf = 2048" and "2048 \<le> length (mp1_text j2m s)"
  shows "mp1_read j2m buf s 0 = Inl OutOfBounds"
proof -
  have live: "\<And>a. a \<in> set (mp1_head s) \<Longrightarrow> mp1_heap s a \<noteq> None"
    using assms(1) by (auto simp: mp1_inv_def)
  have "mp1_read_loop j2m (mp1_heap s) (mp1_head s) buf 0 = Inl OutOfBounds"
    using mp1_sl.loop_overruns [where j2m = j2m and h = "mp1_heap s" and buf = buf
        and es = "mp1_head s", OF live] assms(2,3) by (auto simp: mp1_text_heap)
  then show ?thesis by (simp add: mp1_read_def)
qed

text \<open>A state with \<open>n\<close> registrations of the same process.\<close>

definition mp1_many :: "nat \<Rightarrow> mp1_state" where
  "mp1_many n = \<lparr>mp1_head = [0..<n],
     mp1_heap = (\<lambda>a. if a < n then Some \<lparr>cpu_time = 1337, mp1_pid = 42\<rparr> else None),
     mp1_timer = Some 0, mp1_work = False\<rparr>"

lemma mp1_text_many:
  "length (mp1_text j2m (mp1_many n)) =
     n * length (mp1_line j2m \<lparr>cpu_time = 1337, mp1_pid = 42\<rparr>)"
proof -
  have "map (mp1_line j2m) (mp1_procs (mp1_many n)) =
        map (\<lambda>_. mp1_line j2m \<lparr>cpu_time = 1337, mp1_pid = 42\<rparr>) [0..<n]"
    by (simp add: mp1_procs_def mp1_many_def mp1_entry_def)
  then show ?thesis
    by (simp add: mp1_text_def length_concat comp_def sum_list_replicate map_replicate_const
             del: map_map)
qed

theorem mp1_read_overruns_witness:
  "mp1_read (\<lambda>_. 4) (replicate 2048 NUL) (mp1_many 300) 0 = Inl OutOfBounds"
proof (rule mp1_read_overruns)
  have "length (mp1_line (\<lambda>_. 4) \<lparr>cpu_time = 1337, mp1_pid = 42\<rparr>) = 9"
    by (simp add: mp1_line_def show_ulong_def show_nat.simps)
  then show "2048 \<le> length (mp1_text (\<lambda>_. 4) (mp1_many 300))"
    by (simp add: mp1_text_many)
qed (auto simp: mp1_inv_def mp1_many_def)

text \<open>
  Unloading without a queued bottom half frees exactly the nodes that are on the list: what
  stays allocated are the nodes that an earlier bottom half took off the list. Unloading while a
  bottom half is queued and the list is not empty runs it over the freed nodes: a use after free.
\<close>

theorem mp1_exit_frees_the_list:
  assumes "mp1_inv s"
  shows "if mp1_work s \<and> mp1_head s \<noteq> [] then mp1_exit pt s = Inl UseAfterFree
         else \<exists>t. mp1_exit pt s = Inr t
                \<and> dom (mp1_heap t) = dom (mp1_heap s) - set (mp1_head s) \<and> mp1_timer t = None"
proof -
  have free: "mp1_free_loop (mp1_head s) (mp1_heap s) = Inr (mp1_heap s |` (- set (mp1_head s)))"
    using assms by (intro mp1_free_loop_spec) (auto simp: mp1_inv_def)
  have dom: "dom (mp1_heap s |` (- set (mp1_head s))) = dom (mp1_heap s) - set (mp1_head s)"
    by (simp add: Diff_eq)
  show ?thesis
  proof (cases "mp1_head s")
    case Nil
    then show ?thesis
      by (simp add: mp1_exit_def mp1_run_work_def bottom_fn_def Let_def)
  next
    case (Cons a as)
    define h where "h = mp1_heap s |` (- set (mp1_head s))"
    have a: "h a = None" by (simp add: h_def Cons)
    have "mp1_exit pt s = (let s' = s\<lparr>mp1_heap := h, mp1_timer := None\<rparr>
            in if mp1_work s' then mp1_run_work pt s' else Inr s')"
      by (simp add: mp1_exit_def free [folded h_def])
    also have "\<dots> = (if mp1_work s then Inl UseAfterFree
                 else Inr (s\<lparr>mp1_heap := h, mp1_timer := None\<rparr>))"
      using a by (simp add: Cons Let_def mp1_run_work_def bottom_fn_def)
    finally have "mp1_exit pt s = (if mp1_work s then Inl UseAfterFree
                 else Inr (s\<lparr>mp1_heap := h, mp1_timer := None\<rparr>))" .
    with Cons dom show ?thesis by (auto simp: h_def)
  qed
qed

theorem mp1_exit_frees_the_list_witness:
  "if mp1_work mp1_demo \<and> mp1_head mp1_demo \<noteq> [] then mp1_exit demo_ptab mp1_demo = Inl UseAfterFree
   else \<exists>t. mp1_exit demo_ptab mp1_demo = Inr t
          \<and> dom (mp1_heap t) = dom (mp1_heap mp1_demo) - set (mp1_head mp1_demo)
          \<and> mp1_timer t = None"
  by (rule mp1_exit_frees_the_list) (simp add: mp1_inv_def)

end
