(* ===== verification/MP1_Userapp.thy ===== *)
theory MP1_Userapp
  imports MP1_Status
begin

text \<open>
  The user program of MP1 (\<^verbatim>\<open>src/MP1/userapp.c\<close>): it writes its pid to the status file, keeps the
  processor busy, and reads the file back. Opening the file and printing are left out; the pid and
  what \<^verbatim>\<open>read\<close> delivers are arguments. The two counting loops run on 32-bit words, so that a negative
  count counts down through the whole range.
\<close>

section \<open>Operations\<close>

text \<open>\<^verbatim>\<open>fprintf(f, "%d\0", mypid)\<close>: the format ends at its NUL.\<close>

definition register_msg :: "int \<Rightarrow> string" where
  "register_msg mypid = show_int mypid"

text \<open>
  \<^verbatim>\<open>factorial\<close>, with the number of multiplications made so far; the product is dropped at the end.
\<close>

function factorial1_loop :: "u32 \<Rightarrow> u32 \<Rightarrow> nat \<Rightarrow> u32 \<times> nat" where
  "factorial1_loop n val k = (if n \<noteq> 0 then factorial1_loop (n - 1) (val * (n - 1)) (Suc k) else (val, k))"
  by pat_completeness auto
termination
  by (relation "measure (\<lambda>(n, val, k). unat n)") (auto simp: unat_minus_one unat_gt_0)

declare factorial1_loop.simps [simp del]

definition factorial1 :: "u32 \<Rightarrow> nat" where
  "factorial1 n = snd (factorial1_loop n 1 0)"

text \<open>The loop of \<^verbatim>\<open>main\<close>; the result is the number of multiplications in all rounds.\<close>

function rounds :: "u32 \<Rightarrow> u32 \<Rightarrow> nat \<Rightarrow> nat" where
  "rounds time_factorial value_factorial work =
     (if time_factorial \<noteq> 0
      then rounds (time_factorial - 1) value_factorial (work + factorial1 value_factorial) else work)"
  by pat_completeness auto
termination
  by (relation "measure (\<lambda>(n, val, k). unat n)") (auto simp: unat_minus_one unat_gt_0)

declare rounds.simps [simp del]

text \<open>
  \<^verbatim>\<open>call_kernel\<close>: \<open>buf\<close> is what \<^verbatim>\<open>malloc\<close> returned, and \<open>got\<close> the bytes delivered by \<^verbatim>\<open>read\<close>, or
  \<^term>\<open>None\<close> for its error value -1. The byte before the end of what was read is overwritten by NUL,
  also when there is none. The result is the printed string.
\<close>

definition call_kernel :: "string \<Rightarrow> string option \<Rightarrow> string result" where
  "call_kernel buf got =
     (let read_bytes = (case got of None \<Rightarrow> - 1 | Some bs \<Rightarrow> int (length bs));
          filled = (case got of None \<Rightarrow> buf | Some bs \<Rightarrow> bs @ drop (length bs) buf);
          i = read_bytes - 1
      in if 0 \<le> i \<and> i < int (length filled) then Inr (cstr (filled[nat i := NUL])) else Inl OutOfBounds)"

text \<open>
  \<^verbatim>\<open>main\<close>: the message written, the work done, and the printed string. The number of arguments is not
  tested; \<^verbatim>\<open>argv[argc]\<close> is null. \<open>read_status\<close> stands for the system call on the status file.
\<close>

definition userapp1_main ::
  "int \<Rightarrow> string list \<Rightarrow> string \<Rightarrow> (string \<Rightarrow> string option) \<Rightarrow> (string \<times> nat \<times> string) result" where
  "userapp1_main mypid args buf read_status =
     (if length args < 2 then Inl NullDeref
      else let time_factorial = word_of_int (atoi (args ! 0)); value_factorial = word_of_int (atoi (args ! 1));
               written = register_msg mypid
           in bind_r (call_kernel buf (read_status written)) (\<lambda>out.
                Inr (written, rounds time_factorial value_factorial 0, out)))"

section \<open>The loops end\<close>

lemma factorial1_loop_count: "snd (factorial1_loop n val k) = k + unat n"
proof (induction n val k rule: factorial1_loop.induct)
  case (1 n val k)
  show ?case
  proof (cases "n = 0")
    case False
    then have "unat n = Suc (unat (n - 1))" by (simp add: unat_minus_one unat_gt_0)
    then show ?thesis using 1 False by (subst factorial1_loop.simps) simp
  qed (simp add: factorial1_loop.simps)
qed

lemma factorial1_count [simp]: "factorial1 n = unat n"
  by (simp add: factorial1_def factorial1_loop_count)

lemma rounds_count: "rounds n v k = k + unat n * unat v"
proof (induction n v k rule: rounds.induct)
  case (1 n v k)
  show ?case
  proof (cases "n = 0")
    case False
    then have "unat n = Suc (unat (n - 1))" by (simp add: unat_minus_one unat_gt_0)
    then show ?thesis using 1 False by (subst rounds.simps) simp
  qed (simp add: rounds.simps)
qed

section \<open>Program and module\<close>

lemma call_kernel_text:
  assumes "NUL \<notin> set text" and "length text < length buf"
  shows "call_kernel buf (Some (text @ [NUL])) = Inr text"
proof -
  have "(text @ [NUL] @ drop (Suc (length text)) buf)[length text := NUL] = text @ NUL # drop (Suc (length text)) buf"
    by (simp add: list_update_append)
  then show ?thesis using assms by (simp add: call_kernel_def cstr_id)
qed

text \<open>
  What the module does while the program computes: other registrations, timer interrupts, and bottom halves, which
  find the program's process \<open>p\<close> in the process table.
\<close>

inductive step_during :: "int \<Rightarrow> mp1_state \<Rightarrow> mp1_state \<Rightarrow> bool" for p :: int where
  d1_write: "mp1_heap s a = None \<Longrightarrow> mp1_write a junk ubuf s = (n, t) \<Longrightarrow> step_during p s t"
| d1_timer: "mp1_timer s \<noteq> None \<Longrightarrow> step_during p s (mp1_timer_callback m2j jiffies s)"
| d1_work: "mp1_work s \<Longrightarrow> pt p \<noteq> None \<Longrightarrow> mp1_run_work pt s = Inr t \<Longrightarrow> step_during p s t"

lemma step_during_step: "step_during p s t \<Longrightarrow> mp1_step s t"
  by (induction rule: step_during.induct) (blast intro: mp1_step.intros)+

lemma refresh_keeps:
  "e \<in> set es \<Longrightarrow> pt (s32 (mp1_pid e)) \<noteq> None \<Longrightarrow> \<exists>e' \<in> set (refresh pt es). mp1_pid e' = mp1_pid e"
  by (induction es) (auto simp: get_cpu_use_def split: option.splits)

definition listed :: "int \<Rightarrow> mp1_state \<Rightarrow> bool" where
  "listed p s \<longleftrightarrow> mp1_inv s \<and> p \<in> mp1_pid ` set (mp1_procs s)"

lemma listed_step:
  assumes "step_during p s t" and "listed p s" and "c_int p"
  shows "listed p t"
proof -
  have inv: "mp1_inv t" using mp1_step_inv [OF step_during_step [OF assms(1)]] assms(2) by (simp add: listed_def)
  from assms(1) have "p \<in> mp1_pid ` set (mp1_procs t)"
  proof cases
    case (d1_write a junk ubuf n)
    have "mp1_entry t b = mp1_entry s b" if "b \<in> set (mp1_head s)" for b
      using d1_write that assms(2) by (auto simp: mp1_write_def Let_def mp1_entry_def listed_def mp1_inv_def)
    moreover have "mp1_head t = a # mp1_head s" using d1_write(2) by (auto simp: mp1_write_def Let_def)
    ultimately show ?thesis using assms(2) by (auto simp: listed_def mp1_procs_def)
  next
    case (d1_timer m2j jiffies)
    then show ?thesis using assms(2) by (simp add: listed_def mp1_procs_def mp1_entry_def mp1_timer_callback_def)
  next
    case (d1_work pt)
    have "mp1_procs t = refresh pt (mp1_procs (s\<lparr>mp1_work := False\<rparr>))"
      using mp1_procs_refresh [OF d1_work(3) [unfolded mp1_run_work_def]] assms(2) by (simp add: listed_def)
    moreover have "mp1_procs (s\<lparr>mp1_work := False\<rparr>) = mp1_procs s"
      unfolding mp1_procs_def by (intro map_cong) (simp_all add: mp1_entry_def)
    ultimately have "mp1_procs t = refresh pt (mp1_procs s)" by simp
    moreover obtain e where "e \<in> set (mp1_procs s)" "mp1_pid e = p" using assms(2) by (auto simp: listed_def)
    moreover from this have "\<exists>e' \<in> set (refresh pt (mp1_procs s)). mp1_pid e' = p"
      using refresh_keeps [of e "mp1_procs s" pt] d1_work(2) assms(3) by (simp add: s32_id)
    ultimately show ?thesis by (metis image_eqI)
  qed
  with inv show ?thesis by (simp add: listed_def)
qed

lemma listed_steps: "(step_during p)\<^sup>*\<^sup>* s t \<Longrightarrow> listed p s \<Longrightarrow> c_int p \<Longrightarrow> listed p t"
  by (induction rule: rtranclp_induct) (auto intro: listed_step)

text \<open>
  C28. The program against the module. It registers, multiplies, and reads the file back; meanwhile other processes
  may register and timers and bottom halves may run, in which the program's process is alive. If the text
  fits the buffers, what it prints is one line per process that is registered at the time of the read, and one of the
  lines is its own. If nothing has happened in between, its own line comes first, with the placeholder time. The work is as many
  multiplications as both arguments say, taken as 32-bit words; so a negative number of rounds means more than two
  thousand million rounds.
\<close>
theorem userapp1_prints_itself:
  assumes "mp1_inv s" and "mp1_heap s a = None" and "c_int p" and "2 \<le> length args"
    and "mp1_write a junk (register_msg p) s = (n, t)" and "(step_during p)\<^sup>*\<^sup>* t u"
    and "length kbuf = 2048" and "length buf = 2048" and "length (mp1_text j2m u) < 2048"
    and "\<And>w. read_status w = (case mp1_read j2m kbuf u 0 of Inl e \<Rightarrow> None | Inr (bs, _) \<Rightarrow> Some bs)"
  shows "userapp1_main p args buf read_status = Inr (show_int p,
       unat (word_of_int (atoi (args ! 0)) :: u32) * unat (word_of_int (atoi (args ! 1)) :: u32),
       concat (map (mp1_line j2m) (mp1_procs u)))
     \<and> (\<exists>e \<in> set (mp1_procs u). mp1_pid e = p)
     \<and> (u = t \<longrightarrow> mp1_procs u = \<lparr>cpu_time = 1337, mp1_pid = p\<rparr> # mp1_procs s)"
proof -
  have w: "mp1_write a junk (show_int p) s = (n, t)" using assms(5) by (simp add: register_msg_def)
  have p: "- (2 ^ 63) \<le> p" "p < 2 ^ 63" using assms(3) by (simp_all add: c_int_def)
  note t = mp1_write_registers [OF assms(1,2) p w]
  have "listed p t" using t(2,3) by (simp add: listed_def)
  then have u: "mp1_inv u" "p \<in> mp1_pid ` set (mp1_procs u)"
    using listed_steps [OF assms(6)] assms(3) by (simp_all add: listed_def)
  then have "mp1_read j2m kbuf u 0 = Inr (mp1_text j2m u @ [NUL], Suc (length (mp1_text j2m u)))"
    using assms(7,9) by (intro mp1_read_fits) (auto simp: mp1_procs_def)
  then have "call_kernel buf (read_status w) = Inr (mp1_text j2m u)" for w
    using call_kernel_text [OF mp1_text_NUL, of j2m u buf] assms(8-10) by simp
  then show ?thesis using assms(4) u(2) t(3)
    by (auto simp: userapp1_main_def register_msg_def rounds_count Let_def mp1_text_def)
qed

text \<open>A bottom half refreshes both entries before the program reads.\<close>

theorem userapp1_prints_itself_witness:
  "\<exists>f. userapp1_main 77 [''3'', ''5''] (replicate 2048 NUL) f =
     Inr (show_int 77, 15, concat (map (mp1_line (\<lambda>_. 4))
       [\<lparr>cpu_time = 9, mp1_pid = 77\<rparr>, \<lparr>cpu_time = 9, mp1_pid = 42\<rparr>]))"
proof -
  let ?pt = "\<lambda>_. Some \<lparr>utime = 9\<rparr>"
  obtain n t where w: "mp1_write 2 0 (register_msg 77) mp1_demo = (n, t)" by fastforce
  have inv: "mp1_inv mp1_demo" by (simp add: mp1_inv_def)
  have t: "mp1_procs t = \<lparr>cpu_time = 1337, mp1_pid = 77\<rparr> # mp1_procs mp1_demo" "mp1_inv t"
    using mp1_write_registers(2,3) [OF inv, of 2 77 0 n t] w by (simp_all add: register_msg_def)
  let ?t = "mp1_timer_callback (\<lambda>_. 0) 0 t"
  have inv': "mp1_inv (?t\<lparr>mp1_work := False\<rparr>)" using t(2) by (simp add: mp1_timer_callback_def mp1_inv_def)
  obtain u where run: "mp1_run_work ?pt ?t = Inr u"
    using bottom_fn_spec [OF inv'] by (auto simp: mp1_run_work_def)
  have "mp1_timer t \<noteq> None" using t(2) by (simp add: mp1_inv_def)
  then have "step_during 77 t ?t" by (rule d1_timer)
  moreover have "step_during 77 ?t u" by (rule d1_work [OF _ _ run]) (simp_all add: mp1_timer_callback_def)
  ultimately have steps: "(step_during 77)\<^sup>*\<^sup>* t u" by auto
  have "mp1_procs (?t\<lparr>mp1_work := False\<rparr>) = mp1_procs t" by (simp add: mp1_procs_def mp1_entry_def mp1_timer_callback_def)
  then have u: "mp1_procs u = [\<lparr>cpu_time = 9, mp1_pid = 77\<rparr>, \<lparr>cpu_time = 9, mp1_pid = 42\<rparr>]"
    using mp1_procs_refresh [OF run [unfolded mp1_run_work_def] inv'] t(1)
    by (simp add: mp1_procs_def [of mp1_demo] mp1_entry_def get_cpu_use_def)
  then have "length (mp1_text (\<lambda>_. 4) u) < 2048"
    using mp1_line_length [of "\<lambda>_. 4" "\<lparr>cpu_time = 9, mp1_pid = 77\<rparr>"]
      mp1_line_length [of "\<lambda>_. 4" "\<lparr>cpu_time = 9, mp1_pid = 42\<rparr>"]
    by (simp add: mp1_text_def)
  moreover have "atoi ''3'' = 3" "atoi ''5'' = 5"
    by (simp_all add: atoi_def scan_d_def skip_spaces_def Let_def isspace_def isdigit_def digit_val_def s32_id c_int_def)
  ultimately show ?thesis
    using userapp1_prints_itself [OF inv _ _ _ w steps, of "[''3'', ''5'']" "replicate 2048 NUL" "replicate 2048 NUL" "\<lambda>_. 4"
      "\<lambda>_. case mp1_read (\<lambda>_. 4) (replicate 2048 NUL) u 0 of Inl e \<Rightarrow> None | Inr (bs, _) \<Rightarrow> Some bs"] u
    by (intro exI) (auto simp: c_int_def)
qed

text \<open>
  Nothing guards the end of the buffer in \<^verbatim>\<open>call_kernel\<close>: when \<^verbatim>\<open>read\<close> delivers nothing or fails, the
  program writes in front of its buffer. Without two arguments it passes a null pointer to \<^verbatim>\<open>atoi\<close>.
\<close>
lemma userapp1_unchecked:
  "call_kernel buf (Some []) = Inl OutOfBounds \<and> call_kernel buf None = Inl OutOfBounds
   \<and> userapp1_main p [x] buf f = Inl NullDeref \<and> userapp1_main p [] buf f = Inl NullDeref"
  by (simp add: call_kernel_def userapp1_main_def)

end
