(* ===== verification/Task_Table.thy ===== *)
theory Task_Table
  imports Prelude
begin

text \<open>
  The contract of \<^verbatim>\<open>__get_task_by_pid\<close>, which MP2 and MP3 each have: it walks the kernel list of
  augmented task structs and returns the first one with the given pid, or null. The locale takes
  the walk as a parameter with its two equations and derives what the callers rely on.
\<close>

locale task_table =
  fixes get :: "(addr \<rightharpoonup> 'n) \<Rightarrow> addr list \<Rightarrow> int \<Rightarrow> addr option result"
    and pid_of :: "'n \<Rightarrow> int"
  assumes get_Nil: "get h [] p = Inr None"
    and get_Cons: "get h (a # as) p = bind_r (deref h (Some a))
          (\<lambda>e. if pid_of e = p then Inr (Some a) else get h as p)"
begin

lemma get_find:
  "set as \<subseteq> dom h \<Longrightarrow> get h as p = Inr (List.find (\<lambda>a. pid_of (the (h a)) = p) as)"
  by (induction as) (auto simp: get_Nil get_Cons)

lemma get_SomeD:
  assumes "set as \<subseteq> dom h" and "get h as p = Inr (Some a)"
  shows "a \<in> set as \<and> (\<exists>e. h a = Some e \<and> pid_of e = p)"
proof -
  have "List.find (\<lambda>a. pid_of (the (h a)) = p) as = Some a"
    using assms by (simp add: get_find)
  then have "a \<in> set as" and "pid_of (the (h a)) = p"
    by (blast dest: find_SomeD)+
  moreover from this assms(1) obtain e where "h a = Some e" by blast
  ultimately show ?thesis by simp
qed

lemma get_registered:
  assumes "set as \<subseteq> dom h" and "a \<in> set as" and "h a = Some e" and "pid_of e = p"
  shows "\<exists>b e'. get h as p = Inr (Some b) \<and> b \<in> set as \<and> h b = Some e' \<and> pid_of e' = p"
proof -
  have "List.find (\<lambda>a. pid_of (the (h a)) = p) as \<noteq> None"
    using assms(2-4) by (auto simp: find_None_set intro!: bexI [of _ a])
  then obtain b where b: "get h as p = Inr (Some b)"
    using get_find [OF assms(1)] by auto
  then show ?thesis using get_SomeD [OF assms(1)] by blast
qed

lemma get_unregistered:
  assumes "set as \<subseteq> dom h" and "\<And>a. a \<in> set as \<Longrightarrow> pid_of (the (h a)) \<noteq> p"
  shows "get h as p = Inr None"
  using assms by (simp add: get_find find_None_set)

lemma get_unique:
  assumes "set as \<subseteq> dom h" and "a \<in> set as" and "h a = Some e" and "pid_of e = p"
    and "\<And>b. b \<in> set as \<Longrightarrow> b \<noteq> a \<Longrightarrow> pid_of (the (h b)) \<noteq> p"
  shows "get h as p = Inr (Some a)"
  using get_registered [OF assms(1-4)] assms(5) by (metis option.sel)

end

end
