(* ===== verification/MP2_Scheduler.thy ===== *)
theory MP2_Scheduler
  imports Proc_Status Task_Table
begin

text \<open>
  MP2: the rate-monotonic scheduler module (\<^verbatim>\<open>src/MP2/mp2.c\<close>, \<^verbatim>\<open>src/MP2/mp2_given.h\<close>).
  Processes register with a period and a processing time, pass an admission test, and yield at
  the end of each job; a timer per task makes it ready at its next period and the dispatching
  thread gives the processor to the ready task with the shortest period.

  The kernel list \<^verbatim>\<open>head\<close> is the list of the addresses of its nodes, front first; the nodes are
  objects of the slab cache. What the kernel supplies is collected in \<open>mp2_env\<close>: the process
  table, the address and the contents of the next slab object, an uninitialised stack word, the
  clock and the conversion from milliseconds to jiffies.
\<close>

section \<open>State\<close>

abbreviation (input) SLEEPING :: int where "SLEEPING \<equiv> 0"
abbreviation (input) READY :: int where "READY \<equiv> 1"
abbreviation (input) RUNNING :: int where "RUNNING \<equiv> 2"

datatype policy = SCHED_NORMAL | SCHED_FIFO

datatype linux_state = TASK_RUNNING | TASK_INTERRUPTIBLE

text \<open>
  The augmented task struct. \<^verbatim>\<open>task\<close> is a pointer to the kernel's task, null for an unknown pid;
  of the timer, the expiry time (if it is pending) and the argument of the callback.
\<close>

record mp_task_struct =
  task :: "nat option"
  task_timer :: "u64 option"
  timer_pid :: int
  task_state :: int
  next_period :: u64
  pid :: int
  period :: int
  processing_time :: int

record mp2_state =
  mp2_head :: "addr list"
  task_cache :: "addr \<rightharpoonup> mp_task_struct"
  running_mptask :: "addr option"
  dispatcher_awake :: bool
  sched_class :: "nat \<Rightarrow> policy \<times> int"
  linux_state_of :: "nat \<Rightarrow> linux_state"

record mp2_env =
  find_task_by_pid :: "int \<rightharpoonup> nat"
  slab_addr :: addr
  slab_junk :: mp_task_struct
  stack_junk :: int
  jiffies_1 :: u64
  jiffies_2 :: u64
  msecs_to_jiffies :: "u32 \<Rightarrow> u64"

section \<open>Operations\<close>

fun get_task_by_pid ::
  "(addr \<rightharpoonup> mp_task_struct) \<Rightarrow> addr list \<Rightarrow> int \<Rightarrow> addr option result" where
  "get_task_by_pid h [] p = Inr None"
| "get_task_by_pid h (a # as) p =
     bind_r (deref h (Some a)) (\<lambda>tmp. if pid tmp = p then Inr (Some a) else get_task_by_pid h as p)"

text \<open>The format \<^verbatim>\<open>"%d[%d]: %d ms, %d ms\n"\<close>.\<close>

definition mp2_line :: "mp_task_struct \<Rightarrow> string" where
  "mp2_line e = show_int (pid e) @ ''['' @ show_int (task_state e) @ '']: ''
     @ show_int (period e) @ '' ms, '' @ show_int (processing_time e) @ '' ms'' @ [newline]"

fun mp2_read_loop ::
  "(addr \<rightharpoonup> mp_task_struct) \<Rightarrow> addr list \<Rightarrow> string \<Rightarrow> nat \<Rightarrow> string result" where
  "mp2_read_loop h [] buf offset = Inr buf"
| "mp2_read_loop h (a # as) buf offset =
     bind_r (deref h (Some a)) (\<lambda>entry.
     bind_r (sprintf_into 256 (mp2_line entry)) (\<lambda>temp.
     bind_r (strcpy_at buf offset temp) (\<lambda>buf'.
     bind_r (strlen buf') (\<lambda>offset'. mp2_read_loop h as buf' offset'))))"

definition mp2_read :: "string \<Rightarrow> mp2_state \<Rightarrow> nat \<Rightarrow> (string \<times> nat) result" where
  "mp2_read buf s pos =
     (if 0 < pos then Inr ([], pos)
      else bind_r (mp2_read_loop (task_cache s) (mp2_head s) buf 0) (\<lambda>buf'.
           bind_r (strlen buf') (\<lambda>n. Inr (take (Suc n) buf', pos + Suc n))))"

text \<open>
  The utilisation of a task in millionths: an \<^verbatim>\<open>int\<close> product and an \<^verbatim>\<open>int\<close> quotient, added to an
  \<^verbatim>\<open>unsigned long\<close>.
\<close>

definition task_util :: "mp_task_struct \<Rightarrow> u64 result" where
  "task_util t = bind_r (c_div (s32 (processing_time t * 1000000)) (period t))
                   (\<lambda>q. Inr (word_of_int q))"

fun util_loop :: "(addr \<rightharpoonup> mp_task_struct) \<Rightarrow> addr list \<Rightarrow> u64 \<Rightarrow> u64 result" where
  "util_loop h [] total_util = Inr total_util"
| "util_loop h (a # as) total_util =
     bind_r (deref h (Some a)) (\<lambda>entry.
     bind_r (task_util entry) (\<lambda>u. util_loop h as (total_util + u)))"

definition admission_control ::
  "(addr \<rightharpoonup> mp_task_struct) \<Rightarrow> addr list \<Rightarrow> mp_task_struct \<Rightarrow> int result" where
  "admission_control h as new_task =
     bind_r (task_util new_task) (\<lambda>u.
     bind_r (util_loop h as u) (\<lambda>total_util. Inr (if total_util \<le> 693000 then 1 else 0)))"

text \<open>
  Registration reads three numbers from the fourth byte of the message on; a field \<^verbatim>\<open>sscanf\<close> does
  not reach keeps what the slab object held.
\<close>

fun store_fields :: "int list \<Rightarrow> mp_task_struct \<Rightarrow> mp_task_struct" where
  "store_fields [] t = t"
| "store_fields [p] t = t\<lparr>pid := p\<rparr>"
| "store_fields [p, q] t = t\<lparr>pid := p, period := q\<rparr>"
| "store_fields (p # q # r # _) t = t\<lparr>pid := p, period := q, processing_time := r\<rparr>"

definition reg_format :: "directive list" where
  "reg_format = [Conv_d, Lit (CHR '',''), Space, Conv_d, Lit (CHR '',''), Space, Conv_d, Space]"

definition new_mp_task :: "mp2_env \<Rightarrow> string \<Rightarrow> mp_task_struct" where
  "new_mp_task e str =
     (let t = store_fields (sscanf reg_format str) (slab_junk e)
      in t\<lparr>task_state := SLEEPING, next_period := 0, task := find_task_by_pid e (pid t),
           task_timer := None, timer_pid := pid t\<rparr>)"

text \<open>
  Registration has two critical sections with the lock released in between. The first part allocates
  and fills the object and runs the admission test, which takes the lock for its sum; a refused object
  is freed again. The second part links the object. The whole call is their composition.
\<close>

definition reg_check :: "mp2_env \<Rightarrow> string \<Rightarrow> mp2_state \<Rightarrow> (addr option \<times> mp2_state) result" where
  "reg_check e buf s =
     bind_r (cstr_at buf 3) (\<lambda>str.
       let a = slab_addr e; new_task = new_mp_task e str;
           h = (task_cache s)(a \<mapsto> new_task)
       in bind_r (admission_control h (mp2_head s) new_task) (\<lambda>ok.
            if ok = 0 then bind_r (kfree h a) (\<lambda>h'. Inr (None, s\<lparr>task_cache := h'\<rparr>))
            else Inr (Some a, s\<lparr>task_cache := h\<rparr>)))"

definition reg_add :: "addr \<Rightarrow> mp2_state \<Rightarrow> mp2_state" where
  "reg_add a s = s\<lparr>mp2_head := a # mp2_head s\<rparr>"

definition registration :: "mp2_env \<Rightarrow> string \<Rightarrow> mp2_state \<Rightarrow> mp2_state result" where
  "registration e buf s =
     bind_r (reg_check e buf s) (\<lambda>(r, s'). Inr (case r of None \<Rightarrow> s' | Some a \<Rightarrow> reg_add a s'))"

lemma registration_unfold:
  "registration e buf s =
     bind_r (cstr_at buf 3) (\<lambda>str.
       let a = slab_addr e; new_task = new_mp_task e str;
           h = (task_cache s)(a \<mapsto> new_task)
       in bind_r (admission_control h (mp2_head s) new_task) (\<lambda>ok.
            if ok = 0 then bind_r (kfree h a) (\<lambda>h'. Inr (s\<lparr>task_cache := h'\<rparr>))
            else Inr (s\<lparr>task_cache := h, mp2_head := a # mp2_head s\<rparr>)))"
  by (auto simp: registration_def reg_check_def reg_add_def bind_r_def Let_def split: sum.splits)

definition scan_pid :: "mp2_env \<Rightarrow> string \<Rightarrow> int" where
  "scan_pid e str = (case sscanf [Conv_d, Space] str of [] \<Rightarrow> stack_junk e | p # _ \<Rightarrow> p)"

text \<open>
  De-registration writes through the pointer it looked up before it is checked, deletes the timer
  (it is part of the freed object) and forgets the task if it was the running one.
\<close>

definition de_registration :: "mp2_env \<Rightarrow> string \<Rightarrow> mp2_state \<Rightarrow> mp2_state result" where
  "de_registration e buf s =
     bind_r (cstr_at buf 3) (\<lambda>str.
     bind_r (get_task_by_pid (task_cache s) (mp2_head s) (scan_pid e str)) (\<lambda>task_to_remove.
     bind_r (deref (task_cache s) task_to_remove) (\<lambda>_.
       let a = the task_to_remove in
       bind_r (kfree (task_cache s) a) (\<lambda>h.
         let s' = s\<lparr>mp2_head := remove1 a (mp2_head s), task_cache := h\<rparr>
         in Inr (if running_mptask s = task_to_remove
                 then s'\<lparr>running_mptask := None, dispatcher_awake := True\<rparr> else s')))))"

definition mp2_timer_callback :: "int \<Rightarrow> mp2_state \<Rightarrow> mp2_state result" where
  "mp2_timer_callback p s =
     bind_r (get_task_by_pid (task_cache s) (mp2_head s) p) (\<lambda>task_to_wake.
     bind_r (deref (task_cache s) task_to_wake) (\<lambda>t.
       Inr (s\<lparr>task_cache := (task_cache s)(the task_to_wake \<mapsto> t\<lparr>task_state := READY\<rparr>),
              dispatcher_awake := True\<rparr>)))"

text \<open>\<^verbatim>\<open>sched_setscheduler\<close> through the \<^verbatim>\<open>task\<close> pointer, which may be null.\<close>

definition set_priority :: "mp_task_struct \<Rightarrow> policy \<Rightarrow> int \<Rightarrow> mp2_state \<Rightarrow> mp2_state result" where
  "set_priority mytask pol prio s =
     (case task mytask of
        None \<Rightarrow> Inl NullDeref
      | Some r \<Rightarrow> Inr (s\<lparr>sched_class := (sched_class s)(r := (pol, prio))\<rparr>))"

definition wake_up_process :: "mp_task_struct \<Rightarrow> mp2_state \<Rightarrow> mp2_state result" where
  "wake_up_process t s =
     (case task t of
        None \<Rightarrow> Inl NullDeref
      | Some r \<Rightarrow> Inr (s\<lparr>linux_state_of := (linux_state_of s)(r := TASK_RUNNING)\<rparr>))"

text \<open>The dispatcher's search for the ready task with the smallest period.\<close>

fun select_task ::
  "(addr \<rightharpoonup> mp_task_struct) \<Rightarrow> addr list \<Rightarrow> addr option \<Rightarrow> int \<Rightarrow> addr option result" where
  "select_task h [] task_to_run min_period = Inr task_to_run"
| "select_task h (a # as) task_to_run min_period =
     bind_r (deref h (Some a)) (\<lambda>entry.
       if task_state entry = READY \<and> period entry < min_period
       then select_task h as (Some a) (period entry)
       else select_task h as task_to_run min_period)"

definition set_task_state :: "addr \<Rightarrow> int \<Rightarrow> mp2_state \<Rightarrow> mp2_state result" where
  "set_task_state a st s = bind_r (deref (task_cache s) (Some a)) (\<lambda>t.
     Inr (s\<lparr>task_cache := (task_cache s)(a \<mapsto> t\<lparr>task_state := st\<rparr>)\<rparr>))"

text \<open>The two branches after the search, and one round of the thread's loop.\<close>

definition preempt_running :: "mp_task_struct \<Rightarrow> mp2_state \<Rightarrow> mp2_state result" where
  "preempt_running to_run s =
     (case running_mptask s of
        None \<Rightarrow> Inr s
      | Some r \<Rightarrow> bind_r (deref (task_cache s) (Some r)) (\<lambda>cur.
          if period to_run < period cur
          then bind_r (set_task_state r READY s) (set_priority cur SCHED_NORMAL 0)
          else Inr s))"

definition run_task :: "addr \<Rightarrow> mp2_state \<Rightarrow> mp2_state result" where
  "run_task a s =
     bind_r (set_task_state a RUNNING s) (\<lambda>s1.
     bind_r (deref (task_cache s1) (Some a)) (\<lambda>t.
     bind_r (wake_up_process t s1) (\<lambda>s2.
     bind_r (set_priority t SCHED_FIFO 99 s2) (\<lambda>s3.
       Inr (s3\<lparr>running_mptask := Some a\<rparr>)))))"

definition thread_fn :: "mp2_state \<Rightarrow> mp2_state result" where
  "thread_fn s0 =
     (let s = s0\<lparr>dispatcher_awake := False\<rparr> in
      bind_r (select_task (task_cache s) (mp2_head s) None INT_MAX) (\<lambda>task_to_run.
        case task_to_run of
          None \<Rightarrow>
            (case running_mptask s of
               None \<Rightarrow> Inr s
             | Some r \<Rightarrow> bind_r (deref (task_cache s) (Some r))
                          (\<lambda>cur. set_priority cur SCHED_NORMAL 0 s))
        | Some a \<Rightarrow>
            bind_r (deref (task_cache s) (Some a)) (\<lambda>to_run.
            bind_r (preempt_running to_run s) (run_task a))))"

text \<open>
  Yield: the first call starts the periods, later ones advance by one period; a task whose next
  period has begun keeps running. \<^verbatim>\<open>jiffies\<close> is read once for the sum and once for the test.
\<close>

definition next_release :: "mp2_env \<Rightarrow> mp_task_struct \<Rightarrow> u64" where
  "next_release e t = next_period t +
     (if next_period t = 0 then jiffies_1 e + msecs_to_jiffies e (word_of_int (period t))
      else msecs_to_jiffies e (word_of_int (period t)))"

text \<open>
  Nothing in the yield handler is done under the lock. Its parts are the walk along the list, the update of
  \<^verbatim>\<open>next_period\<close> up to \<^verbatim>\<open>mod_timer\<close>, and the state that is set after the timer is armed; timers, the dispatcher and other
  writers can run in between. The whole call is their composition.
\<close>

definition yield_arm :: "mp2_env \<Rightarrow> addr option \<Rightarrow> mp2_state \<Rightarrow> (bool \<times> mp2_state) result" where
  "yield_arm e task_to_yield s =
     bind_r (deref (task_cache s) task_to_yield) (\<lambda>t.
       let a = the task_to_yield; np = next_release e t; t1 = t\<lparr>next_period := np\<rparr> in
       if np < jiffies_2 e then Inr (False, s\<lparr>task_cache := (task_cache s)(a \<mapsto> t1)\<rparr>)
       else Inr (True, s\<lparr>task_cache := (task_cache s)(a \<mapsto> t1\<lparr>task_timer := Some np\<rparr>)\<rparr>))"

definition yield_sleep :: "addr option \<Rightarrow> mp2_state \<Rightarrow> mp2_state result" where
  "yield_sleep task_to_yield s =
     bind_r (deref (task_cache s) task_to_yield) (\<lambda>t.
       let s' = s\<lparr>task_cache := (task_cache s)(the task_to_yield \<mapsto> t\<lparr>task_state := SLEEPING\<rparr>), dispatcher_awake := True\<rparr>
       in case task t of
            None \<Rightarrow> Inl NullDeref
          | Some r \<Rightarrow> Inr (s'\<lparr>linux_state_of := (linux_state_of s')(r := TASK_INTERRUPTIBLE)\<rparr>))"

definition yield_handle :: "mp2_env \<Rightarrow> string \<Rightarrow> mp2_state \<Rightarrow> mp2_state result" where
  "yield_handle e buf s =
     bind_r (cstr_at buf 3) (\<lambda>str.
     bind_r (get_task_by_pid (task_cache s) (mp2_head s) (scan_pid e str)) (\<lambda>task_to_yield.
     bind_r (yield_arm e task_to_yield s) (\<lambda>(armed, s').
       if armed then yield_sleep task_to_yield s' else Inr s')))"

lemma yield_handle_unfold:
  "yield_handle e buf s =
     bind_r (cstr_at buf 3) (\<lambda>str.
     bind_r (get_task_by_pid (task_cache s) (mp2_head s) (scan_pid e str)) (\<lambda>task_to_yield.
     bind_r (deref (task_cache s) task_to_yield) (\<lambda>t.
       let a = the task_to_yield; np = next_release e t; t1 = t\<lparr>next_period := np\<rparr> in
       if np < jiffies_2 e then Inr (s\<lparr>task_cache := (task_cache s)(a \<mapsto> t1)\<rparr>)
       else
         let t2 = t1\<lparr>task_timer := Some np, task_state := SLEEPING\<rparr>;
             s' = s\<lparr>task_cache := (task_cache s)(a \<mapsto> t2), dispatcher_awake := True\<rparr>
         in case task t of
              None \<Rightarrow> Inl NullDeref
            | Some r \<Rightarrow> Inr (s'\<lparr>linux_state_of := (linux_state_of s')(r := TASK_INTERRUPTIBLE)\<rparr>))))"
  by (auto simp: yield_handle_def yield_arm_def yield_sleep_def bind_r_def deref_def Let_def
      split: sum.splits option.splits)

definition mp2_write :: "mp2_env \<Rightarrow> string \<Rightarrow> mp2_state \<Rightarrow> (nat \<times> mp2_state) result" where
  "mp2_write e ubuf s =
     (let buf = ubuf @ [NUL] in
      bind_r (if hd buf = CHR ''R'' then registration e buf s
              else if hd buf = CHR ''Y'' then yield_handle e buf s
              else if hd buf = CHR ''D'' then de_registration e buf s
              else Inr s) (\<lambda>s'. Inr (length ubuf, s')))"

definition mp2_init :: "(nat \<Rightarrow> policy \<times> int) \<Rightarrow> (nat \<Rightarrow> linux_state) \<Rightarrow> mp2_state" where
  "mp2_init classes states =
     \<lparr>mp2_head = [], task_cache = Map.empty, running_mptask = None, dispatcher_awake = False,
      sched_class = classes, linux_state_of = states\<rparr>"

text \<open>Unloading, after the dispatcher has stopped: every node is unlinked and freed.\<close>

fun mp2_exit_loop :: "addr list \<Rightarrow> mp2_state \<Rightarrow> mp2_state result" where
  "mp2_exit_loop [] s = Inr s"
| "mp2_exit_loop (a # as) s =
     bind_r (deref (task_cache s) (Some a)) (\<lambda>_.
     bind_r (kfree (task_cache s) a) (\<lambda>h.
       mp2_exit_loop as (s\<lparr>mp2_head := remove1 a (mp2_head s), task_cache := h\<rparr>)))"

definition mp2_exit :: "mp2_state \<Rightarrow> mp2_state result" where
  "mp2_exit s = mp2_exit_loop (mp2_head s) (s\<lparr>dispatcher_awake := False\<rparr>)"

section \<open>The module as a transition system\<close>

text \<open>
  Operations that do not overlap: a step is a whole write to the status file, the expiry of a pending timer
  with its callback (the kernel takes the timer off before it calls back), or a round of the woken
  dispatcher. The interleavings of the critical sections and of the unlocked parts are in \<open>MP2_Threads\<close>.
\<close>

definition fire_timer :: "addr \<Rightarrow> mp2_state \<Rightarrow> mp2_state result" where
  "fire_timer a s = bind_r (deref (task_cache s) (Some a)) (\<lambda>t.
     mp2_timer_callback (timer_pid t)
       (s\<lparr>task_cache := (task_cache s)(a \<mapsto> t\<lparr>task_timer := None\<rparr>)\<rparr>))"

text \<open>
  What the kernel's allocator guarantees: a slab object that is not in use, whose fields, whatever
  they hold, are 32-bit numbers.
\<close>

definition env_ok :: "mp2_env \<Rightarrow> mp2_state \<Rightarrow> bool" where
  "env_ok e s \<longleftrightarrow> task_cache s (slab_addr e) = None
     \<and> c_int (pid (slab_junk e)) \<and> c_int (period (slab_junk e)) \<and> c_int (processing_time (slab_junk e))"

inductive mp2_step :: "mp2_state \<Rightarrow> mp2_state \<Rightarrow> bool" where
  m2_write: "env_ok e s \<Longrightarrow> mp2_write e ubuf s = Inr (n, t) \<Longrightarrow> mp2_step s t"
| m2_timer: "task_cache s a = Some x \<Longrightarrow> task_timer x \<noteq> None \<Longrightarrow> fire_timer a s = Inr t \<Longrightarrow>
     mp2_step s t"
| m2_dispatch: "dispatcher_awake s \<Longrightarrow> thread_fn s = Inr t \<Longrightarrow> mp2_step s t"

inductive_cases mp2_stepE: "mp2_step s t"

text \<open>
  The invariant: the list has no node twice and links exactly the live objects but those in \<open>A\<close>, which
  registrations have allocated and not linked yet; the running task is a listed one, every timer
  carries its own task's pid, the numbers are C ints, and the states are the three defined.
\<close>

definition c_ints :: "mp_task_struct \<Rightarrow> bool" where
  "c_ints t \<longleftrightarrow> c_int (pid t) \<and> c_int (period t) \<and> c_int (processing_time t)"

definition task_ok :: "mp_task_struct \<Rightarrow> bool" where
  "task_ok t \<longleftrightarrow> timer_pid t = pid t \<and> task_state t \<in> {SLEEPING, READY, RUNNING} \<and> c_ints t"

definition mp2_inv_on :: "addr set \<Rightarrow> mp2_state \<Rightarrow> bool" where
  "mp2_inv_on A s \<longleftrightarrow> distinct (mp2_head s) \<and> set (mp2_head s) \<union> A = dom (task_cache s) \<and> set (mp2_head s) \<inter> A = {}
     \<and> (\<forall>a. running_mptask s = Some a \<longrightarrow> a \<in> set (mp2_head s))
     \<and> (\<forall>a t. task_cache s a = Some t \<longrightarrow> task_ok t)"

abbreviation mp2_inv :: "mp2_state \<Rightarrow> bool" where
  "mp2_inv \<equiv> mp2_inv_on {}"

lemma mp2_inv_def:
  "mp2_inv s \<longleftrightarrow> distinct (mp2_head s) \<and> set (mp2_head s) = dom (task_cache s)
     \<and> (\<forall>a. running_mptask s = Some a \<longrightarrow> a \<in> set (mp2_head s))
     \<and> (\<forall>a t. task_cache s a = Some t \<longrightarrow> task_ok t)"
  by (simp add: mp2_inv_on_def)

interpretation mp2_tab: task_table get_task_by_pid pid
  by unfold_locales simp_all

section \<open>The invariant is kept\<close>

lemma mp2_inv_frame [simp]:
  "mp2_inv_on A (s\<lparr>dispatcher_awake := w\<rparr>) = mp2_inv_on A s"
  "mp2_inv_on A (s\<lparr>sched_class := c\<rparr>) = mp2_inv_on A s"
  "mp2_inv_on A (s\<lparr>linux_state_of := l\<rparr>) = mp2_inv_on A s"
  by (simp_all add: mp2_inv_on_def)

lemma mp2_inv_live: "mp2_inv_on A s \<Longrightarrow> set (mp2_head s) \<subseteq> dom (task_cache s)"
  by (auto simp: mp2_inv_on_def)

lemma mp2_inv_update [inv_intros]:
  assumes "mp2_inv_on A s" and "task_cache s a = Some t" and "task_ok t'"
  shows "mp2_inv_on A (s\<lparr>task_cache := (task_cache s)(a \<mapsto> t')\<rparr>)"
  using assms by (auto simp: mp2_inv_on_def)

lemma mp2_inv_running [inv_intros]:
  "mp2_inv_on A s \<Longrightarrow> a \<in> set (mp2_head s) \<Longrightarrow> mp2_inv_on A (s\<lparr>running_mptask := Some a\<rparr>)"
  by (auto simp: mp2_inv_on_def)

lemma mp2_inv_task_ok: "mp2_inv_on A s \<Longrightarrow> task_cache s a = Some t \<Longrightarrow> task_ok t"
  by (auto simp: mp2_inv_on_def)

lemma store_fields_c_ints:
  "c_ints t \<Longrightarrow> (\<And>i. i \<in> set vs \<Longrightarrow> c_int i) \<Longrightarrow> c_ints (store_fields vs t)"
  by (induction vs t rule: store_fields.induct) (auto simp: c_ints_def)

lemma new_mp_task_ok: "env_ok e s \<Longrightarrow> task_ok (new_mp_task e str)"
proof -
  assume "env_ok e s"
  then have "c_ints (store_fields (sscanf reg_format str) (slab_junk e))"
    by (intro store_fields_c_ints) (auto simp: env_ok_def c_ints_def sscanf_c_int)
  then show ?thesis by (simp add: new_mp_task_def task_ok_def c_ints_def Let_def)
qed

lemma reg_check_cases:
  assumes "reg_check e buf s = Inr (r, t)" and "env_ok e s"
  obtains (refused) "r = None" and "t = s"
    | (accepted) str where "r = Some (slab_addr e)" and "cstr_at buf 3 = Inr str"
        and "t = s\<lparr>task_cache := (task_cache s)(slab_addr e \<mapsto> new_mp_task e str)\<rparr>"
proof -
  have "(task_cache s)(slab_addr e := None) = task_cache s"
    using assms(2) by (simp add: fun_upd_idem env_ok_def)
  then show thesis
    using assms(1) that by (auto simp: reg_check_def Let_def bind_r_Inr_iff split: if_splits)
qed

lemma reg_check_inv:
  assumes "reg_check e buf s = Inr (r, t)" and "env_ok e s" and "mp2_inv_on A s"
  shows "mp2_inv_on (A \<union> set_option r) t"
  using assms(1,2)
proof (cases rule: reg_check_cases)
  case (accepted str)
  then show ?thesis
    using assms(2,3) new_mp_task_ok [OF assms(2), of str] by (auto simp: mp2_inv_on_def env_ok_def)
qed (use assms(3) in simp)

lemma reg_add_inv: "mp2_inv_on A s \<Longrightarrow> a \<in> A \<Longrightarrow> mp2_inv_on (A - {a}) (reg_add a s)"
  by (auto simp: mp2_inv_on_def reg_add_def)

lemma registration_inv:
  assumes "registration e buf s = Inr t" and "env_ok e s" and "mp2_inv s"
  shows "mp2_inv t"
proof -
  obtain r u where u: "reg_check e buf s = Inr (r, u)" and t: "t = (case r of None \<Rightarrow> u | Some a \<Rightarrow> reg_add a u)"
    using assms(1) by (auto simp: registration_def bind_r_Inr_iff)
  show ?thesis
    using reg_check_inv [OF u assms(2,3)] reg_add_inv [of "set_option r" u] t by (cases r) auto
qed

lemma de_registration_cases:
  assumes "de_registration e buf s = Inr t" and "set (mp2_head s) \<subseteq> dom (task_cache s)"
  obtains a x where "a \<in> set (mp2_head s)" and "task_cache s a = Some x"
      and "t = (let s' = s\<lparr>mp2_head := remove1 a (mp2_head s), task_cache := (task_cache s)(a := None)\<rparr>
                in if running_mptask s = Some a
                   then s'\<lparr>running_mptask := None, dispatcher_awake := True\<rparr> else s')"
proof -
  obtain str tr x where "cstr_at buf 3 = Inr str"
      and get: "get_task_by_pid (task_cache s) (mp2_head s) (scan_pid e str) = Inr tr"
      and x: "deref (task_cache s) tr = Inr x"
    using assms(1) by (auto simp: de_registration_def bind_r_Inr_iff)
  moreover from x obtain a where a: "tr = Some a" "task_cache s a = Some x" by (auto simp: deref_Inr_iff)
  moreover have "a \<in> set (mp2_head s)" using mp2_tab.get_SomeD [OF assms(2)] get a(1) by blast
  ultimately show thesis using assms(1) that by (auto simp: de_registration_def Let_def)
qed

lemma de_registration_inv:
  assumes "de_registration e buf s = Inr t" and "mp2_inv_on A s"
  shows "mp2_inv_on A t"
  using assms(1) mp2_inv_live [OF assms(2)]
proof (cases rule: de_registration_cases)
  case (1 a x)
  then show ?thesis using assms(2) by (auto simp: mp2_inv_on_def Let_def)
qed

text \<open>What a yield that does not fault does: postpone the task, or only move its next period.\<close>

definition slept :: "mp2_env \<Rightarrow> mp_task_struct \<Rightarrow> mp_task_struct" where
  "slept e t = t\<lparr>next_period := next_release e t, task_timer := Some (next_release e t),
                 task_state := SLEEPING\<rparr>"

lemma yield_handle_cases:
  assumes "yield_handle e buf s = Inr t"
  obtains (skip) a x where "task_cache s a = Some x" and "next_release e x < jiffies_2 e"
      and "t = s\<lparr>task_cache := (task_cache s)(a \<mapsto> x\<lparr>next_period := next_release e x\<rparr>)\<rparr>"
    | (sleep) a x r where "task_cache s a = Some x" and "\<not> next_release e x < jiffies_2 e"
      and "task x = Some r"
      and "t = s\<lparr>task_cache := (task_cache s)(a \<mapsto> slept e x), dispatcher_awake := True,
               linux_state_of := (linux_state_of s)(r := TASK_INTERRUPTIBLE)\<rparr>"
proof -
  from assms obtain str tr x where "cstr_at buf 3 = Inr str"
      and get: "get_task_by_pid (task_cache s) (mp2_head s) (scan_pid e str) = Inr tr"
      and x: "deref (task_cache s) tr = Inr x"
    by (auto simp: yield_handle_unfold bind_r_Inr_iff)
  moreover from x obtain a where tr: "tr = Some a" and a: "task_cache s a = Some x"
    by (auto simp: deref_Inr_iff)
  ultimately have y: "yield_handle e buf s =
      (if next_release e x < jiffies_2 e
       then Inr (s\<lparr>task_cache := (task_cache s)(a \<mapsto> x\<lparr>next_period := next_release e x\<rparr>)\<rparr>)
       else case task x of None \<Rightarrow> Inl NullDeref
         | Some r \<Rightarrow> Inr (s\<lparr>task_cache := (task_cache s)(a \<mapsto> slept e x), dispatcher_awake := True,
                          linux_state_of := (linux_state_of s)(r := TASK_INTERRUPTIBLE)\<rparr>))"
    by (cases "task x") (simp_all add: yield_handle_unfold Let_def slept_def)
  show thesis
  proof (cases "next_release e x < jiffies_2 e")
    case True
    with assms y have "t = s\<lparr>task_cache := (task_cache s)(a \<mapsto> x\<lparr>next_period := next_release e x\<rparr>)\<rparr>"
      by simp
    with a True show thesis by (rule skip)
  next
    case False
    with assms y obtain r where r: "task x = Some r" by (cases "task x") auto
    have "t = s\<lparr>task_cache := (task_cache s)(a \<mapsto> slept e x), dispatcher_awake := True,
               linux_state_of := (linux_state_of s)(r := TASK_INTERRUPTIBLE)\<rparr>"
      using assms y False r by simp
    with a False r show thesis by (rule sleep)
  qed
qed

lemma yield_handle_inv:
  assumes "yield_handle e buf s = Inr t" and "mp2_inv s"
  shows "mp2_inv t"
  using assms(1)
proof (cases rule: yield_handle_cases)
  case (skip a x)
  then show ?thesis
    using mp2_inv_task_ok [OF assms(2)] assms(2) by (auto simp: task_ok_def c_ints_def intro!: mp2_inv_update)
next
  case (sleep a x r)
  then have "mp2_inv (s\<lparr>task_cache := (task_cache s)(a \<mapsto> slept e x)\<rparr>)"
    using mp2_inv_task_ok [OF assms(2)] assms(2)
    by (intro mp2_inv_update) (auto simp: slept_def task_ok_def c_ints_def)
  then show ?thesis by (simp add: sleep(4))
qed

text \<open>The timer callback finds its task in every state with the invariant.\<close>

lemma mp2_timer_callback_finds:
  assumes "mp2_inv_on A s" and "a \<in> set (mp2_head s)" and "task_cache s a = Some x"
  shows "\<exists>b y. task_cache s b = Some y \<and> pid y = pid x \<and> mp2_timer_callback (pid x) s =
     Inr (s\<lparr>task_cache := (task_cache s)(b \<mapsto> y\<lparr>task_state := READY\<rparr>), dispatcher_awake := True\<rparr>)"
proof -
  obtain b y where "get_task_by_pid (task_cache s) (mp2_head s) (pid x) = Inr (Some b)"
      "task_cache s b = Some y" "pid y = pid x"
    using mp2_tab.get_registered [OF mp2_inv_live [OF assms(1)] assms(2,3)] by blast
  then show ?thesis
    by (intro exI [of _ b] exI [of _ y]) (simp add: mp2_timer_callback_def)
qed

lemma mp2_timer_callback_inv:
  assumes "mp2_timer_callback p s = Inr t" and "mp2_inv_on A s"
  shows "mp2_inv_on A t"
proof -
  obtain a x where a: "task_cache s a = Some x"
      and t: "t = s\<lparr>task_cache := (task_cache s)(a \<mapsto> x\<lparr>task_state := READY\<rparr>), dispatcher_awake := True\<rparr>"
    using assms(1) by (auto simp: mp2_timer_callback_def bind_r_Inr_iff deref_Inr_iff)
  have "mp2_inv_on A (s\<lparr>task_cache := (task_cache s)(a \<mapsto> x\<lparr>task_state := READY\<rparr>)\<rparr>)"
    using mp2_inv_task_ok [OF assms(2) a] by (intro mp2_inv_update [OF assms(2) a]) (simp add: task_ok_def c_ints_def)
  then show ?thesis by (simp add: t)
qed

lemma fire_timer_runs:
  assumes "mp2_inv s" and "task_cache s a = Some x"
  shows "\<exists>t. fire_timer a s = Inr t \<and> mp2_inv t"
proof -
  let ?x = "x\<lparr>task_timer := None\<rparr>" and ?s = "s\<lparr>task_cache := (task_cache s)(a \<mapsto> x\<lparr>task_timer := None\<rparr>)\<rparr>"
  have ok: "task_ok x" using assms by (rule mp2_inv_task_ok)
  have inv: "mp2_inv ?s"
    using ok by (intro mp2_inv_update [OF assms]) (simp add: task_ok_def c_ints_def)
  have "a \<in> set (mp2_head ?s)" using assms by (auto simp: mp2_inv_def)
  then obtain t where "mp2_timer_callback (pid ?x) ?s = Inr t"
    using mp2_timer_callback_finds [OF inv, of a ?x] by auto
  then show ?thesis
    using mp2_timer_callback_inv [OF _ inv] ok assms(2) by (auto simp: fire_timer_def task_ok_def)
qed

section \<open>The dispatcher\<close>

abbreviation ready_at :: "(addr \<rightharpoonup> mp_task_struct) \<Rightarrow> addr \<Rightarrow> bool" where
  "ready_at h a \<equiv> task_state (the (h a)) = READY"

abbreviation period_at :: "(addr \<rightharpoonup> mp_task_struct) \<Rightarrow> addr \<Rightarrow> int" where
  "period_at h a \<equiv> period (the (h a))"

text \<open>The rate-monotonic choice: the first of the ready tasks with the shortest period.\<close>

definition rm_choice :: "(addr \<rightharpoonup> mp_task_struct) \<Rightarrow> addr list \<Rightarrow> addr \<Rightarrow> bool" where
  "rm_choice h as a \<longleftrightarrow> (\<exists>xs ys. as = xs @ a # ys \<and> ready_at h a
     \<and> (\<forall>b \<in> set xs. ready_at h b \<longrightarrow> period_at h a < period_at h b)
     \<and> (\<forall>b \<in> set ys. ready_at h b \<longrightarrow> period_at h a \<le> period_at h b))"

lemma rm_choice_cons:
  assumes "rm_choice h as a" and "ready_at h x \<longrightarrow> period_at h a < period_at h x"
  shows "rm_choice h (x # as) a"
proof -
  from assms(1) obtain xs ys where "as = xs @ a # ys" "ready_at h a"
      "\<forall>b \<in> set xs. ready_at h b \<longrightarrow> period_at h a < period_at h b"
      "\<forall>b \<in> set ys. ready_at h b \<longrightarrow> period_at h a \<le> period_at h b"
    by (auto simp: rm_choice_def)
  then show ?thesis
    unfolding rm_choice_def using assms(2) by (intro exI [of _ "x # xs"] exI [of _ ys]) auto
qed

lemma rm_choice_first:
  assumes "ready_at h x" and "\<forall>b \<in> set as. ready_at h b \<longrightarrow> period_at h x \<le> period_at h b"
  shows "rm_choice h (x # as) x"
  unfolding rm_choice_def using assms by (intro exI [of _ "[]"] exI [of _ as]) auto

lemma select_task_spec:
  assumes "set as \<subseteq> dom h"
  shows "\<exists>c. select_task h as r m = Inr c \<and>
     (if \<exists>a \<in> set as. ready_at h a \<and> period_at h a < m
      then \<exists>a. c = Some a \<and> rm_choice h as a \<and> period_at h a < m else c = r)"
  using assms
proof (induction as arbitrary: r m)
  case (Cons x as)
  then obtain e where e: "h x = Some e" and live: "set as \<subseteq> dom h" by auto
  show ?case
  proof (cases "task_state e = READY \<and> period e < m")
    case True
    obtain c where c: "select_task h as (Some x) (period e) = Inr c"
      "if \<exists>a \<in> set as. ready_at h a \<and> period_at h a < period e
       then \<exists>a. c = Some a \<and> rm_choice h as a \<and> period_at h a < period e else c = Some x"
      using Cons.IH [OF live] by blast
    have "\<exists>a. c = Some a \<and> rm_choice h (x # as) a \<and> period_at h a < m"
    proof (cases "\<exists>a \<in> set as. ready_at h a \<and> period_at h a < period e")
      case True
      with c(2) obtain a where "c = Some a" "rm_choice h as a" "period_at h a < period e" by auto
      then show ?thesis using rm_choice_cons [of h as a x] e \<open>task_state e = READY \<and> period e < m\<close> by auto
    next
      case False
      then have "rm_choice h (x # as) x" using True e by (intro rm_choice_first) (auto simp: not_less)
      then show ?thesis using c(2) False True e by simp
    qed
    then show ?thesis using c(1) True e by auto
  next
    case False
    obtain c where "select_task h as r m = Inr c"
      "if \<exists>a \<in> set as. ready_at h a \<and> period_at h a < m
       then \<exists>a. c = Some a \<and> rm_choice h as a \<and> period_at h a < m else c = r"
      using Cons.IH [OF live] by blast
    moreover have "rm_choice h (x # as) a" if "rm_choice h as a" "period_at h a < m" for a
      using rm_choice_cons [OF that(1), of x] that(2) False e by auto
    ultimately show ?thesis using False e by (auto split: if_splits)
  qed
qed simp

lemma rm_choice_mem: "rm_choice h as a \<Longrightarrow> a \<in> set as"
  by (auto simp: rm_choice_def)

lemma rm_choice_minimal:
  "rm_choice h as a \<Longrightarrow> b \<in> set as \<Longrightarrow> ready_at h b \<Longrightarrow> period_at h a \<le> period_at h b"
  by (force simp: rm_choice_def)

lemma set_task_state_inv:
  assumes "set_task_state a st s = Inr t" and "mp2_inv_on A s" and "st \<in> {SLEEPING, READY, RUNNING}"
  shows "mp2_inv_on A t"
proof -
  obtain x where x: "task_cache s a = Some x"
      and t: "t = s\<lparr>task_cache := (task_cache s)(a \<mapsto> x\<lparr>task_state := st\<rparr>)\<rparr>"
    using assms(1) by (auto simp: set_task_state_def bind_r_Inr_iff deref_Inr_iff)
  have "task_ok (x\<lparr>task_state := st\<rparr>)"
    using mp2_inv_task_ok [OF assms(2) x] assms(3) by (simp add: task_ok_def c_ints_def)
  then show ?thesis unfolding t by (rule mp2_inv_update [OF assms(2) x])
qed

lemma set_priority_inv: "set_priority x p q s = Inr t \<Longrightarrow> mp2_inv_on A s \<Longrightarrow> mp2_inv_on A t"
  by (auto simp: set_priority_def split: option.splits)

lemma wake_up_process_inv: "wake_up_process x s = Inr t \<Longrightarrow> mp2_inv_on A s \<Longrightarrow> mp2_inv_on A t"
  by (auto simp: wake_up_process_def split: option.splits)

lemma preempt_running_inv:
  assumes "preempt_running x s = Inr t" and "mp2_inv_on A s"
  shows "mp2_inv_on A t"
  using assms
  by (auto simp: preempt_running_def bind_r_Inr_iff split: option.splits if_splits
           intro: set_priority_inv set_task_state_inv)

lemma run_task_inv:
  assumes "run_task a s = Inr t" and "mp2_inv_on A s" and "a \<in> set (mp2_head s)"
  shows "mp2_inv_on A t"
proof -
  obtain s1 s2 s3 x where 1: "set_task_state a RUNNING s = Inr s1"
      and x: "task_cache s1 a = Some x"
      and 2: "wake_up_process x s1 = Inr s2" and 3: "set_priority x SCHED_FIFO 99 s2 = Inr s3"
      and t: "t = s3\<lparr>running_mptask := Some a\<rparr>"
    using assms(1) by (auto simp: run_task_def bind_r_Inr_iff deref_Inr_iff)
  have "mp2_inv_on A s3"
    using set_priority_inv [OF 3] wake_up_process_inv [OF 2] set_task_state_inv [OF 1 assms(2)]
    by simp
  moreover have "mp2_head s3 = mp2_head s"
    using 1 2 3 by (auto simp: set_task_state_def wake_up_process_def set_priority_def bind_r_Inr_iff split: option.splits)
  ultimately show ?thesis unfolding t using assms(3) by (intro mp2_inv_running) simp_all
qed

lemma thread_fn_inv:
  assumes "thread_fn s = Inr t" and "mp2_inv_on A s"
  shows "mp2_inv_on A t"
proof -
  let ?s = "s\<lparr>dispatcher_awake := False\<rparr>"
  have s: "mp2_inv_on A ?s" using assms(2) by simp
  obtain c where c: "select_task (task_cache s) (mp2_head s) None INT_MAX = Inr c"
    using assms(1) by (auto simp: thread_fn_def Let_def bind_r_Inr_iff)
  show ?thesis
  proof (cases c)
    case None
    with assms(1) c s show ?thesis
      by (auto simp: thread_fn_def Let_def bind_r_Inr_iff split: option.splits
               dest: set_priority_inv)
  next
    case (Some a)
    with assms(1) c obtain x u where "preempt_running x ?s = Inr u" "run_task a u = Inr t"
      by (auto simp: thread_fn_def Let_def bind_r_Inr_iff)
    moreover have "a \<in> set (mp2_head s)"
      using select_task_spec [OF mp2_inv_live [OF assms(2)], of None INT_MAX] c Some
      by (auto dest: rm_choice_mem split: if_splits)
    moreover have "mp2_head u = mp2_head s" if "preempt_running x ?s = Inr u"
      using that by (auto simp: preempt_running_def set_task_state_def set_priority_def bind_r_Inr_iff
          split: option.splits if_splits)
    ultimately show ?thesis using s preempt_running_inv [of x ?s u A] run_task_inv [of a u t A] by simp
  qed
qed

lemma mp2_write_inv:
  assumes "mp2_write e ubuf s = Inr (n, t)" and "env_ok e s" and "mp2_inv s"
  shows "mp2_inv t"
  using assms
  by (auto simp: mp2_write_def Let_def bind_r_Inr_iff split: if_splits
           intro: registration_inv yield_handle_inv de_registration_inv)

lemma mp2_step_inv: "mp2_step s t \<Longrightarrow> mp2_inv s \<Longrightarrow> mp2_inv t"
proof (induction rule: mp2_step.induct)
  case (m2_write s e ubuf n t)
  then show ?case by (blast intro: mp2_write_inv)
next
  case (m2_timer s a x t)
  then show ?case using fire_timer_runs by fastforce
next
  case (m2_dispatch s t)
  then show ?case by (blast intro: thread_fn_inv)
qed

interpretation mp2_sys: transition_system "\<lambda>s. \<exists>c l. s = mp2_init c l" mp2_step mp2_inv
proof unfold_locales
  fix s assume "\<exists>c l. s = mp2_init c l"
  then show "mp2_inv s" by (auto simp: mp2_inv_def mp2_init_def)
qed (rule mp2_step_inv)

end
