(* ===== verification/MP2_Admission.thy ===== *)
theory MP2_Admission
  imports MP2_Scheduler Complex_Main
begin

text \<open>
  The admission test of MP2 and what it guarantees. On tasks whose numbers stay in the range of
  the 32-bit product, \<open>admission_control\<close> decides exactly whether the sum of the utilisations, in
  millionths and rounded down task by task, is at most 693000; every later operation keeps that
  bound. Outside the range the product wraps.
\<close>

section \<open>Utilisation in range\<close>

definition admissible :: "mp_task_struct \<Rightarrow> bool" where
  "admissible t \<longleftrightarrow> 0 \<le> processing_time t \<and> processing_time t \<le> 2147 \<and> 0 < period t"

definition util_ppm :: "mp_task_struct \<Rightarrow> int" where
  "util_ppm t = processing_time t * 1000000 div period t"

definition total_ppm :: "mp2_state \<Rightarrow> int" where
  "total_ppm s = (\<Sum>a\<leftarrow>mp2_head s. util_ppm (the (task_cache s a)))"

definition util_inv :: "mp2_state \<Rightarrow> bool" where
  "util_inv s \<longleftrightarrow> (\<forall>a \<in> set (mp2_head s). admissible (the (task_cache s a))) \<and> total_ppm s \<le> 693000"

lemma util_ppm_nonneg: "admissible t \<Longrightarrow> 0 \<le> util_ppm t"
  by (simp add: admissible_def util_ppm_def pos_imp_zdiv_nonneg_iff)

lemma util_ppm_le: "admissible t \<Longrightarrow> util_ppm t \<le> 2147000000"
proof -
  assume t: "admissible t"
  then have "util_ppm t \<le> processing_time t * 1000000 div 1"
    unfolding util_ppm_def by (intro zdiv_mono2) (auto simp: admissible_def)
  with t show ?thesis by (simp add: admissible_def)
qed

lemma task_util_exact: "admissible t \<Longrightarrow> task_util t = Inr (word_of_int (util_ppm t))"
  by (simp add: task_util_def admissible_def util_ppm_def s32_id c_int_def c_div_pos)

lemma util_loop_sum:
  assumes "set as \<subseteq> dom h" and "\<And>a. a \<in> set as \<Longrightarrow> admissible (the (h a))"
  shows "util_loop h as acc = Inr (acc + word_of_int (\<Sum>a\<leftarrow>as. util_ppm (the (h a))))"
  using assms
proof (induction as arbitrary: acc)
  case Nil
  then show ?case by simp
next
  case (Cons a as)
  then obtain e where e: "h a = Some e" by auto
  with Cons.prems(2) [of a] have "task_util e = Inr (word_of_int (util_ppm e))"
    by (simp add: task_util_exact)
  with Cons e show ?case by (simp add: add.assoc)
qed

lemma total_ppm_nonneg: "util_inv s \<Longrightarrow> 0 \<le> total_ppm s"
  unfolding total_ppm_def util_inv_def by (intro sum_list_nonneg) (auto intro: util_ppm_nonneg)

lemma word64_le_iff: "0 \<le> x \<Longrightarrow> x < 2 ^ 64 \<Longrightarrow> (word_of_int x :: u64) \<le> 693000 \<longleftrightarrow> x \<le> 693000"
  by (simp add: word_le_def uint_word_of_int)

text \<open>The test itself, for a list that satisfies the bound already.\<close>

lemma admission_control_exact:
  assumes "util_inv s" and "set (mp2_head s) \<subseteq> dom h" and "admissible t"
    and same: "\<And>a. a \<in> set (mp2_head s) \<Longrightarrow> h a = task_cache s a"
  shows "admission_control h (mp2_head s) t =
           Inr (if util_ppm t + total_ppm s \<le> 693000 then 1 else 0)"
proof -
  have "(\<Sum>a\<leftarrow>mp2_head s. util_ppm (the (h a))) = total_ppm s"
    unfolding total_ppm_def using same by (intro arg_cong [where f = sum_list] map_cong) auto
  moreover have "util_loop h (mp2_head s) u =
      Inr (u + word_of_int (\<Sum>a\<leftarrow>mp2_head s. util_ppm (the (h a))))" for u
    using assms(1) same by (intro util_loop_sum [OF assms(2)]) (auto simp: util_inv_def)
  ultimately have "admission_control h (mp2_head s) t =
      Inr (if (word_of_int (util_ppm t + total_ppm s) :: u64) \<le> 693000 then 1 else 0)"
    using assms(3) by (simp add: admission_control_def task_util_exact)
  moreover have "0 \<le> util_ppm t + total_ppm s" "util_ppm t + total_ppm s < 2 ^ 64"
    using assms(1,3) util_ppm_nonneg [of t] util_ppm_le [of t] total_ppm_nonneg [of s]
    by (auto simp: util_inv_def)
  ultimately show ?thesis by (simp only: word64_le_iff)
qed

section \<open>The test outside the range\<close>

text \<open>The 32-bit product of a long processing time, and when its quotient passes the unsigned comparison.\<close>

lemma s32_below: "2147483647 < x \<Longrightarrow> s32 x + 4294967296 \<le> x"
proof -
  assume x: "2147483647 < x"
  have "s32 x = (x + 2147483648) mod 4294967296 - 2147483648"
    by (simp add: s32_def signed_take_bit_eq_take_bit_shift take_bit_eq_mod)
  moreover have "(x + 2147483648) mod 4294967296 = x + 2147483648 - 4294967296 * ((x + 2147483648) div 4294967296)"
    by (rule minus_mult_div_eq_mod [symmetric])
  moreover have "1 \<le> (x + 2147483648) div 4294967296"
    using zdiv_mono1 [of 4294967296 "x + 2147483648" 4294967296] x by simp
  ultimately show ?thesis by linarith
qed

lemma zdiv_less_iff:
  assumes "0 < P"
  shows "w div P < k \<longleftrightarrow> w < k * (P :: int)"
proof -
  have m: "w = P * (w div P) + w mod P" "0 \<le> w mod P" "w mod P < P" using assms by simp_all
  show ?thesis
  proof
    assume "w div P < k"
    then have "P * (w div P + 1) \<le> P * k" using assms by (intro mult_left_mono) auto
    then have "P * (w div P) + P \<le> k * P" by (simp only: distrib_left mult_1_right mult.commute)
    then show "w < k * P" using m by linarith
  next
    assume "w < k * P"
    then have "P * (w div P) < k * P" using m by linarith
    then have "P * (w div P) < P * k" by (simp only: mult.commute)
    then show "w div P < k" using assms by (simp only: mult_less_cancel_left_pos)
  qed
qed

lemma word64_minus: "0 < q \<Longrightarrow> q \<le> 2147483648 \<Longrightarrow> \<not> (word_of_int (- q) :: u64) \<le> 693000"
proof -
  assume q: "0 < q" "q \<le> 2147483648"
  have "(- q) mod 2 ^ 64 = (- q + 2 ^ 64) mod 2 ^ 64" by (rule mod_add_self2 [symmetric])
  also have "\<dots> = - q + 2 ^ 64" using q by (intro mod_pos_pos_trivial) auto
  finally show ?thesis using q by (simp add: word_le_def uint_word_of_int del: of_int_minus)
qed

lemma quotient_admitted:
  assumes "0 < P" and "\<bar>w\<bar> \<le> 2147483648"
  shows "(word_of_int (signed_divide w P) :: u64) \<le> 693000 \<longleftrightarrow> - P < w \<and> w < 693001 * P"
proof (cases "0 \<le> w")
  case True
  have "w div P \<le> w div 1" using True assms(1) by (intro zdiv_mono2) auto
  then have "w div P < 2 ^ 64" using assms(2) by simp
  moreover have "w div P < 693001 \<longleftrightarrow> w < 693001 * P"
    using assms(1) by (rule zdiv_less_iff)
  ultimately show ?thesis
    using True assms(1) by (auto simp: signed_divide_nonneg word64_le_iff pos_imp_zdiv_nonneg_iff)
next
  case False
  let ?q = "(- w) div P"
  have sd: "signed_divide w P = - ?q" using False assms(1) by (simp add: signed_divide_int_def sgn_if)
  have "?q \<le> - w div 1" using False assms(1) by (intro zdiv_mono2) auto
  then have q: "0 \<le> ?q" "?q \<le> 2147483648" using False assms by (simp_all add: pos_imp_zdiv_nonneg_iff)
  have z: "?q = 0 \<longleftrightarrow> - P < w" using False assms(1) by (auto simp: zdiv_eq_0_iff)
  have "w < 693001 * P" using False assms(1) by (smt (verit) mult_pos_pos)
  then show ?thesis using sd q z word64_minus [of ?q] by (cases "?q = 0") auto
qed

section \<open>What registration does\<close>

lemma reg_check_outcome:
  assumes "util_inv s" and "set (mp2_head s) \<subseteq> dom (task_cache s)" and "task_cache s (slab_addr e) = None"
    and "cstr_at buf 3 = Inr str" and "admissible (new_mp_task e str)"
  shows "reg_check e buf s = Inr
     (if util_ppm (new_mp_task e str) + total_ppm s \<le> 693000
      then (Some (slab_addr e), s\<lparr>task_cache := (task_cache s)(slab_addr e \<mapsto> new_mp_task e str)\<rparr>)
      else (None, s))"
proof -
  let ?a = "slab_addr e" and ?n = "new_mp_task e str"
  have new: "?a \<notin> set (mp2_head s)" using assms(2,3) by auto
  have "admission_control ((task_cache s)(?a \<mapsto> ?n)) (mp2_head s) ?n =
      Inr (if util_ppm ?n + total_ppm s \<le> 693000 then 1 else 0)"
    using assms new by (intro admission_control_exact) auto
  moreover have "(task_cache s)(?a := None) = task_cache s"
    using assms(3) by (simp add: fun_upd_idem)
  ultimately show ?thesis
    using assms(4) by (simp add: reg_check_def Let_def)
qed

lemma registration_outcome:
  assumes "mp2_inv s" and "util_inv s" and "task_cache s (slab_addr e) = None"
    and "cstr_at buf 3 = Inr str" and "admissible (new_mp_task e str)"
  shows "registration e buf s = Inr
     (if util_ppm (new_mp_task e str) + total_ppm s \<le> 693000
      then s\<lparr>task_cache := (task_cache s)(slab_addr e \<mapsto> new_mp_task e str),
             mp2_head := slab_addr e # mp2_head s\<rparr>
      else s)"
  using reg_check_outcome [OF assms(2) mp2_inv_live [OF assms(1)] assms(3-5)]
  by (simp add: registration_def reg_add_def)

text \<open>Adding a task adds its utilisation; the other entries keep theirs.\<close>

lemma total_ppm_add:
  assumes "a \<notin> set (mp2_head s)"
  shows "total_ppm (s\<lparr>task_cache := (task_cache s)(a \<mapsto> t), mp2_head := a # mp2_head s\<rparr>)
           = util_ppm t + total_ppm s"
proof -
  have "(\<Sum>b\<leftarrow>mp2_head s. util_ppm (the (((task_cache s)(a \<mapsto> t)) b))) = total_ppm s"
    unfolding total_ppm_def using assms by (intro arg_cong [where f = sum_list] map_cong) auto
  then show ?thesis by (simp add: total_ppm_def del: fun_upd_apply)
     (simp add: total_ppm_def)
qed

lemma registration_util:
  assumes "mp2_inv s" and "util_inv s" and "task_cache s (slab_addr e) = None"
    and "cstr_at buf 3 = Inr str" and "admissible (new_mp_task e str)"
    and "registration e buf s = Inr t"
  shows "util_inv t"
proof (cases "util_ppm (new_mp_task e str) + total_ppm s \<le> 693000")
  case True
  have new: "slab_addr e \<notin> set (mp2_head s)" using assms(1,3) by (auto simp: mp2_inv_def)
  have t: "t = s\<lparr>task_cache := (task_cache s)(slab_addr e \<mapsto> new_mp_task e str),
             mp2_head := slab_addr e # mp2_head s\<rparr>"
    using registration_outcome [OF assms(1-5)] assms(6) True by simp
  have "total_ppm t \<le> 693000" unfolding t using True by (simp add: total_ppm_add [OF new])
  moreover have "\<forall>a \<in> set (mp2_head t). admissible (the (task_cache t a))"
    using assms(2,5) new by (auto simp: t util_inv_def)
  ultimately show ?thesis by (simp add: util_inv_def)
next
  case False
  then have "t = s" using registration_outcome [OF assms(1-5)] assms(6) by simp
  with assms(2) show ?thesis by simp
qed

section \<open>The other operations keep the parameters\<close>

definition params :: "mp_task_struct \<Rightarrow> int \<times> int \<times> int \<times> nat option" where
  "params t = (pid t, period t, processing_time t, task t)"

definition same_params :: "mp2_state \<Rightarrow> mp2_state \<Rightarrow> bool" where
  "same_params s t \<longleftrightarrow> mp2_head t = mp2_head s
     \<and> (\<forall>a. map_option params (task_cache t a) = map_option params (task_cache s a))"

lemma same_params_refl [simp, intro]: "same_params s s"
  by (simp add: same_params_def)

lemma same_params_trans [trans]: "same_params s t \<Longrightarrow> same_params t u \<Longrightarrow> same_params s u"
  by (simp add: same_params_def)

lemma same_params_frame [simp]:
  "same_params s (t\<lparr>dispatcher_awake := w\<rparr>) = same_params s t"
  "same_params s (t\<lparr>sched_class := c\<rparr>) = same_params s t"
  "same_params s (t\<lparr>linux_state_of := l\<rparr>) = same_params s t"
  "same_params s (t\<lparr>running_mptask := r\<rparr>) = same_params s t"
  "same_params (s\<lparr>dispatcher_awake := w\<rparr>) t = same_params s t"
  by (simp_all add: same_params_def)

lemma same_params_update:
  "task_cache s a = Some x \<Longrightarrow> params y = params x \<Longrightarrow>
   same_params s (s\<lparr>task_cache := (task_cache s)(a \<mapsto> y)\<rparr>)"
  by (simp add: same_params_def)

lemma same_params_util:
  assumes "same_params s t" and "set (mp2_head s) \<subseteq> dom (task_cache s)" and "util_inv s"
  shows "util_inv t"
proof -
  have eq: "period (the (task_cache t a)) = period (the (task_cache s a))
          \<and> processing_time (the (task_cache t a)) = processing_time (the (task_cache s a))"
    if a: "a \<in> set (mp2_head s)" for a
  proof -
    obtain x where "task_cache s a = Some x" using a assms(2) by auto
    moreover have "map_option params (task_cache t a) = map_option params (task_cache s a)"
      using assms(1) by (simp add: same_params_def)
    ultimately show ?thesis by (auto simp: params_def)
  qed
  then have "total_ppm t = total_ppm s"
    unfolding total_ppm_def using assms(1)
    by (auto simp: same_params_def util_ppm_def intro!: arg_cong [where f = sum_list] map_cong)
  moreover have "\<forall>a \<in> set (mp2_head t). admissible (the (task_cache t a))"
    using eq assms(1,3) by (auto simp: same_params_def util_inv_def admissible_def)
  ultimately show ?thesis using assms(3) by (simp add: util_inv_def)
qed

lemma yield_handle_params: "yield_handle e buf s = Inr t \<Longrightarrow> same_params s t"
  by (erule yield_handle_cases) (auto simp: params_def slept_def intro!: same_params_update)

lemma set_task_state_params: "set_task_state a st s = Inr t \<Longrightarrow> same_params s t"
  by (auto simp: set_task_state_def bind_r_Inr_iff deref_Inr_iff params_def
           intro!: same_params_update)

lemma set_priority_params: "set_priority x p q s = Inr t \<Longrightarrow> same_params s t"
  by (auto simp: set_priority_def split: option.splits)

lemma wake_up_process_params: "wake_up_process x s = Inr t \<Longrightarrow> same_params s t"
  by (auto simp: wake_up_process_def split: option.splits)

lemma preempt_running_params: "preempt_running x s = Inr t \<Longrightarrow> same_params s t"
  by (auto simp: preempt_running_def bind_r_Inr_iff split: option.splits if_splits
           dest!: set_task_state_params set_priority_params intro: same_params_trans)

lemma run_task_params: "run_task a s = Inr t \<Longrightarrow> same_params s t"
  by (auto simp: run_task_def bind_r_Inr_iff
           dest!: set_task_state_params set_priority_params wake_up_process_params
           intro: same_params_trans)

lemma thread_fn_params: "thread_fn s = Inr t \<Longrightarrow> same_params s t"
  by (auto simp: thread_fn_def Let_def bind_r_Inr_iff split: option.splits
           dest!: set_priority_params preempt_running_params run_task_params)
     (blast intro: same_params_trans)+

lemma mp2_timer_callback_params: "mp2_timer_callback p s = Inr t \<Longrightarrow> same_params s t"
  by (auto simp: mp2_timer_callback_def bind_r_Inr_iff deref_Inr_iff params_def
           intro!: same_params_update)

lemma fire_timer_params:
  assumes "fire_timer a s = Inr t"
  shows "same_params s t"
proof -
  obtain x where x: "task_cache s a = Some x"
      and "mp2_timer_callback (timer_pid x)
             (s\<lparr>task_cache := (task_cache s)(a \<mapsto> x\<lparr>task_timer := None\<rparr>)\<rparr>) = Inr t"
    using assms by (auto simp: fire_timer_def bind_r_Inr_iff deref_Inr_iff)
  moreover from x have "same_params s (s\<lparr>task_cache := (task_cache s)(a \<mapsto> x\<lparr>task_timer := None\<rparr>)\<rparr>)"
    by (rule same_params_update) (simp add: params_def)
  ultimately show ?thesis by (blast intro: same_params_trans mp2_timer_callback_params)
qed

text \<open>De-registration takes one task's utilisation away.\<close>

lemma util_inv_remove:
  assumes "util_inv s" and "distinct (mp2_head s)" and mem: "a \<in> set (mp2_head s)" and a: "task_cache s a = Some x"
    and t: "mp2_head t = remove1 a (mp2_head s)" "task_cache t = (task_cache s)(a := None)"
  shows "util_inv t"
proof -
  have "total_ppm t = (\<Sum>b\<leftarrow>remove1 a (mp2_head s). util_ppm (the (task_cache s b)))"
    unfolding total_ppm_def t using assms(2)
    by (intro arg_cong [where f = sum_list] map_cong) auto
  also have "\<dots> = total_ppm s - util_ppm x"
    using sum_list_map_remove1 [OF mem, of "\<lambda>b. util_ppm (the (task_cache s b))"] a
    by (simp add: total_ppm_def)
  also have "\<dots> \<le> total_ppm s"
    using util_ppm_nonneg [of x] assms(1) mem a by (auto simp: util_inv_def)
  finally show ?thesis
    using assms(1,2) by (auto simp: util_inv_def t)
qed

lemma de_registration_util:
  assumes "de_registration e buf s = Inr t" and "mp2_inv s" and "util_inv s"
  shows "util_inv t"
  using assms(1) mp2_inv_live [OF assms(2)]
proof (cases rule: de_registration_cases)
  case (1 a x)
  have t: "mp2_head t = remove1 a (mp2_head s)" "task_cache t = (task_cache s)(a := None)"
    unfolding 1(3) by (simp_all add: Let_def)
  show ?thesis using util_inv_remove [OF assms(3) _ 1(1,2) t] assms(2) by (simp add: mp2_inv_def)
qed

end
