(* ===== verification/MP2_Userapp.thy ===== *)
theory MP2_Userapp
  imports MP2_Admission
begin

text \<open>
  The user program of MP2 (\<^verbatim>\<open>src/MP2/userapp.c\<close>): the three messages it writes to the status file,
  the check of its registration by reading the file back, and its job loop. The lemmas connect
  both sides of the protocol: what the program prints is what the module parses, and what the
  module lists is what the program looks for.
\<close>

section \<open>Operations\<close>

text \<open>
  \<^verbatim>\<open>factorial\<close>: the loop counts down to zero and multiplies by the counter after the decrement.
  The arithmetic is that of 32-bit words.
\<close>

function factorial_loop :: "u32 \<Rightarrow> u32 \<Rightarrow> u32" where
  "factorial_loop n val = (if n \<noteq> 0 then factorial_loop (n - 1) (val * (n - 1)) else val)"
  by pat_completeness auto
termination
  by (relation "measure (\<lambda>(n, val). unat n)") (auto simp: unat_minus_one unat_gt_0)

declare factorial_loop.simps [simp del]

definition factorial :: "u32 \<Rightarrow> u32" where
  "factorial factval = factorial_loop factval 1"

text \<open>The messages: the period and the processing time are passed on as the strings given.\<close>

definition reg_msg :: "int \<Rightarrow> string \<Rightarrow> string \<Rightarrow> string" where
  "reg_msg p per proc = ''R, '' @ show_int p @ '', '' @ per @ '', '' @ proc @ [newline]"

definition yield_msg :: "int \<Rightarrow> string" where
  "yield_msg p = ''Y, '' @ show_int p"

definition unreg_msg :: "int \<Rightarrow> string" where
  "unreg_msg p = ''D, '' @ show_int p"

text \<open>
  \<^verbatim>\<open>read_status\<close>: compares every line of the file with the line a new registration would have;
  the result is whether it was found (return value 0) or not (-1).
\<close>

definition status_target :: "int \<Rightarrow> string \<Rightarrow> string \<Rightarrow> string" where
  "status_target p per proc = show_int p @ ''[0]: '' @ per @ '' ms, '' @ proc @ '' ms'' @ [newline]"

function read_status_loop :: "string \<Rightarrow> string \<Rightarrow> bool" where
  "read_status_loop target f =
     (case fgets 255 f of
        None \<Rightarrow> False
      | Some (buffer, rest) \<Rightarrow>
          if cstr (buffer @ [NUL]) = target then True else read_status_loop target rest)"
  by pat_completeness auto
termination
proof (relation "measure (\<lambda>(target, f). length f)")
  fix target f x buffer rest
  assume "fgets 255 f = Some x" and "(buffer, rest) = x"
  then have "f \<noteq> []" and "take_line 254 f = (buffer, rest)"
    by (simp_all add: fgets_def split: if_splits)
  then show "((target, rest), target, f) \<in> measure (\<lambda>(target, f). length f)"
    by (auto dest: take_line_progress)
qed simp

declare read_status_loop.simps [simp del]

definition read_status :: "string \<Rightarrow> int \<Rightarrow> string \<Rightarrow> string \<Rightarrow> bool" where
  "read_status f p per proc = read_status_loop (status_target p per proc) f"

text \<open>
  The messages of one run of \<^verbatim>\<open>main\<close>, in order, given the answer of \<^verbatim>\<open>read_status\<close>: a process that
  is not admitted exits after its registration.
\<close>

definition userapp_main :: "int \<Rightarrow> string \<Rightarrow> string \<Rightarrow> nat \<Rightarrow> bool \<Rightarrow> string list" where
  "userapp_main p per proc num_jobs registered =
     reg_msg p per proc #
     (if registered then yield_msg p # replicate num_jobs (yield_msg p) @ [unreg_msg p] else [])"

section \<open>Messages are parsed as printed\<close>

lemma newline_isspace [simp]: "isspace newline"
  by (simp add: isspace_def)

lemma space_isspace [simp]: "isspace (CHR '' '')"
  by (simp add: isspace_def)

lemma not_isdigit_sep [simp]: "\<not> isdigit (CHR '','')" "\<not> isdigit newline"
  by (simp_all add: isdigit_def)

lemma sscanf_reg_format:
  assumes "c_int p" and "c_int q" and "c_int r"
  shows "sscanf reg_format
           (show_int p @ '', '' @ show_int q @ '', '' @ show_int r @ [newline]) = [p, q, r]"
  using assms by (simp add: reg_format_def scan_d_show_int)

lemma sscanf_pid:
  assumes "c_int p"
  shows "sscanf [Conv_d, Space] (show_int p) = [p]"
  using scan_d_show_int [of "[]" p] assms by simp

lemma cstr_at_reg:
  assumes "NUL \<notin> set per" and "NUL \<notin> set proc"
  shows "cstr_at (reg_msg p per proc @ [NUL]) 3 =
           Inr (show_int p @ '', '' @ per @ '', '' @ proc @ [newline])"
  using cstr_at_terminated [of 3 "reg_msg p per proc"] assms
  by (simp add: reg_msg_def eval_nat_numeral)

lemma cstr_at_pid_msgs:
  "cstr_at (yield_msg p @ [NUL]) 3 = Inr (show_int p)"
  "cstr_at (unreg_msg p @ [NUL]) 3 = Inr (show_int p)"
  using cstr_at_terminated [of 3 "yield_msg p"] cstr_at_terminated [of 3 "unreg_msg p"]
  by (simp_all add: yield_msg_def unreg_msg_def eval_nat_numeral)

text \<open>The task a registration message asks for.\<close>

definition requested :: "mp2_env \<Rightarrow> int \<Rightarrow> int \<Rightarrow> int \<Rightarrow> mp_task_struct" where
  "requested e p q r = (slab_junk e)
     \<lparr>pid := p, period := q, processing_time := r, task_state := SLEEPING, next_period := 0,
      task := find_task_by_pid e p, task_timer := None, timer_pid := p\<rparr>"

lemma requested_simps [simp]:
  "pid (requested e p q r) = p" "period (requested e p q r) = q"
  "processing_time (requested e p q r) = r" "task_state (requested e p q r) = SLEEPING"
  "task (requested e p q r) = find_task_by_pid e p" "task_timer (requested e p q r) = None"
  "next_period (requested e p q r) = 0" "timer_pid (requested e p q r) = p"
  by (simp_all add: requested_def)

lemma new_mp_task_reg:
  assumes "c_int p" and "c_int q" and "c_int r"
  shows "new_mp_task e (show_int p @ '', '' @ show_int q @ '', '' @ show_int r @ [newline])
           = requested e p q r"
  using sscanf_reg_format [OF assms] by (simp add: new_mp_task_def requested_def)

lemma scan_pid_show: "c_int p \<Longrightarrow> scan_pid e (show_int p) = p"
  using sscanf_pid by (simp add: scan_pid_def)

section \<open>The status file is read as written\<close>

lemma read_status_loop_line:
  assumes "newline \<notin> set body" and "NUL \<notin> set body" and "length body < 254"
  shows "read_status_loop target (body @ newline # rest) =
           (body @ [newline] = target \<or> read_status_loop target rest)"
proof -
  have "fgets 255 (body @ newline # rest) = Some (body @ [newline], rest)"
    using assms by (simp add: fgets_def take_line_line)
  moreover have "cstr ((body @ [newline]) @ [NUL]) = body @ [newline]"
    using assms(2) by (intro cstr_id) simp
  ultimately show ?thesis
    by (subst read_status_loop.simps) simp
qed

lemma read_status_loop_NUL: "target \<noteq> [] \<Longrightarrow> \<not> read_status_loop target [NUL]"
  by (simp add: read_status_loop.simps fgets_def cstr_def eval_nat_numeral)

lemma read_status_loop_lines:
  assumes "\<And>l. l \<in> set ls \<Longrightarrow> newline \<notin> set l \<and> NUL \<notin> set l \<and> length l < 254"
    and "target \<noteq> []"
  shows "read_status_loop target (concat (map (\<lambda>l. l @ [newline]) ls) @ [NUL]) \<longleftrightarrow>
           (\<exists>l \<in> set ls. l @ [newline] = target)"
  using assms
proof (induction ls)
  case Nil
  then show ?case by (simp add: read_status_loop_NUL)
next
  case (Cons l ls)
  then have "read_status_loop target (l @ newline # concat (map (\<lambda>l. l @ [newline]) ls) @ [NUL])
     = (l @ [newline] = target \<or>
        read_status_loop target (concat (map (\<lambda>l. l @ [newline]) ls) @ [NUL]))"
    by (intro read_status_loop_line) auto
  with Cons show ?case by simp
qed

end
