(* ===== verification/MP2_Properties.thy ===== *)
theory MP2_Properties
  imports MP2_Userapp
begin

text \<open>
  The properties of single operations of MP2: the admission test, what one round of the dispatcher does, the release times of a
  yielding task, the registration protocol between the user program and the module, and the
  behaviours in which the module departs from rate-monotonic scheduling.
\<close>

section \<open>A small system for the witnesses\<close>

definition demo_env :: "addr \<Rightarrow> mp2_env" where
  "demo_env a = \<lparr>find_task_by_pid = (\<lambda>p. Some (nat p)), slab_addr = a,
     slab_junk = \<lparr>task = None, task_timer = None, timer_pid = 0, task_state = 0, next_period = 0,
                  pid = 0, period = 0, processing_time = 0\<rparr>,
     stack_junk = 0, jiffies_1 = 1000, jiffies_2 = 1000, msecs_to_jiffies = (\<lambda>m. ucast m)\<rparr>"

definition demo_init :: mp2_state where
  "demo_init = mp2_init (\<lambda>_. (SCHED_NORMAL, 0)) (\<lambda>_. TASK_RUNNING)"

definition demo_task :: "int \<Rightarrow> int \<Rightarrow> int \<Rightarrow> mp_task_struct" where
  "demo_task p q r = requested (demo_env 0) p q r"

lemma demo_env_simps [simp]:
  "slab_addr (demo_env a) = a" "find_task_by_pid (demo_env a) p = Some (nat p)"
  "jiffies_1 (demo_env a) = 1000" "jiffies_2 (demo_env a) = 1000"
  "msecs_to_jiffies (demo_env a) m = ucast m"
  by (simp_all add: demo_env_def)

lemma demo_task_simps [simp]:
  "pid (demo_task p q r) = p" "period (demo_task p q r) = q"
  "processing_time (demo_task p q r) = r" "task_state (demo_task p q r) = SLEEPING"
  "task (demo_task p q r) = Some (nat p)" "task_timer (demo_task p q r) = None"
  "next_period (demo_task p q r) = 0" "timer_pid (demo_task p q r) = p"
  by (simp_all add: demo_task_def)

lemma requested_demo [simp]: "requested (demo_env a) p q r = demo_task p q r"
  by (simp add: demo_task_def requested_def demo_env_def)

lemma demo_env_ok: "task_cache s a = None \<Longrightarrow> env_ok (demo_env a) s"
  by (simp add: env_ok_def demo_env_def c_int_def)

lemma demo_init_simps [simp]:
  "mp2_head demo_init = []" "task_cache demo_init = Map.empty" "running_mptask demo_init = None"
  "mp2_inv demo_init" "util_inv demo_init"
  by (simp_all add: demo_init_def mp2_init_def mp2_inv_def util_inv_def total_ppm_def)

section \<open>Writes of the user program\<close>

lemma hd_msgs [simp]:
  "hd (reg_msg p per proc @ z) = CHR ''R''" "hd (yield_msg p @ z) = CHR ''Y''"
  "hd (unreg_msg p @ z) = CHR ''D''"
  by (simp_all add: reg_msg_def yield_msg_def unreg_msg_def)

lemma mp2_write_reg:
  assumes "mp2_inv s" and "util_inv s" and "env_ok e s"
    and "c_int p" and "c_int q" and "c_int r" and "0 \<le> r" and "r \<le> 2147" and "0 < q"
  shows "mp2_write e (reg_msg p (show_int q) (show_int r)) s =
     Inr (length (reg_msg p (show_int q) (show_int r)),
          if r * 1000000 div q + total_ppm s \<le> 693000
          then s\<lparr>task_cache := (task_cache s)(slab_addr e \<mapsto> requested e p q r),
                 mp2_head := slab_addr e # mp2_head s\<rparr>
          else s)"
proof -
  let ?buf = "reg_msg p (show_int q) (show_int r) @ [NUL]"
  have "registration e ?buf s = Inr
     (if util_ppm (requested e p q r) + total_ppm s \<le> 693000
      then s\<lparr>task_cache := (task_cache s)(slab_addr e \<mapsto> requested e p q r),
             mp2_head := slab_addr e # mp2_head s\<rparr>
      else s)"
    using registration_outcome [OF assms(1,2) _ cstr_at_reg [of "show_int q" "show_int r" p]]
      assms new_mp_task_reg [OF assms(4-6), of e]
    by (simp add: env_ok_def admissible_def)
  then show ?thesis by (simp add: mp2_write_def util_ppm_def)
qed

text \<open>
  Operations that do not overlap, in a system in which every registration stays in the range of the
  admission test.
\<close>

definition good_request :: "mp2_env \<Rightarrow> string \<Rightarrow> bool" where
  "good_request e ubuf \<longleftrightarrow> hd (ubuf @ [NUL]) \<noteq> CHR ''R'' \<or>
     (\<forall>str. cstr_at (ubuf @ [NUL]) 3 = Inr str \<longrightarrow> admissible (new_mp_task e str))"

inductive mp2_rt_step :: "mp2_state \<Rightarrow> mp2_state \<Rightarrow> bool" where
  rt_write: "env_ok e s \<Longrightarrow> good_request e ubuf \<Longrightarrow> mp2_write e ubuf s = Inr (n, t) \<Longrightarrow>
     mp2_rt_step s t"
| rt_timer: "task_cache s a = Some x \<Longrightarrow> task_timer x \<noteq> None \<Longrightarrow> fire_timer a s = Inr t \<Longrightarrow>
     mp2_rt_step s t"
| rt_dispatch: "dispatcher_awake s \<Longrightarrow> thread_fn s = Inr t \<Longrightarrow> mp2_rt_step s t"

lemma mp2_rt_step_step: "mp2_rt_step s t \<Longrightarrow> mp2_step s t"
  by (induction rule: mp2_rt_step.induct) (blast intro: mp2_step.intros)+

lemma mp2_write_cases:
  assumes "mp2_write e ubuf s = Inr (n, t)"
  obtains (R) "hd (ubuf @ [NUL]) = CHR ''R''" and "registration e (ubuf @ [NUL]) s = Inr t"
    | (Y) "yield_handle e (ubuf @ [NUL]) s = Inr t"
    | (D) "de_registration e (ubuf @ [NUL]) s = Inr t"
    | (other) "t = s"
proof -
  define buf where "buf = ubuf @ [NUL]"
  from assms show thesis
    unfolding mp2_write_def Let_def buf_def [symmetric]
    by (auto simp: bind_r_Inr_iff intro: that [folded buf_def] split: if_splits)
qed

lemma mp2_write_util:
  assumes "mp2_write e ubuf s = Inr (n, t)" and "env_ok e s" and "good_request e ubuf"
    and "mp2_inv s" and "util_inv s"
  shows "util_inv t"
proof -
  let ?buf = "ubuf @ [NUL]"
  from assms(1) show ?thesis
  proof (cases rule: mp2_write_cases)
    case R
    then obtain str where str: "cstr_at ?buf 3 = Inr str"
      by (auto simp: registration_unfold bind_r_Inr_iff)
    have "admissible (new_mp_task e str)"
      using assms(3) R(1) str by (auto simp: good_request_def)
    then show ?thesis
      using registration_util [OF assms(4,5) _ str _ R(2)] assms(2) by (simp add: env_ok_def)
  next
    case Y
    then show ?thesis using same_params_util [OF yield_handle_params mp2_inv_live] assms(4,5) by blast
  next
    case D
    then show ?thesis using assms(4,5) by (blast intro: de_registration_util)
  next
    case other
    then show ?thesis using assms(5) by simp
  qed
qed

lemma mp2_rt_step_util: "mp2_rt_step s t \<Longrightarrow> mp2_inv s \<Longrightarrow> util_inv s \<Longrightarrow> util_inv t"
proof (induction rule: mp2_rt_step.induct)
  case (rt_write e s ubuf n t)
  then show ?case by (blast intro: mp2_write_util)
next
  case (rt_timer s a x t)
  then show ?case using same_params_util [OF fire_timer_params mp2_inv_live] by blast
next
  case (rt_dispatch s t)
  then show ?case using same_params_util [OF thread_fn_params mp2_inv_live] by blast
qed

interpretation mp2_rt: transition_system "\<lambda>s. \<exists>c l. s = mp2_init c l" mp2_rt_step
    "\<lambda>s. mp2_inv s \<and> util_inv s"
proof unfold_locales
  fix s assume "\<exists>c l. s = mp2_init c l"
  then show "mp2_inv s \<and> util_inv s"
    by (auto simp: mp2_inv_def mp2_init_def util_inv_def total_ppm_def)
next
  fix s t assume "mp2_inv s \<and> util_inv s" and "mp2_rt_step s t"
  then show "mp2_inv t \<and> util_inv t"
    using mp2_rt_step_util mp2_step_inv [OF mp2_rt_step_step] by blast
qed

text \<open>From millionths, rounded down, to the exact utilisation.\<close>

lemma util_real_le:
  assumes "admissible t"
  shows "real_of_int (processing_time t) / real_of_int (period t) \<le> (real_of_int (util_ppm t) + 1) / 1000000"
proof -
  let ?c = "processing_time t" and ?p = "period t"
  have p: "0 < ?p" using assms by (simp add: admissible_def)
  have "?c * 1000000 < (util_ppm t + 1) * ?p"
    unfolding util_ppm_def distrib_right
    using pos_mod_bound [OF p, of "?c * 1000000"] minus_mod_eq_div_mult [of "?c * 1000000" ?p]
    by linarith
  then have "real_of_int (?c * 1000000) \<le> real_of_int ((util_ppm t + 1) * ?p)"
    by (simp only: of_int_le_iff)
  with p show ?thesis by (simp add: field_simps)
qed

lemma total_real_le:
  assumes "\<And>a. a \<in> set as \<Longrightarrow> admissible (f a)"
  shows "(\<Sum>a\<leftarrow>as. real_of_int (processing_time (f a)) / real_of_int (period (f a)))
           \<le> (real_of_int (\<Sum>a\<leftarrow>as. util_ppm (f a)) + real (length as)) / 1000000"
  using assms
proof (induction as)
  case Nil
  then show ?case by simp
next
  case (Cons a as)
  then show ?case
    using util_real_le [of "f a"] by (simp add: add_divide_distrib)
qed

text \<open>Demo states: one and two registered tasks.\<close>

definition demo_one :: mp2_state where
  "demo_one = demo_init\<lparr>task_cache := [1 \<mapsto> demo_task 11 100 20], mp2_head := [1]\<rparr>"

lemma demo_one_reached: "mp2_write (demo_env 1) (reg_msg 11 (show_int 100) (show_int 20)) demo_init
    = Inr (length (reg_msg 11 (show_int 100) (show_int 20)), demo_one)"
  by (simp add: mp2_write_reg demo_env_ok c_int_def total_ppm_def demo_one_def)

lemma good_request_reg:
  assumes "c_int p" and "c_int q" and "c_int r" and "0 \<le> r" and "r \<le> 2147" and "0 < q"
  shows "good_request e (reg_msg p (show_int q) (show_int r))"
  using cstr_at_reg [of "show_int q" "show_int r" p] new_mp_task_reg [OF assms(1-3), of e] assms
  by (auto simp: good_request_def admissible_def)

lemma demo_one_rt: "mp2_rt_step\<^sup>*\<^sup>* demo_init demo_one"
  by (rule r_into_rtranclp, rule rt_write [OF _ good_request_reg demo_one_reached])
     (simp_all add: demo_env_ok c_int_def)

lemma demo_one_simps [simp]:
  "mp2_head demo_one = [1]" "task_cache demo_one = [1 \<mapsto> demo_task 11 100 20]"
  "running_mptask demo_one = None"
  by (simp_all add: demo_one_def)

lemma demo_one_inv [simp]: "mp2_inv demo_one" "util_inv demo_one"
proof -
  have "mp2_inv demo_one \<and> util_inv demo_one"
    using mp2_rt.inv_reachable [OF _ demo_one_rt] by (auto simp: demo_init_def)
  then show "mp2_inv demo_one" "util_inv demo_one" by simp_all
qed

section \<open>Properties\<close>

text \<open>
  C36. The admission test multiplies in 32 bits. On an empty system its decision is that of the wrapped
  product \<open>w\<close>: it accepts when \<open>w\<close> over the period, rounded towards zero, is between 0 and 693000 millionths.
  Up to 2147 ms the product is exact. For every longer processing time whose product wraps to a
  number that is not negative there is a period at which the task is accepted although its
  utilisation is above the bound.
\<close>
theorem admission_control_wraps:
  assumes "0 < period t" and "w = s32 (processing_time t * 1000000)"
  shows "admission_control h [] t = Inr (if - period t < w \<and> w < 693001 * period t then 1 else 0)
     \<and> (0 \<le> processing_time t \<and> processing_time t \<le> 2147 \<longrightarrow> w = processing_time t * 1000000)
     \<and> (2147 < processing_time t \<and> 0 \<le> w \<longrightarrow>
          admission_control h [] (t\<lparr>period := w div 693001 + 1\<rparr>) = Inr 1
          \<and> 693001 * (w div 693001 + 1) \<le> processing_time t * 1000000)"
proof -
  have w: "\<bar>w\<bar> \<le> 2147483648" using c_int_s32 [of "processing_time t * 1000000"] assms(2) by (auto simp: c_int_def)
  have accept: "admission_control h [] u = Inr (if - period u < w \<and> w < 693001 * period u then 1 else 0)"
    if "0 < period u" "processing_time u = processing_time t" for u
    using quotient_admitted [OF that(1) w] that assms(2)
    by (simp add: admission_control_def task_util_def c_div_def)
  have "admission_control h [] (t\<lparr>period := w div 693001 + 1\<rparr>) = Inr 1
      \<and> 693001 * (w div 693001 + 1) \<le> processing_time t * 1000000"
    if c: "2147 < processing_time t" "0 \<le> w"
  proof -
    have "w + 4294967296 \<le> processing_time t * 1000000" using s32_below assms(2) c(1) by simp
    moreover have "693001 * (w div 693001) \<le> w" "w < 693001 * (w div 693001 + 1)" "0 \<le> w div 693001"
      using c(2) by simp_all
    ultimately show ?thesis using accept [of "t\<lparr>period := w div 693001 + 1\<rparr>"] c(2) by auto
  qed
  moreover have "w = processing_time t * 1000000" if "0 \<le> processing_time t" "processing_time t \<le> 2147"
    using that assms(2) by (simp add: s32_id c_int_def)
  ultimately show ?thesis using accept [of t] assms(1) by blast
qed

text \<open>A task that needs the whole processor, 4295 ms in every 4295 ms, is accepted.\<close>

theorem admission_control_wraps_witness:
  "admission_control Map.empty [] (demo_task 1 4295 4295) = Inr 1
     \<and> admission_control Map.empty [] (demo_task 1 1 4295) = Inr 1"
proof -
  have w: "s32 4295000000 = 32704" by (simp add: s32_def)
  show ?thesis
    using admission_control_wraps [of "demo_task 1 4295 4295" 32704 Map.empty]
      admission_control_wraps [of "demo_task 1 1 4295" 32704 Map.empty] by (simp add: w)
qed

text \<open>
  More decisions of the test: a task that needs one percent of the processor is refused. The test does not look at
  signs: next to an admitted task a negative processing time, which the user program registers when a second
  ends while it measures, is accepted and makes room, so that tasks of 79 percent in all pass.
\<close>

lemma admission_control_examples:
  "admission_control Map.empty [] (demo_task 1 214800 2148) = Inr 0
   \<and> admission_control [1 \<mapsto> demo_task 1 100 20] [1] (demo_task 2 100 (- 10)) = Inr 1
   \<and> admission_control [1 \<mapsto> demo_task 1 100 20, 2 \<mapsto> demo_task 2 100 (- 10)] [2, 1] (demo_task 3 100 59) = Inr 1"
  by (simp add: admission_control_def task_util_def s32_def c_div_def signed_divide_int_def)

subsection \<open>One round of the dispatcher\<close>

text \<open>Every registered pid named a live process at registration.\<close>

definition all_known :: "mp2_state \<Rightarrow> bool" where
  "all_known s \<longleftrightarrow> (\<forall>x \<in> ran (task_cache s). task x \<noteq> None)"

lemma all_knownD: "all_known s \<Longrightarrow> task_cache s a = Some x \<Longrightarrow> \<exists>r. task x = Some r"
  by (auto simp: all_known_def ran_def)

lemma run_task_result:
  assumes "task_cache s a = Some x" and "task x = Some r"
  shows "run_task a s = Inr (s
     \<lparr>task_cache := (task_cache s)(a \<mapsto> x\<lparr>task_state := RUNNING\<rparr>),
      linux_state_of := (linux_state_of s)(r := TASK_RUNNING),
      sched_class := (sched_class s)(r := (SCHED_FIFO, 99)), running_mptask := Some a\<rparr>)"
  using assms by (simp add: run_task_def set_task_state_def wake_up_process_def set_priority_def)

text \<open>The cache after the test for preemption: the running task is ready again if it is slower.\<close>

definition preempted :: "mp_task_struct \<Rightarrow> mp2_state \<Rightarrow> addr \<rightharpoonup> mp_task_struct" where
  "preempted x s = (\<lambda>b. if running_mptask s = Some b
     then map_option (\<lambda>y. if period x < period y then y\<lparr>task_state := READY\<rparr> else y) (task_cache s b)
     else task_cache s b)"

text \<open>The scheduling classes after that test: the process of a slower running task is demoted.\<close>

definition demoted :: "mp_task_struct \<Rightarrow> mp2_state \<Rightarrow> nat \<Rightarrow> policy \<times> int" where
  "demoted x s =
     (case running_mptask s of
        None \<Rightarrow> sched_class s
      | Some b \<Rightarrow>
          (let y = the (task_cache s b) in
           if period x < period y then (sched_class s)(the (task y) := (SCHED_NORMAL, 0)) else sched_class s))"

lemma preempt_running_result:
  assumes "all_known s" and "\<forall>a. running_mptask s = Some a \<longrightarrow> a \<in> dom (task_cache s)"
  shows "preempt_running x s = Inr (s\<lparr>task_cache := preempted x s, sched_class := demoted x s\<rparr>)"
proof (cases "running_mptask s")
  case None
  then show ?thesis by (simp add: preempt_running_def preempted_def demoted_def)
next
  case (Some b)
  then obtain y where y: "task_cache s b = Some y" using assms(2) by auto
  then obtain r where r: "task y = Some r" using assms(1) by (blast dest: all_knownD)
  have "preempted x s = (if period x < period y then (task_cache s)(b \<mapsto> y\<lparr>task_state := READY\<rparr>) else task_cache s)"
    using Some y by (auto simp: preempted_def fun_eq_iff)
  then show ?thesis
    using Some y r by (simp add: preempt_running_def set_task_state_def set_priority_def demoted_def)
qed

text \<open>The state after a round that starts the task \<open>x\<close> at address \<open>a\<close>, whose process is \<open>r\<close>.\<close>

definition dispatched :: "addr \<Rightarrow> mp_task_struct \<Rightarrow> nat \<Rightarrow> mp2_state \<Rightarrow> mp2_state" where
  "dispatched a x r s = s
     \<lparr>dispatcher_awake := False, running_mptask := Some a,
      task_cache := (preempted x s)(a \<mapsto> x\<lparr>task_state := RUNNING\<rparr>),
      sched_class := (demoted x s)(r := (SCHED_FIFO, 99)),
      linux_state_of := (linux_state_of s)(r := TASK_RUNNING)\<rparr>"

lemma dispatcher_round:
  assumes "mp2_inv_on A s" and "all_known s"
    and "\<exists>b \<in> set (mp2_head s). ready_at (task_cache s) b \<and> period_at (task_cache s) b < INT_MAX"
  shows "\<exists>a x r. rm_choice (task_cache s) (mp2_head s) a \<and> task_cache s a = Some x \<and> task x = Some r
     \<and> thread_fn s = Inr (dispatched a x r s)"
proof -
  let ?s = "s\<lparr>dispatcher_awake := False\<rparr>"
  obtain a where sel: "select_task (task_cache s) (mp2_head s) None INT_MAX = Inr (Some a)"
      and rm: "rm_choice (task_cache s) (mp2_head s) a"
    using select_task_spec [OF mp2_inv_live [OF assms(1)], of None INT_MAX] assms(3) by auto
  obtain x where x: "task_cache s a = Some x"
    using rm_choice_mem [OF rm] mp2_inv_live [OF assms(1)] by blast
  obtain r where r: "task x = Some r" using assms(2) x by (blast dest: all_knownD)
  have "preempt_running x ?s = Inr (?s\<lparr>task_cache := preempted x ?s, sched_class := demoted x ?s\<rparr>)"
    using assms(1,2) by (intro preempt_running_result) (auto simp: all_known_def mp2_inv_on_def)
  moreover have "preempted x ?s = preempted x s" "demoted x ?s = demoted x s"
    by (simp_all add: preempted_def demoted_def Let_def fun_eq_iff split: option.splits)
  moreover have "preempted x s a = Some x" using x by (simp add: preempted_def)
  ultimately have "thread_fn s = Inr (dispatched a x r s)"
    using sel x r run_task_result [of "?s\<lparr>task_cache := preempted x s, sched_class := demoted x s\<rparr>" a x r]
    by (simp add: thread_fn_def Let_def dispatched_def)
  then show ?thesis using rm x r by blast
qed

text \<open>Two tasks, the first of them in a given state and recorded as running.\<close>

definition demo_two :: "int \<Rightarrow> int \<Rightarrow> mp2_state" where
  "demo_two st_a per_b = demo_init
     \<lparr>task_cache := [1 \<mapsto> (demo_task 11 100 20)\<lparr>task_state := st_a\<rparr>,
                     2 \<mapsto> (demo_task 22 per_b 20)\<lparr>task_state := READY\<rparr>],
      mp2_head := [2, 1], running_mptask := Some 1\<rparr>"

lemma demo_two_simps [simp]:
  "mp2_head (demo_two st per) = [2, 1]" "running_mptask (demo_two st per) = Some 1"
  "task_cache (demo_two st per) 1 = Some ((demo_task 11 100 20)\<lparr>task_state := st\<rparr>)"
  "task_cache (demo_two st per) (Suc 0) = Some ((demo_task 11 100 20)\<lparr>task_state := st\<rparr>)"
  "task_cache (demo_two st per) 2 = Some ((demo_task 22 per 20)\<lparr>task_state := READY\<rparr>)"
  "dom (task_cache (demo_two st per)) = {1, 2}"
  by (auto simp: demo_two_def)

lemma demo_two_inv:
  "st \<in> {0, 1, 2} \<Longrightarrow> c_int per \<Longrightarrow> mp2_inv (demo_two st per) \<and> all_known (demo_two st per)"
  by (auto simp: mp2_inv_def all_known_def ran_def demo_two_def task_ok_def c_ints_def c_int_def
           split: if_splits)



text \<open>The state of the task that was running before a round, after it.\<close>

lemma dispatcher_old_running:
  assumes "mp2_inv s" and "all_known s" and "running_mptask s = Some b"
    and "task_cache s b = Some y" and "task_state y \<noteq> READY"
    and "\<exists>b \<in> set (mp2_head s). ready_at (task_cache s) b \<and> period_at (task_cache s) b < INT_MAX"
  shows "\<exists>t a x. thread_fn s = Inr t \<and> rm_choice (task_cache s) (mp2_head s) a
     \<and> task_cache s a = Some x \<and> a \<noteq> b \<and> task_cache t a = Some (x\<lparr>task_state := RUNNING\<rparr>)
     \<and> task_cache t b = Some (if period x < period y then y\<lparr>task_state := READY\<rparr> else y)"
proof -
  obtain a x r where rm: "rm_choice (task_cache s) (mp2_head s) a" and x: "task_cache s a = Some x"
      and t: "thread_fn s = Inr (dispatched a x r s)"
    using dispatcher_round [OF assms(1,2,6)] by blast
  have "ready_at (task_cache s) a" using rm by (auto simp: rm_choice_def)
  with x assms(4,5) have "a \<noteq> b" by auto
  with t rm x assms(3,4) show ?thesis
    by (intro exI [of _ "dispatched a x r s"] exI [of _ a] exI [of _ x]) (simp add: preempted_def dispatched_def)
qed

text \<open>
  The dispatcher does not compare the chosen task with the running one: when every ready
  task has at least the period of a task that is RUNNING, a round still starts one of them, and
  afterwards two tasks are in state RUNNING.
\<close>

theorem dispatcher_two_running:
  assumes "mp2_inv s" and "all_known s" and "running_mptask s = Some b"
    and "task_cache s b = Some y" and "task_state y = RUNNING"
    and "\<exists>b \<in> set (mp2_head s). ready_at (task_cache s) b \<and> period_at (task_cache s) b < INT_MAX"
    and "\<And>a. a \<in> set (mp2_head s) \<Longrightarrow> ready_at (task_cache s) a \<Longrightarrow> period y \<le> period_at (task_cache s) a"
  shows "\<exists>t a. thread_fn s = Inr t \<and> a \<noteq> b
     \<and> task_state (the (task_cache t a)) = RUNNING \<and> task_state (the (task_cache t b)) = RUNNING"
proof -
  obtain t a x where t: "thread_fn s = Inr t" and rm: "rm_choice (task_cache s) (mp2_head s) a"
      and x: "task_cache s a = Some x" "a \<noteq> b" "task_cache t a = Some (x\<lparr>task_state := RUNNING\<rparr>)"
      and b: "task_cache t b = Some (if period x < period y then y\<lparr>task_state := READY\<rparr> else y)"
    using dispatcher_old_running [OF assms(1-4) _ assms(6)] assms(5) by auto
  have "ready_at (task_cache s) a" using rm by (auto simp: rm_choice_def)
  with assms(7) [OF rm_choice_mem [OF rm]] x have "\<not> period x < period y" by simp
  with t x b assms(5) show ?thesis by (intro exI [of _ t] exI [of _ a]) simp
qed

theorem dispatcher_two_running_witness:
  "\<exists>t a. thread_fn (demo_two RUNNING 200) = Inr t \<and> a \<noteq> 1
     \<and> task_state (the (task_cache t a)) = RUNNING \<and> task_state (the (task_cache t 1)) = RUNNING"
  by (rule dispatcher_two_running [where y = "(demo_task 11 100 20)\<lparr>task_state := RUNNING\<rparr>"])
     (use demo_two_inv [of 2 200] in \<open>auto simp: INT_MAX_def c_int_def\<close>)

text \<open>
  Preemption ignores whether the task recorded as running has already yielded: a task that
  sleeps until its next period is made READY when a ready task with a shorter period is started,
  with its timer still pending.
\<close>

theorem dispatcher_wakes_sleeping:
  assumes "mp2_inv s" and "all_known s" and "running_mptask s = Some b"
    and "task_cache s b = Some y" and "task_state y = SLEEPING"
    and "c \<in> set (mp2_head s)" and "ready_at (task_cache s) c"
    and "period_at (task_cache s) c < period y"
  shows "\<exists>t. thread_fn s = Inr t \<and> task_cache t b = Some (y\<lparr>task_state := READY\<rparr>)"
proof -
  have "period y \<le> INT_MAX"
    using mp2_inv_task_ok [OF assms(1,4)] by (simp add: task_ok_def c_ints_def c_int_def INT_MAX_def)
  then have "\<exists>b \<in> set (mp2_head s). ready_at (task_cache s) b \<and> period_at (task_cache s) b < INT_MAX"
    using assms(6-8) by (intro bexI [of _ c]) auto
  then obtain t a x where t: "thread_fn s = Inr t" and rm: "rm_choice (task_cache s) (mp2_head s) a"
      and x: "task_cache s a = Some x"
      and b: "task_cache t b = Some (if period x < period y then y\<lparr>task_state := READY\<rparr> else y)"
    using dispatcher_old_running [OF assms(1-4)] assms(5) by auto
  have "period x \<le> period_at (task_cache s) c"
    using rm_choice_minimal [OF rm assms(6,7)] x by simp
  with t b assms(8) show ?thesis by simp
qed

theorem dispatcher_wakes_sleeping_witness:
  "\<exists>t. thread_fn (demo_two SLEEPING 50) = Inr t
     \<and> task_cache t 1 = Some ((demo_task 11 100 20)\<lparr>task_state := SLEEPING, task_state := READY\<rparr>)"
  by (rule dispatcher_wakes_sleeping [where c = 2])
     (use demo_two_inv [of 0 50] in \<open>simp_all add: c_int_def\<close>)

subsection \<open>Yielding\<close>

text \<open>\<open>a\<close> is the one registration of process \<open>p\<close>, with the record \<open>x\<close>.\<close>

definition sole :: "mp2_state \<Rightarrow> int \<Rightarrow> addr \<Rightarrow> mp_task_struct \<Rightarrow> bool" where
  "sole s p a x \<longleftrightarrow> mp2_inv s \<and> task_cache s a = Some x \<and> pid x = p \<and> task x \<noteq> None
     \<and> (\<forall>b \<in> set (mp2_head s). b \<noteq> a \<longrightarrow> pid (the (task_cache s b)) \<noteq> p)"

lemma sole_get: "sole s p a x \<Longrightarrow> get_task_by_pid (task_cache s) (mp2_head s) p = Inr (Some a)"
  using mp2_tab.get_unique [OF mp2_inv_live, of "{}" s a x p] by (auto simp: sole_def mp2_inv_def)

lemma sole_c_int: "sole s p a x \<Longrightarrow> c_int p"
  using mp2_inv_task_ok by (fastforce simp: sole_def task_ok_def c_ints_def)

definition after_yield :: "mp2_env \<Rightarrow> mp_task_struct \<Rightarrow> mp_task_struct" where
  "after_yield e x = (if next_release e x < jiffies_2 e then x\<lparr>next_period := next_release e x\<rparr>
                      else slept e x)"

lemma yield_message:
  assumes "sole s p a x" and "task x = Some r"
  shows "mp2_write e (yield_msg p) s = Inr (length (yield_msg p),
     if next_release e x < jiffies_2 e then s\<lparr>task_cache := (task_cache s)(a \<mapsto> after_yield e x)\<rparr>
     else s\<lparr>task_cache := (task_cache s)(a \<mapsto> after_yield e x), dispatcher_awake := True,
            linux_state_of := (linux_state_of s)(r := TASK_INTERRUPTIBLE)\<rparr>)"
proof -
  have "yield_handle e (yield_msg p @ [NUL]) s = Inr
    (if next_release e x < jiffies_2 e then s\<lparr>task_cache := (task_cache s)(a \<mapsto> after_yield e x)\<rparr>
     else s\<lparr>task_cache := (task_cache s)(a \<mapsto> after_yield e x), dispatcher_awake := True,
            linux_state_of := (linux_state_of s)(r := TASK_INTERRUPTIBLE)\<rparr>)"
    using assms sole_get [OF assms(1)] sole_c_int [OF assms(1)]
    by (simp add: yield_handle_unfold cstr_at_pid_msgs scan_pid_show sole_def Let_def
             after_yield_def slept_def)
  then show ?thesis by (simp add: mp2_write_def)
qed

lemma sole_after_yield:
  assumes "sole s p a x"
  shows "\<exists>t. mp2_write e (yield_msg p) s = Inr (length (yield_msg p), t)
           \<and> sole t p a (after_yield e x)"
proof -
  obtain r where r: "task x = Some r" using assms by (auto simp: sole_def)
  then obtain t where t: "mp2_write e (yield_msg p) s = Inr (length (yield_msg p), t)"
      and tc: "task_cache t = (task_cache s)(a \<mapsto> after_yield e x)" "mp2_head t = mp2_head s"
    using yield_message [OF assms] by simp
  have "yield_handle e (yield_msg p @ [NUL]) s = Inr t"
    using t by (auto simp: mp2_write_def bind_r_Inr_iff)
  then have "mp2_inv t" using assms by (auto simp: sole_def intro: yield_handle_inv)
  then have "sole t p a (after_yield e x)"
    using assms tc by (auto simp: sole_def after_yield_def slept_def)
  with t show ?thesis by blast
qed

text \<open>A sequence of yields of one process, each at its own time.\<close>

fun yields :: "int \<Rightarrow> mp2_env list \<Rightarrow> mp2_state \<Rightarrow> mp2_state result" where
  "yields p [] s = Inr s"
| "yields p (e # es) s = bind_r (mp2_write e (yield_msg p) s) (\<lambda>(n, t). yields p es t)"

lemma yields_started:
  assumes "sole s p a x" and "next_period x = base + of_nat k * T"
    and "\<And>e. e \<in> set es \<Longrightarrow> msecs_to_jiffies e (word_of_int (period x)) = T"
    and "\<And>i. k \<le> i \<Longrightarrow> i < k + length es \<Longrightarrow> base + of_nat i * T \<noteq> 0"
  shows "\<exists>t y. yields p es s = Inr t \<and> sole t p a y \<and> next_period y = base + of_nat (k + length es) * T"
  using assms
proof (induction es arbitrary: s x k)
  case Nil
  then show ?case by auto
next
  case (Cons e es)
  obtain t where t: "mp2_write e (yield_msg p) s = Inr (length (yield_msg p), t)"
      and sole: "sole t p a (after_yield e x)"
    using sole_after_yield [OF Cons.prems(1)] by blast
  have ne: "next_period x \<noteq> 0" using Cons.prems(2,4) by simp
  have np: "next_period (after_yield e x) = base + of_nat (Suc k) * T"
    using ne Cons.prems(2,3) by (simp add: after_yield_def slept_def next_release_def algebra_simps)
  have per: "period (after_yield e x) = period x" by (simp add: after_yield_def slept_def)
  have "\<exists>u y. yields p es t = Inr u \<and> sole u p a y
      \<and> next_period y = base + of_nat (Suc k + length es) * T"
    using Cons.prems(3,4) by (intro Cons.IH [OF sole np]) (auto simp: per)
  with t show ?case by simp
qed

text \<open>
  C17. The release times of a task do not drift: if the first yield of a task comes at time \<open>j\<close>
  and its period is \<open>T\<close> jiffies, then after \<open>n\<close> yields its next release is exactly
  \<open>j + n * T\<close>, no matter how late the yields come, and none of them faults.
\<close>

theorem yield_releases_do_not_drift:
  assumes "sole s p a x" and "next_period x = 0"
    and "\<And>e'. e' \<in> set (e # es) \<Longrightarrow> msecs_to_jiffies e' (word_of_int (period x)) = T"
    and "\<And>i. 0 < i \<Longrightarrow> i \<le> length es \<Longrightarrow> jiffies_1 e + of_nat i * T \<noteq> 0"
  shows "\<exists>t y. yields p (e # es) s = Inr t \<and> task_cache t a = Some y
           \<and> next_period y = jiffies_1 e + of_nat (Suc (length es)) * T"
proof -
  obtain t where t: "mp2_write e (yield_msg p) s = Inr (length (yield_msg p), t)"
      and sole: "sole t p a (after_yield e x)"
    using sole_after_yield [OF assms(1)] by blast
  have np: "next_period (after_yield e x) = jiffies_1 e + of_nat 1 * T"
    using assms(2,3) by (simp add: after_yield_def slept_def next_release_def)
  have per: "period (after_yield e x) = period x" by (simp add: after_yield_def slept_def)
  obtain u y where "yields p es t = Inr u" "sole u p a y"
      "next_period y = jiffies_1 e + of_nat (1 + length es) * T"
    using yields_started [OF sole np, of es] assms(3,4) by (auto simp: per)
  with t show ?thesis by (auto simp: sole_def)
qed

lemma demo_one_sole: "sole demo_one 11 1 (demo_task 11 100 20)"
  by (simp add: sole_def)

theorem yield_releases_do_not_drift_witness:
  "\<exists>t y. yields 11 [demo_env 0, demo_env 0, demo_env 0] demo_one = Inr t
     \<and> task_cache t 1 = Some y \<and> next_period y = jiffies_1 (demo_env 0) + of_nat (Suc 2) * 100"
proof -
  have "\<exists>t y. yields 11 (demo_env 0 # [demo_env 0, demo_env 0]) demo_one = Inr t
     \<and> task_cache t 1 = Some y
     \<and> next_period y = jiffies_1 (demo_env 0) + of_nat (Suc (length [demo_env 0, demo_env 0])) * 100"
  proof (rule yield_releases_do_not_drift [OF demo_one_sole])
    fix i :: nat assume "0 < i" and "i \<le> length [demo_env 0, demo_env 0]"
    then have "i = 1 \<or> i = 2" by auto
    then show "jiffies_1 (demo_env 0) + of_nat i * (100 :: u64) \<noteq> 0" by auto
  qed auto
  then show ?thesis by (simp add: numeral_2_eq_2)
qed

text \<open>
  A yield that is in time puts the process to sleep until exactly its next release: its
  timer is pending for that moment, its state is SLEEPING, the process is no longer runnable, the
  dispatcher is awake, and no other task changes.
\<close>

theorem yield_sleeps_until_release:
  assumes "sole s p a x" and "task x = Some r" and "\<not> next_release e x < jiffies_2 e"
  shows "\<exists>t. mp2_write e (yield_msg p) s = Inr (length (yield_msg p), t)
     \<and> task_cache t = (task_cache s)(a \<mapsto> x\<lparr>next_period := next_release e x,
          task_timer := Some (next_release e x), task_state := SLEEPING\<rparr>)
     \<and> linux_state_of t r = TASK_INTERRUPTIBLE \<and> dispatcher_awake t
     \<and> mp2_head t = mp2_head s \<and> running_mptask t = running_mptask s"
  using yield_message [OF assms(1,2), of e] assms(3) by (simp add: after_yield_def slept_def)

theorem yield_sleeps_until_release_witness:
  "\<exists>t. mp2_write (demo_env 0) (yield_msg 11) demo_one = Inr (length (yield_msg 11), t)
     \<and> task_cache t = (task_cache demo_one)(1 \<mapsto> (demo_task 11 100 20)
          \<lparr>next_period := next_release (demo_env 0) (demo_task 11 100 20),
           task_timer := Some (next_release (demo_env 0) (demo_task 11 100 20)),
           task_state := SLEEPING\<rparr>)
     \<and> linux_state_of t 11 = TASK_INTERRUPTIBLE \<and> dispatcher_awake t
     \<and> mp2_head t = mp2_head demo_one \<and> running_mptask t = running_mptask demo_one"
  by (rule yield_sleeps_until_release [OF demo_one_sole]) (simp_all add: next_release_def)

subsection \<open>The status file\<close>

definition mp2_body :: "mp_task_struct \<Rightarrow> string" where
  "mp2_body e = show_int (pid e) @ ''['' @ show_int (task_state e) @ '']: ''
     @ show_int (period e) @ '' ms, '' @ show_int (processing_time e) @ '' ms''"

lemma mp2_line_body: "mp2_line e = mp2_body e @ [newline]"
  by (simp add: mp2_line_def mp2_body_def)

lemma show_int_length: "c_int i \<Longrightarrow> length (show_int i) \<le> 11"
proof -
  assume "c_int i"
  then have "nat (- i) < 10 ^ 10" and "nat i < 10 ^ 10" by (auto simp: c_int_def)
  then have "length (show_nat (nat (- i))) \<le> 10" and "length (show_nat (nat i)) \<le> 10"
    by (simp_all add: show_nat_length_le)
  then show ?thesis by (simp add: show_int_def)
qed

lemma show_nat_no_newline [simp]: "newline \<notin> set (show_nat n)"
proof
  assume "newline \<in> set (show_nat n)"
  then have "isdigit newline" by (rule show_nat_digits)
  then show False by (simp add: isdigit_def)
qed

lemma show_int_no_newline [simp]: "newline \<notin> set (show_int i)"
  by (simp add: show_int_def)

lemma mp2_body_chars: "newline \<notin> set (mp2_body e)" "NUL \<notin> set (mp2_body e)"
  by (simp_all add: mp2_body_def)

lemma mp2_body_length: "task_ok e \<Longrightarrow> length (mp2_body e) \<le> 56"
proof -
  assume ok: "task_ok e"
  then have "c_int (pid e)" "c_int (period e)" "c_int (processing_time e)" "c_int (task_state e)"
    by (auto simp: task_ok_def c_ints_def c_int_def)
  then have "length (show_int (pid e)) \<le> 11" "length (show_int (period e)) \<le> 11"
      "length (show_int (processing_time e)) \<le> 11" "length (show_int (task_state e)) \<le> 11"
    by (simp_all add: show_int_length)
  then show ?thesis by (simp add: mp2_body_def)
qed

interpretation mp2_sl: status_loop "mp2_read_loop h" "\<lambda>a. mp2_line (the (h a))" 256
    "\<lambda>a. \<exists>x. h a = Some x \<and> task_ok x" for h
proof unfold_locales
  fix a assume "\<exists>x. h a = Some x \<and> task_ok x"
  then show "length (mp2_line (the (h a))) < 256"
    using mp2_body_length by (fastforce simp: mp2_line_body)
qed (auto simp: mp2_line_body mp2_body_chars)

definition mp2_text :: "mp2_state \<Rightarrow> string" where
  "mp2_text s = concat (map (\<lambda>a. mp2_line (the (task_cache s a))) (mp2_head s))"

lemma mp2_read_text:
  assumes "mp2_inv s" and "mp2_head s \<noteq> []" and "length buf = 2048" and "length (mp2_text s) < 2048"
  shows "mp2_read buf s 0 = Inr (mp2_text s @ [NUL], Suc (length (mp2_text s)))"
proof -
  have live: "\<And>a. a \<in> set (mp2_head s) \<Longrightarrow> \<exists>x. task_cache s a = Some x \<and> task_ok x"
    using assms(1) by (auto simp: mp2_inv_def)
  obtain r where "mp2_read_loop (task_cache s) (mp2_head s) buf 0 = Inr (mp2_text s @ NUL # r)"
    using mp2_sl.loop_text [where h = "task_cache s" and buf = buf, OF assms(2) live] assms(3,4)
    by (auto simp: mp2_text_def)
  moreover have "NUL \<notin> set (mp2_text s)"
    by (auto simp: mp2_text_def mp2_line_body mp2_body_chars)
  ultimately show ?thesis by (simp add: mp2_read_def strlen_cstr)
qed

text \<open>A line of the status file names the process it is about.\<close>

lemma mp2_line_target_pid:
  assumes "mp2_line y = status_target p per proc" and "c_int (pid y)" and "c_int p"
  shows "pid y = p"
proof -
  have scan: "scan_d (show_int i @ ''['' @ s) = Some (i, ''['' @ s)" if "c_int i" for i s
    using that by (intro scan_d_show_int) (simp_all add: isdigit_def)
  define u where "u = show_int (task_state y) @ '']: '' @ show_int (period y) @ '' ms, ''
    @ show_int (processing_time y) @ '' ms'' @ [newline]"
  define v where "v = ''0]: '' @ per @ '' ms, '' @ proc @ '' ms'' @ [newline]"
  have "show_int (pid y) @ ''['' @ u = show_int p @ ''['' @ v"
    using assms(1) by (simp add: mp2_line_def status_target_def u_def v_def)
  then have "Some (pid y, ''['' @ u) = Some (p, ''['' @ v)"
    using scan [OF assms(2), of u] scan [OF assms(3), of v] by (simp only:)
  then show ?thesis by simp
qed

lemma read_status_of_text:
  assumes "mp2_inv s" and "c_int p"
  shows "read_status (mp2_text s @ [NUL]) p per proc \<longleftrightarrow>
           (\<exists>a \<in> set (mp2_head s). mp2_line (the (task_cache s a)) = status_target p per proc)"
proof -
  let ?ls = "map (\<lambda>a. mp2_body (the (task_cache s a))) (mp2_head s)"
  have "mp2_text s = concat (map (\<lambda>l. l @ [newline]) ?ls)"
    by (simp add: mp2_text_def mp2_line_body comp_def)
  moreover have "length (mp2_body (the (task_cache s a))) < 254" if a: "a \<in> set (mp2_head s)" for a
  proof -
    obtain x where "task_cache s a = Some x" and "task_ok x"
      using a mp2_inv_live [OF assms(1)] mp2_inv_task_ok [OF assms(1)] by blast
    then show ?thesis using mp2_body_length [of x] by simp
  qed
  moreover have "status_target p per proc \<noteq> []" by (simp add: status_target_def)
  ultimately have "read_status_loop (status_target p per proc) (mp2_text s @ [NUL]) \<longleftrightarrow>
      (\<exists>l \<in> set ?ls. l @ [newline] = status_target p per proc)"
    using read_status_loop_lines [of ?ls "status_target p per proc"] mp2_body_chars by auto
  then show ?thesis by (simp add: read_status_def mp2_line_body)
qed


lemma demo_one_text: "length (mp2_text demo_one) < 2048"
  using mp2_body_length [of "demo_task 11 100 20"] mp2_inv_task_ok [OF demo_one_inv(1), of 1]
  by (simp add: mp2_text_def mp2_line_body)


subsection \<open>De-registration, errors, unloading\<close>

text \<open>
  De-registering the one registration of a process takes exactly that task off the list and
  frees it, together with its timer; the running-task pointer is cleared, and the dispatcher
  woken, if it pointed to it.
\<close>

theorem unregister_removes_task:
  assumes "sole s p a x"
  shows "\<exists>t. mp2_write e (unreg_msg p) s = Inr (length (unreg_msg p), t)
     \<and> mp2_head t = remove1 a (mp2_head s) \<and> task_cache t = (task_cache s)(a := None)
     \<and> running_mptask t = (if running_mptask s = Some a then None else running_mptask s)
     \<and> dispatcher_awake t = (running_mptask s = Some a \<or> dispatcher_awake s) \<and> mp2_inv t"
proof -
  let ?s' = "s\<lparr>mp2_head := remove1 a (mp2_head s), task_cache := (task_cache s)(a := None)\<rparr>"
  let ?t = "if running_mptask s = Some a
            then ?s'\<lparr>running_mptask := None, dispatcher_awake := True\<rparr> else ?s'"
  have x: "task_cache s a = Some x" and inv: "mp2_inv s" using assms by (simp_all add: sole_def)
  have run: "de_registration e (unreg_msg p @ [NUL]) s = Inr ?t"
    using x sole_get [OF assms] sole_c_int [OF assms]
    by (simp add: de_registration_def cstr_at_pid_msgs scan_pid_show Let_def)
  then have "mp2_inv ?t" using inv by (rule de_registration_inv)
  with run show ?thesis
    by (intro exI [of _ ?t]) (simp add: mp2_write_def)
qed

theorem unregister_removes_task_witness:
  "\<exists>t. mp2_write (demo_env 0) (unreg_msg 11) demo_one = Inr (length (unreg_msg 11), t)
     \<and> mp2_head t = remove1 1 (mp2_head demo_one) \<and> task_cache t = (task_cache demo_one)(1 := None)
     \<and> running_mptask t = (if running_mptask demo_one = Some 1 then None else running_mptask demo_one)
     \<and> dispatcher_awake t = (running_mptask demo_one = Some 1 \<or> dispatcher_awake demo_one) \<and> mp2_inv t"
  by (rule unregister_removes_task [OF demo_one_sole])

text \<open>
  The lookup is not checked: a yield or a de-registration of a process that is not
  registered dereferences a null pointer in the kernel, and a message of one or two bytes that
  starts with R, Y or D makes the parser read past the end of the buffer.
\<close>

theorem unchecked_messages_fault:
  assumes "mp2_inv s" and "c_int p"
    and "\<And>a. a \<in> set (mp2_head s) \<Longrightarrow> pid (the (task_cache s a)) \<noteq> p"
    and "c \<in> {CHR ''R'', CHR ''Y'', CHR ''D''}" and "length rest \<le> 1"
  shows "mp2_write e (yield_msg p) s = Inl NullDeref \<and> mp2_write e (unreg_msg p) s = Inl NullDeref
         \<and> mp2_write e (c # rest) s = Inl OutOfBounds"
proof -
  have get: "get_task_by_pid (task_cache s) (mp2_head s) p = Inr None"
    using mp2_tab.get_unregistered [OF mp2_inv_live [OF assms(1)]] assms(3) by blast
  then have "yield_handle e (yield_msg p @ [NUL]) s = Inl NullDeref"
      "de_registration e (unreg_msg p @ [NUL]) s = Inl NullDeref"
    using assms(2)
    by (simp_all add: yield_handle_unfold de_registration_def cstr_at_pid_msgs scan_pid_show)
  moreover have "cstr_at (c # rest @ [NUL]) 3 = Inl OutOfBounds"
    using assms(5) by (simp add: cstr_at_def)
  ultimately show ?thesis
    using assms(4)
    by (auto simp: mp2_write_def registration_unfold yield_handle_unfold de_registration_def)
qed

theorem unchecked_messages_fault_witness:
  "mp2_write (demo_env 0) (yield_msg 12) demo_one = Inl NullDeref
   \<and> mp2_write (demo_env 0) (unreg_msg 12) demo_one = Inl NullDeref
   \<and> mp2_write (demo_env 0) (CHR ''Y'' # '','') demo_one = Inl OutOfBounds"
  by (rule unchecked_messages_fault) (simp_all add: c_int_def)

lemma mp2_exit_loop_spec:
  assumes "distinct as" and "set as \<subseteq> dom (task_cache s)" and "mp2_head s = as"
  shows "mp2_exit_loop as s = Inr (s\<lparr>mp2_head := [], task_cache := task_cache s |` (- set as)\<rparr>)"
  using assms
proof (induction as arbitrary: s)
  case Nil
  then show ?case by simp
next
  case (Cons a as)
  let ?s = "s\<lparr>mp2_head := as, task_cache := (task_cache s)(a := None)\<rparr>"
  obtain x where "task_cache s a = Some x" using Cons.prems(2) by auto
  then have "mp2_exit_loop (a # as) s = mp2_exit_loop as ?s"
    using Cons.prems(3) by simp
  also have "\<dots> = Inr (?s\<lparr>mp2_head := [], task_cache := task_cache ?s |` (- set as)\<rparr>)"
    using Cons.prems by (intro Cons.IH) auto
  also have "task_cache ?s |` (- set as) = task_cache s |` (- set (a # as))"
    by (auto simp: restrict_map_def)
  finally show ?case by simp
qed

text \<open>
  Unloading the scheduler in any state with the invariant unlinks and frees every task, none
  of them twice: afterwards the list is empty and the slab cache holds no live object.
\<close>

theorem mp2_exit_frees_all:
  assumes "mp2_inv s"
  shows "\<exists>t. mp2_exit s = Inr t \<and> mp2_head t = [] \<and> task_cache t = Map.empty"
proof -
  have "task_cache s |` (- set (mp2_head s)) = Map.empty"
    using assms by (auto simp: mp2_inv_def restrict_map_def fun_eq_iff)
  then show ?thesis
    using mp2_exit_loop_spec [of "mp2_head s" "s\<lparr>dispatcher_awake := False\<rparr>"] assms
    by (simp add: mp2_exit_def mp2_inv_def)
qed

theorem mp2_exit_frees_all_witness:
  "\<exists>t. mp2_exit demo_one = Inr t \<and> mp2_head t = [] \<and> task_cache t = Map.empty"
  by (rule mp2_exit_frees_all) simp

lemma factorial_loop_zero: "factorial_loop n 0 = 0"
  by (induction n "0 :: u32" rule: factorial_loop.induct) (subst factorial_loop.simps, simp)

lemma factorial_loop_nonzero: "n \<noteq> 0 \<Longrightarrow> factorial_loop n val = 0"
proof (induction n val rule: factorial_loop.induct)
  case (1 n val)
  then show ?case
    by (subst factorial_loop.simps) (cases "n = 1"; simp add: factorial_loop_zero)
qed

text \<open>
  The work loop of the user program ends for every argument, and its product is 0 for every
  argument but 0: the last factor it multiplies by is the counter's final value 0.
\<close>

theorem factorial_is_zero: "factorial n = (if n = 0 then 1 else 0)"
  by (simp add: factorial_def factorial_loop_nonzero factorial_loop.simps [of 0])

end
