(* ===== verification/MP2_Session.thy ===== *)
theory MP2_Session
  imports MP2_Properties
begin

text \<open>
  A whole run of the MP2 user program against the module: \<^verbatim>\<open>main\<close> of \<^verbatim>\<open>src/MP2/userapp.c\<close> with its arguments
  and the processing time it measures, and the messages it writes, while timers, the dispatcher and
  other processes run in between.
\<close>

section \<open>The program\<close>

text \<open>
  The processing time the program registers: a fifth of the difference of the two microsecond
  readings, times 1.2 (the parameter \<open>times12\<close>, a conversion through floating point). The seconds
  are not looked at.
\<close>

definition safe_processtime :: "(int \<Rightarrow> int) \<Rightarrow> int \<Rightarrow> int \<Rightarrow> int" where
  "safe_processtime times12 start_usec end_usec = times12 (signed_divide (end_usec - start_usec) 5)"

text \<open>
  \<^verbatim>\<open>main\<close>: the exit status and the messages; \<open>found period proctime\<close> is the answer of \<^verbatim>\<open>read_status\<close>.
\<close>

definition userapp2_main ::
  "(int \<Rightarrow> int) \<Rightarrow> int \<Rightarrow> string list \<Rightarrow> int \<Rightarrow> int \<Rightarrow> (string \<Rightarrow> string \<Rightarrow> bool) \<Rightarrow> int \<times> string list" where
  "userapp2_main times12 p args start_usec end_usec found =
     (if length args \<noteq> 3 then (1, [])
      else let proctime = show_int (safe_processtime times12 start_usec end_usec);
               registered = found (args ! 0) proctime
           in (if registered then 0 else 1,
               userapp_main p (args ! 0) proctime (nat (atoi (args ! 1))) registered))"

text \<open>When a second ends between the two readings the measured time is negative.\<close>

lemma rollover_negative:
  assumes "end_usec + 5 \<le> start_usec" and "\<And>x. x < 0 \<Longrightarrow> times12 x < 0"
  shows "safe_processtime times12 start_usec end_usec < 0"
proof -
  have "1 \<le> (start_usec - end_usec) div 5" using assms(1) by simp
  then have "signed_divide (end_usec - start_usec) 5 < 0"
    using assms(1) by (simp add: signed_divide_int_def)
  then show ?thesis using assms(2) by (simp add: safe_processtime_def)
qed

section \<open>Other activity\<close>

text \<open>Messages in which the module does not read the pid \<open>p\<close>.\<close>

definition foreign :: "mp2_env \<Rightarrow> int \<Rightarrow> string \<Rightarrow> bool" where
  "foreign e p ubuf \<longleftrightarrow> (\<forall>str. cstr_at (ubuf @ [NUL]) 3 = Inr str \<longrightarrow>
     scan_pid e str \<noteq> p \<and> pid (new_mp_task e str) \<noteq> p)"

inductive other_step :: "int \<Rightarrow> mp2_state \<Rightarrow> mp2_state \<Rightarrow> bool" for p :: int where
  other_write: "env_ok e s \<Longrightarrow> foreign e p ubuf \<Longrightarrow> mp2_write e ubuf s = Inr (n, t) \<Longrightarrow> other_step p s t"
| other_timer: "task_cache s a = Some x \<Longrightarrow> task_timer x \<noteq> None \<Longrightarrow> fire_timer a s = Inr t \<Longrightarrow> other_step p s t"
| other_dispatch: "dispatcher_awake s \<Longrightarrow> thread_fn s = Inr t \<Longrightarrow> other_step p s t"

text \<open>The messages of the program, with other activity before each of them.\<close>

inductive app_run :: "int \<Rightarrow> string list \<Rightarrow> mp2_state \<Rightarrow> mp2_state \<Rightarrow> bool" for p :: int where
  app_start: "app_run p [] s s"
| app_other: "app_run p ms s t \<Longrightarrow> other_step p t u \<Longrightarrow> app_run p ms s u"
| app_message: "app_run p ms s t \<Longrightarrow> mp2_write e m t = Inr (n, u) \<Longrightarrow> app_run p (ms @ [m]) s u"

section \<open>The registration stays\<close>

lemma sole_same_params:
  assumes "sole s p a x" and "same_params s t" and "mp2_inv t"
  shows "\<exists>y. sole t p a y"
proof -
  have eq: "map_option params (task_cache t b) = map_option params (task_cache s b)" for b
    using assms(2) by (simp add: same_params_def)
  obtain y where y: "task_cache t a = Some y" "params y = params x"
    using eq [of a] assms(1) by (auto simp: sole_def)
  have "pid (the (task_cache t b)) \<noteq> p" if "b \<in> set (mp2_head t)" "b \<noteq> a" for b
  proof -
    have b: "b \<in> set (mp2_head s)" using that assms(2) by (simp add: same_params_def)
    then obtain z where "task_cache s b = Some z" using assms(1) by (auto simp: sole_def mp2_inv_def)
    moreover have "pid (the (task_cache s b)) \<noteq> p" using b that(2) assms(1) by (simp add: sole_def)
    ultimately show ?thesis using eq [of b] by (auto simp: params_def)
  qed
  then show ?thesis using y assms(1,3) by (auto simp: sole_def params_def)
qed

lemma sole_registration:
  assumes "sole s p a x" and "env_ok e s" and "foreign e p ubuf" and "registration e (ubuf @ [NUL]) s = Inr t"
    and "mp2_inv t"
  shows "\<exists>y. sole t p a y"
proof -
  obtain str where str: "cstr_at (ubuf @ [NUL]) 3 = Inr str"
    using assms(4) by (auto simp: registration_unfold bind_r_Inr_iff)
  have new: "task_cache s (slab_addr e) = None" using assms(2) by (simp add: env_ok_def)
  then have ne: "slab_addr e \<noteq> a" using assms(1) by (auto simp: sole_def)
  have "pid (new_mp_task e str) \<noteq> p" using assms(3) str by (simp add: foreign_def)
  moreover have "t = s\<lparr>task_cache := (task_cache s)(slab_addr e := None)\<rparr>
      \<or> t = s\<lparr>task_cache := (task_cache s)(slab_addr e \<mapsto> new_mp_task e str), mp2_head := slab_addr e # mp2_head s\<rparr>"
    using assms(4) str by (auto simp: registration_unfold Let_def bind_r_Inr_iff split: if_splits)
  ultimately have "sole t p a x" using assms(1,5) ne new by (auto simp: sole_def fun_upd_idem split: if_splits)
  then show ?thesis by blast
qed

lemma sole_de_registration:
  assumes "sole s p a x" and "foreign e p ubuf" and "de_registration e (ubuf @ [NUL]) s = Inr t" and "mp2_inv t"
  shows "\<exists>y. sole t p a y"
proof -
  obtain str b y where str: "cstr_at (ubuf @ [NUL]) 3 = Inr str"
      and get: "get_task_by_pid (task_cache s) (mp2_head s) (scan_pid e str) = Inr (Some b)"
      and b: "task_cache s b = Some y"
      and t: "mp2_head t = remove1 b (mp2_head s)" "task_cache t = (task_cache s)(b := None)"
    using assms(3)
    by (auto simp: de_registration_def bind_r_Inr_iff deref_Inr_iff kfree_def Let_def split: option.splits if_splits)
  have "distinct (mp2_head s)" "set (mp2_head s) \<subseteq> dom (task_cache s)" using assms(1) by (auto simp: sole_def mp2_inv_def)
  moreover have "scan_pid e str \<noteq> p" using assms(2) str by (simp add: foreign_def)
  ultimately have "b \<noteq> a"
    using mp2_tab.get_SomeD [OF _ get] assms(1) by (auto simp: sole_def)
  then have "sole t p a x" using assms(1,4) t \<open>distinct (mp2_head s)\<close> by (auto simp: sole_def)
  then show ?thesis by blast
qed

lemma sole_other:
  assumes "other_step p s t" and "sole s p a x"
  shows "\<exists>y. sole t p a y"
  using assms(1)
proof cases
  case (other_write e ubuf n)
  have inv: "mp2_inv t" using other_write assms(2) by (auto simp: sole_def intro: mp2_write_inv)
  from other_write(3) show ?thesis
  proof (cases rule: mp2_write_cases)
    case R
    then show ?thesis using sole_registration [OF assms(2) other_write(1,2) _ inv] by blast
  next
    case Y
    then show ?thesis using sole_same_params [OF assms(2) _ inv] yield_handle_params by blast
  next
    case D
    then show ?thesis using sole_de_registration [OF assms(2) other_write(2) _ inv] by blast
  qed (use assms(2) in blast)
next
  case (other_timer b y)
  then have "mp2_inv t" using mp2_step_inv [OF m2_timer] assms(2) by (auto simp: sole_def)
  then show ?thesis using other_timer sole_same_params [OF assms(2)] fire_timer_params by blast
next
  case other_dispatch
  then have "mp2_inv t" using mp2_step_inv [OF m2_dispatch] assms(2) by (auto simp: sole_def)
  then show ?thesis using other_dispatch sole_same_params [OF assms(2)] thread_fn_params by blast
qed

lemma app_run_sole:
  assumes "app_run p ms s t" and "sole s p a x" and "set ms \<subseteq> {yield_msg p}"
  shows "\<exists>y. sole t p a y"
  using assms
proof (induction rule: app_run.induct)
  case (app_other ms s t u)
  then show ?case using sole_other by blast
next
  case (app_message ms s t e m n u)
  then obtain y where y: "sole t p a y" and m: "m = yield_msg p" by auto
  then show ?case using sole_after_yield [OF y, of e] app_message.hyps by auto
qed blast

lemma sole_registered:
  assumes "mp2_inv s" and "env_ok e s" and "find_task_by_pid e p = Some k"
    and "\<And>b. b \<in> set (mp2_head s) \<Longrightarrow> pid (the (task_cache s b)) \<noteq> p"
    and "t = s\<lparr>task_cache := (task_cache s)(slab_addr e \<mapsto> requested e p q r), mp2_head := slab_addr e # mp2_head s\<rparr>"
    and "mp2_inv t"
  shows "sole t p (slab_addr e) (requested e p q r)"
  using assms by (auto simp: sole_def env_ok_def split: if_splits)

text \<open>The sole entry of a process, taken off the list.\<close>

lemma sole_unregister:
  assumes "sole s p a x"
  shows "\<exists>n t. mp2_write e (unreg_msg p) s = Inr (n, t)
     \<and> (\<forall>b \<in> set (mp2_head t). pid (the (task_cache t b)) \<noteq> p)"
proof -
  obtain t where "mp2_write e (unreg_msg p) s = Inr (length (unreg_msg p), t)"
      "mp2_head t = remove1 a (mp2_head s)" "task_cache t = (task_cache s)(a := None)"
    using unregister_removes_task [OF assms, of e] by blast
  then show ?thesis using assms by (auto simp: sole_def mp2_inv_def)
qed

section \<open>A whole run\<close>

lemma split_replicate:
  "ms @ m # later = replicate j y @ [z] \<Longrightarrow> set ms \<subseteq> {y} \<and> (if later = [] then m = z else m = y)"
proof (induction j arbitrary: ms)
  case 0
  then show ?case by (cases ms) auto
next
  case (Suc j)
  then show ?case by (cases ms) auto
qed



end
