(* ===== verification/MP2_Threads.thy ===== *)
theory MP2_Threads
  imports MP2_Properties
begin

text \<open>
  The scheduler module under concurrency, at the grain of its spin lock: every critical section of
  \<^verbatim>\<open>src/MP2/mp2.c\<close> is one step, and so is every part that runs without the lock. A registration is between its
  admission test and its \<^verbatim>\<open>list_add\<close>, a timer has expired and its callback waits for the lock, or a yield walks along
  the list or uses the task it has found, while other writers, callbacks and the dispatcher run.
\<close>

section \<open>Steps\<close>

text \<open>
  How far a yield has come: at a node of the list (or past its end), after the walk, and after
  \<^verbatim>\<open>mod_timer\<close>.
\<close>

datatype yield_pc = Walking int "addr option" | Found "addr option" | Armed "addr option"

text \<open>
  The module with the operations in progress: the objects that registrations have allocated and not linked
  yet, the pids whose callbacks wait for the lock, and the yields by thread.
\<close>

record mp2_threads =
  module2 :: mp2_state
  adding :: "addr list"
  callbacks :: "int list"
  yielders :: "nat \<Rightarrow> (mp2_env \<times> yield_pc) option"

definition threads_init :: "(nat \<Rightarrow> policy \<times> int) \<Rightarrow> (nat \<Rightarrow> linux_state) \<Rightarrow> mp2_threads" where
  "threads_init classes states =
     \<lparr>module2 = mp2_init classes states, adding = [], callbacks = [], yielders = (\<lambda>_. None)\<rparr>"

text \<open>
  The pointer to the next node as the unlocked walk reads it. An object that is allocated and not
  linked points to itself (\<^verbatim>\<open>INIT_LIST_HEAD\<close>).
\<close>

definition next_node :: "addr list \<Rightarrow> addr \<Rightarrow> addr option" where
  "next_node as a =
     (if a \<in> set as then (case dropWhile (\<lambda>b. b \<noteq> a) as of _ # b # _ \<Rightarrow> Some b | _ \<Rightarrow> None) else Some a)"

definition first_node :: "addr list \<Rightarrow> addr option" where
  "first_node as = (case as of [] \<Rightarrow> None | a # _ \<Rightarrow> Some a)"

text \<open>
  The relation has a parameter, a condition on the registrations that start. A step that would
  fault is not taken.
\<close>

inductive thread_step :: "(mp2_env \<Rightarrow> string \<Rightarrow> mp2_threads \<Rightarrow> bool) \<Rightarrow> mp2_threads \<Rightarrow> mp2_threads \<Rightarrow> bool"
  for ok :: "mp2_env \<Rightarrow> string \<Rightarrow> mp2_threads \<Rightarrow> bool" where
  t_check: "ok e buf s \<Longrightarrow> env_ok e (module2 s) \<Longrightarrow> reg_check e buf (module2 s) = Inr (r, m) \<Longrightarrow>
    thread_step ok s (s\<lparr>module2 := m, adding := (case r of None \<Rightarrow> adding s | Some a \<Rightarrow> a # adding s)\<rparr>)"
| t_add: "a \<in> set (adding s) \<Longrightarrow>
    thread_step ok s (s\<lparr>module2 := reg_add a (module2 s), adding := remove1 a (adding s)\<rparr>)"
| t_deregister: "de_registration e buf (module2 s) = Inr m \<Longrightarrow> thread_step ok s (s\<lparr>module2 := m\<rparr>)"
| t_expire: "task_cache (module2 s) a = Some x \<Longrightarrow> task_timer x \<noteq> None \<Longrightarrow>
    thread_step ok s (s\<lparr>module2 := (module2 s)\<lparr>task_cache := (task_cache (module2 s))(a \<mapsto> x\<lparr>task_timer := None\<rparr>)\<rparr>,
      callbacks := timer_pid x # callbacks s\<rparr>)"
| t_callback: "p \<in> set (callbacks s) \<Longrightarrow> mp2_timer_callback p (module2 s) = Inr m \<Longrightarrow>
    thread_step ok s (s\<lparr>module2 := m, callbacks := remove1 p (callbacks s)\<rparr>)"
| t_dispatch: "dispatcher_awake (module2 s) \<Longrightarrow> thread_fn (module2 s) = Inr m \<Longrightarrow>
    thread_step ok s (s\<lparr>module2 := m\<rparr>)"
| t_yield: "yielders s i = None \<Longrightarrow> cstr_at buf 3 = Inr str \<Longrightarrow>
    thread_step ok s (s\<lparr>yielders := (yielders s)(i \<mapsto> (e, Walking (scan_pid e str) (first_node (mp2_head (module2 s)))))\<rparr>)"
| t_walk: "yielders s i = Some (e, Walking p (Some a)) \<Longrightarrow> deref (task_cache (module2 s)) (Some a) = Inr x \<Longrightarrow>
    thread_step ok s (s\<lparr>yielders := (yielders s)(i \<mapsto>
      (e, if pid x = p then Found (Some a) else Walking p (next_node (mp2_head (module2 s)) a)))\<rparr>)"
| t_walk_end: "yielders s i = Some (e, Walking p None) \<Longrightarrow>
    thread_step ok s (s\<lparr>yielders := (yielders s)(i \<mapsto> (e, Found None))\<rparr>)"
| t_arm: "yielders s i = Some (e, Found r) \<Longrightarrow> yield_arm e r (module2 s) = Inr (armed, m) \<Longrightarrow>
    thread_step ok s (s\<lparr>module2 := m, yielders := (yielders s)(i := if armed then Some (e, Armed r) else None)\<rparr>)"
| t_sleep: "yielders s i = Some (e, Armed r) \<Longrightarrow> yield_sleep r (module2 s) = Inr m \<Longrightarrow>
    thread_step ok s (s\<lparr>module2 := m, yielders := (yielders s)(i := None)\<rparr>)"

inductive_cases thread_stepE: "thread_step ok s t"

section \<open>The invariant\<close>

definition sections_inv :: "mp2_threads \<Rightarrow> bool" where
  "sections_inv s \<longleftrightarrow> distinct (adding s) \<and> mp2_inv_on (set (adding s)) (module2 s)"

lemma yield_arm_cases:
  assumes "yield_arm e r s = Inr (armed, t)"
  obtains a x tm where "r = Some a" and "task_cache s a = Some x"
    and "t = s\<lparr>task_cache := (task_cache s)(a \<mapsto> x\<lparr>next_period := next_release e x, task_timer := tm\<rparr>)\<rparr>"
proof -
  obtain a x where a: "r = Some a" "task_cache s a = Some x"
    using assms by (auto simp: yield_arm_def bind_r_Inr_iff deref_Inr_iff)
  have "x\<lparr>next_period := n, task_timer := task_timer x\<rparr> = x\<lparr>next_period := n\<rparr>" for n by simp
  then show thesis
    using assms a that [OF a, of "task_timer x"] that [OF a, of "Some (next_release e x)"]
    by (auto simp: yield_arm_def Let_def split: if_splits)
qed

lemma yield_sleep_cases:
  assumes "yield_sleep r s = Inr t"
  obtains a x q where "r = Some a" and "task_cache s a = Some x"
    and "t = s\<lparr>task_cache := (task_cache s)(a \<mapsto> x\<lparr>task_state := SLEEPING\<rparr>), dispatcher_awake := True,
           linux_state_of := (linux_state_of s)(q := TASK_INTERRUPTIBLE)\<rparr>"
  using assms by (auto simp: yield_sleep_def bind_r_Inr_iff deref_Inr_iff Let_def split: option.splits)

lemma yield_arm_inv: "yield_arm e r s = Inr (armed, t) \<Longrightarrow> mp2_inv_on A s \<Longrightarrow> mp2_inv_on A t"
  by (erule yield_arm_cases) (auto simp: task_ok_def c_ints_def dest: mp2_inv_task_ok intro!: mp2_inv_update)

lemma yield_sleep_inv:
  assumes "yield_sleep r s = Inr t" and "mp2_inv_on A s"
  shows "mp2_inv_on A t"
  using assms(1)
proof (cases rule: yield_sleep_cases)
  case (1 a x q)
  have "mp2_inv_on A (s\<lparr>task_cache := (task_cache s)(a \<mapsto> x\<lparr>task_state := SLEEPING\<rparr>)\<rparr>)"
    using mp2_inv_task_ok [OF assms(2) 1(2)] by (intro mp2_inv_update [OF assms(2) 1(2)]) (simp add: task_ok_def c_ints_def)
  then show ?thesis by (simp add: 1(3))
qed

lemma sections_inv_step:
  assumes "thread_step ok s t" and "sections_inv s"
  shows "sections_inv t"
proof -
  have d: "distinct (adding s)" and inv: "mp2_inv_on (set (adding s)) (module2 s)"
    using assms(2) by (simp_all add: sections_inv_def)
  from assms(1) show ?thesis
  proof cases
    case (t_check e buf r m)
    have "slab_addr e \<notin> set (adding s)" using t_check(3) inv by (auto simp: env_ok_def mp2_inv_on_def)
    moreover have "r = None \<or> r = Some (slab_addr e)" using t_check(3,4) by (auto elim: reg_check_cases)
    ultimately show ?thesis
      using reg_check_inv [OF t_check(4,3) inv] t_check(1) d by (auto simp: sections_inv_def)
  next
    case (t_add a)
    then show ?thesis using reg_add_inv [OF inv t_add(2)] d by (simp add: sections_inv_def)
  next
    case (t_expire a x)
    then show ?thesis
      using mp2_inv_update [OF inv t_expire(2)] mp2_inv_task_ok [OF inv t_expire(2)] d
      by (simp add: sections_inv_def task_ok_def c_ints_def)
  qed (use d inv de_registration_inv mp2_timer_callback_inv thread_fn_inv yield_arm_inv yield_sleep_inv in
       \<open>auto simp: sections_inv_def\<close>)
qed

interpretation mp2_conc: transition_system "\<lambda>s. \<exists>c l. s = threads_init c l" "thread_step ok" sections_inv for ok
proof unfold_locales
  show "\<exists>c l. s = threads_init c l \<Longrightarrow> sections_inv s" for s
    by (auto simp: sections_inv_def threads_init_def mp2_inv_def mp2_init_def)
  show "sections_inv s \<Longrightarrow> thread_step ok s t \<Longrightarrow> sections_inv t" for s t by (rule sections_inv_step)
qed

section \<open>No locked section touches a freed object\<close>

lemma set_task_state_live: "set_task_state a st s = Inl f \<Longrightarrow> task_cache s a = Some x \<Longrightarrow> False"
  by (simp add: set_task_state_def)

lemma set_priority_fault: "set_priority x p q s = Inl f \<Longrightarrow> f = NullDeref"
  by (auto simp: set_priority_def split: option.splits)

lemma run_task_fault: "run_task a s = Inl f \<Longrightarrow> task_cache s a = Some x \<Longrightarrow> f = NullDeref"
  by (auto simp: run_task_def set_task_state_def wake_up_process_def set_priority_def bind_r_Inl_iff split: option.splits)

lemma thread_fn_fault:
  assumes "thread_fn s = Inl f" and "mp2_inv_on A s"
  shows "f = NullDeref"
proof -
  let ?s = "s\<lparr>dispatcher_awake := False\<rparr>"
  obtain c where c: "select_task (task_cache s) (mp2_head s) None INT_MAX = Inr c"
      and choice: "c \<noteq> None \<longrightarrow> (\<exists>a. c = Some a \<and> a \<in> set (mp2_head s))"
    using select_task_spec [OF mp2_inv_live [OF assms(2)], of None INT_MAX]
    by (auto dest: rm_choice_mem split: if_splits)
  have run: "\<exists>y. task_cache s b = Some y" if "running_mptask s = Some b" for b
    using that assms(2) by (auto simp: mp2_inv_on_def)
  show ?thesis
  proof (cases c)
    case None
    then show ?thesis using assms(1) c run
      by (auto simp: thread_fn_def Let_def split: option.splits dest: set_priority_fault)
  next
    case (Some a)
    then obtain x where x: "task_cache s a = Some x"
      using choice mp2_inv_live [OF assms(2)] by blast
    have pre: "f = NullDeref" if "preempt_running x ?s = Inl f"
      using that run
      by (auto simp: preempt_running_def set_task_state_def bind_r_Inl_iff split: option.splits if_splits dest: set_priority_fault)
    have "\<exists>y. task_cache u a = Some y" if "preempt_running x ?s = Inr u" for u
      using that x by (auto simp: preempt_running_def set_task_state_def set_priority_def bind_r_Inr_iff
          split: option.splits if_splits)
    then show ?thesis using assms(1) c Some x pre run_task_fault
      by (auto simp: thread_fn_def Let_def bind_r_Inl_iff)
  qed
qed

lemma mp2_read_loop_fault:
  "mp2_read_loop h as buf off = Inl f \<Longrightarrow> set as \<subseteq> dom h \<Longrightarrow> f = OutOfBounds"
proof (induction as arbitrary: buf off)
  case (Cons a as)
  then show ?case
    by (fastforce simp: bind_r_Inl_iff sprintf_into_def strcpy_at_def strlen_def split: if_splits)
qed simp

lemma mp2_read_fault: "mp2_read buf s pos = Inl f \<Longrightarrow> mp2_inv_on A s \<Longrightarrow> f = OutOfBounds"
  using mp2_read_loop_fault mp2_inv_live
  by (auto simp: mp2_read_def bind_r_Inl_iff strlen_def split: if_splits)

lemma util_loop_fault: "util_loop h as u = Inl f \<Longrightarrow> set as \<subseteq> dom h \<Longrightarrow> f = DivByZero"
  by (induction as arbitrary: u) (auto simp: bind_r_Inl_iff task_util_def c_div_def split: if_splits)

lemma reg_check_fault:
  assumes "reg_check e buf s = Inl f" and "mp2_inv_on A s"
  shows "f \<noteq> UseAfterFree"
proof -
  have "set (mp2_head s) \<subseteq> dom ((task_cache s)(slab_addr e \<mapsto> t))" for t using mp2_inv_live [OF assms(2)] by auto
  then show ?thesis
    using assms(1) util_loop_fault
    by (fastforce simp: reg_check_def Let_def bind_r_Inl_iff cstr_at_def admission_control_def task_util_def c_div_def
        split: if_splits)
qed

lemma lookup_find:
  "mp2_inv_on A s \<Longrightarrow> get_task_by_pid (task_cache s) (mp2_head s) p =
     Inr (List.find (\<lambda>a. pid (the (task_cache s a)) = p) (mp2_head s))"
  using mp2_tab.get_find [OF mp2_inv_live] by blast

lemma lookup_of_listed:
  assumes "mp2_inv_on A s" and "List.find (\<lambda>a. pid (the (task_cache s a)) = p) (mp2_head s) = Some a"
  shows "\<exists>x. task_cache s a = Some x"
  using find_SomeD [OF assms(2)] mp2_inv_live [OF assms(1)] by blast

lemma de_registration_fault:
  assumes "de_registration e buf s = Inl f" and "mp2_inv_on A s"
  shows "f \<noteq> UseAfterFree"
proof (cases "cstr_at buf 3")
  case (Inr str)
  show ?thesis
  proof (cases "List.find (\<lambda>a. pid (the (task_cache s a)) = scan_pid e str) (mp2_head s)")
    case (Some a)
    then show ?thesis using assms(1) lookup_of_listed [OF assms(2) Some] Inr
      by (auto simp: de_registration_def lookup_find [OF assms(2)] Let_def)
  qed (use assms Inr in \<open>auto simp: de_registration_def lookup_find\<close>)
qed (use assms(1) in \<open>auto simp: de_registration_def cstr_at_def split: if_splits\<close>)

text \<open>A callback faults exactly when its process is no longer registered, and then on a null pointer.\<close>

lemma mp2_timer_callback_fault:
  assumes "mp2_inv_on A s"
  shows "mp2_timer_callback p s = Inl f \<longleftrightarrow> f = NullDeref \<and> (\<forall>a \<in> set (mp2_head s). pid (the (task_cache s a)) \<noteq> p)"
proof (cases "List.find (\<lambda>a. pid (the (task_cache s a)) = p) (mp2_head s)")
  case None
  have "\<forall>a \<in> set (mp2_head s). pid (the (task_cache s a)) \<noteq> p" using None by (simp add: find_None_set)
  then show ?thesis using None by (auto simp: mp2_timer_callback_def lookup_find [OF assms])
next
  case (Some a)
  then show ?thesis using lookup_of_listed [OF assms Some] find_SomeD [OF Some]
    by (auto simp: mp2_timer_callback_def lookup_find [OF assms])
qed

section \<open>The utilisation when registrations do not overlap\<close>

text \<open>A registration starts when no other is between its two sections, and asks for numbers in range.\<close>

definition alone :: "mp2_env \<Rightarrow> string \<Rightarrow> mp2_threads \<Rightarrow> bool" where
  "alone e buf s \<longleftrightarrow> adding s = [] \<and> (\<forall>str. cstr_at buf 3 = Inr str \<longrightarrow> admissible (new_mp_task e str))"

text \<open>The list as it will be when the admitted object is linked.\<close>

definition admitted_view :: "mp2_threads \<Rightarrow> mp2_state" where
  "admitted_view s = (module2 s)\<lparr>mp2_head := adding s @ mp2_head (module2 s)\<rparr>"

definition admission_inv :: "mp2_threads \<Rightarrow> bool" where
  "admission_inv s \<longleftrightarrow> sections_inv s \<and> length (adding s) \<le> 1 \<and> util_inv (admitted_view s)"

lemma yield_arm_params: "yield_arm e r s = Inr (armed, t) \<Longrightarrow> same_params s t"
  by (erule yield_arm_cases) (auto simp: params_def intro!: same_params_update)

lemma yield_sleep_params: "yield_sleep r s = Inr t \<Longrightarrow> same_params s t"
  by (erule yield_sleep_cases) (auto simp: params_def intro!: same_params_update)

lemma same_params_view:
  assumes "same_params (module2 s) (module2 t)" and "adding t = adding s" and "admission_inv s"
  shows "util_inv (admitted_view t) \<and> length (adding t) \<le> 1"
proof -
  have "same_params (admitted_view s) (admitted_view t)"
    using assms(1,2) by (simp add: same_params_def admitted_view_def)
  moreover have "set (mp2_head (admitted_view s)) \<subseteq> dom (task_cache (admitted_view s))"
    using assms(3) by (auto simp: admission_inv_def sections_inv_def mp2_inv_on_def admitted_view_def)
  ultimately show ?thesis using same_params_util assms(2,3) by (auto simp: admission_inv_def)
qed

lemma check_view:
  assumes "alone e buf s" and "env_ok e (module2 s)" and "reg_check e buf (module2 s) = Inr (r, m)"
    and "admission_inv s"
    and t: "t = s\<lparr>module2 := m, adding := (case r of None \<Rightarrow> adding s | Some a \<Rightarrow> a # adding s)\<rparr>"
  shows "util_inv (admitted_view t) \<and> length (adding t) \<le> 1"
proof -
  have none: "adding s = []" using assms(1) by (simp add: alone_def)
  have u: "util_inv (module2 s)" using assms(4) none by (simp add: admission_inv_def admitted_view_def)
  have live: "set (mp2_head (module2 s)) \<subseteq> dom (task_cache (module2 s))"
    using assms(4) by (auto simp: admission_inv_def sections_inv_def dest: mp2_inv_live)
  obtain str where str: "cstr_at buf 3 = Inr str" using assms(3) by (auto simp: reg_check_def bind_r_Inr_iff)
  have adm: "admissible (new_mp_task e str)" using assms(1) str by (simp add: alone_def)
  have free: "task_cache (module2 s) (slab_addr e) = None" using assms(2) by (simp add: env_ok_def)
  then have new: "slab_addr e \<notin> set (mp2_head (module2 s))" using live by auto
  have out: "(r, m) = (if util_ppm (new_mp_task e str) + total_ppm (module2 s) \<le> 693000
      then (Some (slab_addr e), (module2 s)\<lparr>task_cache := (task_cache (module2 s))(slab_addr e \<mapsto> new_mp_task e str)\<rparr>)
      else (None, module2 s))"
    using reg_check_outcome [OF u live free str adm] assms(3) by simp
  show ?thesis
  proof (cases "util_ppm (new_mp_task e str) + total_ppm (module2 s) \<le> 693000")
    case True
    have v: "admitted_view t = (module2 s)\<lparr>task_cache := (task_cache (module2 s))(slab_addr e \<mapsto> new_mp_task e str),
        mp2_head := slab_addr e # mp2_head (module2 s)\<rparr>"
      using out True none by (simp add: t admitted_view_def)
    have "util_inv (admitted_view t)"
      using True u adm new total_ppm_add [OF new] unfolding v util_inv_def by auto
    then show ?thesis using out True none by (simp add: t)
  next
    case False
    then show ?thesis using out none u by (simp add: t admitted_view_def)
  qed
qed

lemma deregister_view:
  assumes "de_registration e buf (module2 s) = Inr m" and "admission_inv s"
  shows "util_inv (admitted_view (s\<lparr>module2 := m\<rparr>))"
proof -
  have inv: "mp2_inv_on (set (adding s)) (module2 s)" and d: "distinct (adding s)" and u: "util_inv (admitted_view s)"
    using assms(2) by (simp_all add: admission_inv_def sections_inv_def)
  from assms(1) mp2_inv_live [OF inv] show ?thesis
  proof (cases rule: de_registration_cases)
    case (1 a x)
    have "a \<notin> set (adding s)" using 1(1) inv by (auto simp: mp2_inv_on_def)
    then have m: "mp2_head (admitted_view (s\<lparr>module2 := m\<rparr>)) = remove1 a (mp2_head (admitted_view s))"
        "task_cache (admitted_view (s\<lparr>module2 := m\<rparr>)) = (task_cache (admitted_view s))(a := None)"
      unfolding 1(3) by (simp_all add: admitted_view_def remove1_append Let_def)
    show ?thesis
    proof (rule util_inv_remove [OF u _ _ _ m])
      show "distinct (mp2_head (admitted_view s))" using inv d by (auto simp: mp2_inv_on_def admitted_view_def)
      show "a \<in> set (mp2_head (admitted_view s))" using 1(1) by (simp add: admitted_view_def)
      show "task_cache (admitted_view s) a = Some x" using 1(2) by (simp add: admitted_view_def)
    qed
  qed
qed

lemma admission_inv_step:
  assumes "thread_step alone s t" and "admission_inv s"
  shows "admission_inv t"
proof -
  have "util_inv (admitted_view t) \<and> length (adding t) \<le> 1"
    using assms(1)
  proof cases
    case (t_check e buf r m)
    then show ?thesis using check_view assms(2) by blast
  next
    case (t_add a)
    then have "adding s = [a]" using assms(2) by (cases "adding s") (auto simp: admission_inv_def)
    then show ?thesis using assms(2) t_add by (simp add: admission_inv_def admitted_view_def reg_add_def)
  next
    case (t_deregister e buf m)
    then show ?thesis using deregister_view assms(2) by (simp add: admission_inv_def)
  qed (intro same_params_view [of s]; use assms(2) in \<open>auto intro!: same_params_update
        simp: params_def dest: mp2_timer_callback_params thread_fn_params yield_arm_params yield_sleep_params\<close>)+
  then show ?thesis using sections_inv_step [OF assms(1)] assms(2) by (simp add: admission_inv_def)
qed

interpretation mp2_alone: transition_system "\<lambda>s. \<exists>c l. s = threads_init c l" "thread_step alone" admission_inv
proof unfold_locales
  show "\<exists>c l. s = threads_init c l \<Longrightarrow> admission_inv s" for s
    by (auto simp: admission_inv_def sections_inv_def threads_init_def mp2_inv_def mp2_init_def admitted_view_def
        util_inv_def total_ppm_def)
  show "admission_inv s \<Longrightarrow> thread_step alone s t \<Longrightarrow> admission_inv t" for s t by (rule admission_inv_step)
qed

lemma linked_util:
  assumes "admission_inv s"
  shows "util_inv (module2 s)"
proof -
  let ?h = "mp2_head (module2 s)" and ?u = "\<lambda>a. util_ppm (the (task_cache (module2 s) a))"
  have u: "\<forall>a \<in> set (adding s @ ?h). admissible (the (task_cache (module2 s) a))"
      and le: "(\<Sum>a\<leftarrow>adding s @ ?h. ?u a) \<le> 693000"
    using assms by (auto simp: admission_inv_def util_inv_def admitted_view_def total_ppm_def)
  have "0 \<le> (\<Sum>a\<leftarrow>adding s. ?u a)" using u by (intro sum_list_nonneg) (auto intro: util_ppm_nonneg)
  then show ?thesis using u le by (auto simp: util_inv_def total_ppm_def)
qed

section \<open>Runs of the demo system\<close>

abbreviation any_step :: "mp2_threads \<Rightarrow> mp2_threads \<Rightarrow> bool" where
  "any_step \<equiv> thread_step (\<lambda>_ _ _. True)"

definition at_rest :: "mp2_state \<Rightarrow> mp2_threads" where
  "at_rest m = \<lparr>module2 = m, adding = [], callbacks = [], yielders = (\<lambda>_. None)\<rparr>"

lemma at_rest_simps [simp]:
  "module2 (at_rest m) = m" "adding (at_rest m) = []" "callbacks (at_rest m) = []" "yielders (at_rest m) i = None"
  by (simp_all add: at_rest_def)

lemma at_rest_init: "at_rest (mp2_init c l) = threads_init c l"
  by (simp add: at_rest_def threads_init_def)

lemma reg_check_msg:
  assumes "util_inv s" and "set (mp2_head s) \<subseteq> dom (task_cache s)" and "task_cache s a = None"
    and "c_int p" and "c_int q" and "c_int r" and "0 \<le> r" and "r \<le> 2147" and "0 < q"
    and "r * 1000000 div q + total_ppm s \<le> 693000"
  shows "reg_check (demo_env a) (reg_msg p (show_int q) (show_int r) @ [NUL]) s =
     Inr (Some a, s\<lparr>task_cache := (task_cache s)(a \<mapsto> demo_task p q r)\<rparr>)"
proof -
  let ?str = "show_int p @ '', '' @ show_int q @ '', '' @ show_int r @ [newline]"
  have n: "new_mp_task (demo_env a) ?str = demo_task p q r"
    using new_mp_task_reg [OF assms(4-6), of "demo_env a"] by (simp only: requested_demo)
  have adm: "admissible (new_mp_task (demo_env a) ?str)" unfolding n using assms(7-9) by (simp add: admissible_def)
  have str: "cstr_at (reg_msg p (show_int q) (show_int r) @ [NUL]) 3 = Inr ?str" by (rule cstr_at_reg) simp_all
  show ?thesis
    using reg_check_outcome [OF assms(1,2) _ str adm, unfolded n] assms(3,10) by (simp add: util_ppm_def)
qed

text \<open>Task 11, or tasks 11 and 22, with 20 ms in 100 each.\<close>

definition demo_pair :: mp2_state where
  "demo_pair = demo_one\<lparr>task_cache := [1 \<mapsto> demo_task 11 100 20, 2 \<mapsto> demo_task 22 100 20], mp2_head := [2, 1]\<rparr>"

lemma demo_one_threads:
  assumes "ok (demo_env 1) (reg_msg 11 (show_int 100) (show_int 20) @ [NUL]) (at_rest demo_init)"
  shows "(thread_step ok)\<^sup>*\<^sup>* (at_rest demo_init) (at_rest demo_one)"
proof -
  let ?m = "demo_init\<lparr>task_cache := [1 \<mapsto> demo_task 11 100 20]\<rparr>"
  have "thread_step ok (at_rest demo_init) ((at_rest ?m)\<lparr>adding := [1]\<rparr>)"
    using t_check [of ok, OF assms demo_env_ok, of "Some 1" ?m] reg_check_msg [of demo_init 1 11 100 20]
    by (simp add: c_int_def total_ppm_def at_rest_def)
  moreover have "thread_step ok ((at_rest ?m)\<lparr>adding := [1]\<rparr>) (at_rest demo_one)"
    using t_add [of 1 "(at_rest ?m)\<lparr>adding := [1]\<rparr>" ok] by (simp add: at_rest_def reg_add_def demo_one_def)
  ultimately show ?thesis by auto
qed

lemma demo_pair_threads: "any_step\<^sup>*\<^sup>* (at_rest demo_init) (at_rest demo_pair)"
proof -
  let ?m = "demo_one\<lparr>task_cache := [1 \<mapsto> demo_task 11 100 20, 2 \<mapsto> demo_task 22 100 20]\<rparr>"
  have "reg_check (demo_env 2) (reg_msg 22 (show_int 100) (show_int 20) @ [NUL]) demo_one = Inr (Some 2, ?m)"
    using reg_check_msg [of demo_one 2 22 100 20] by (simp add: c_int_def total_ppm_def util_ppm_def fun_upd_twist)
  then have "any_step (at_rest demo_one) ((at_rest ?m)\<lparr>adding := [2]\<rparr>)"
    using t_check [OF TrueI demo_env_ok, of "at_rest demo_one" 2 _ "Some 2" ?m] by (simp add: at_rest_def)
  moreover have "any_step ((at_rest ?m)\<lparr>adding := [2]\<rparr>) (at_rest demo_pair)"
    using t_add [of 2 "(at_rest ?m)\<lparr>adding := [2]\<rparr>" "\<lambda>_ _ _. True"] by (simp add: at_rest_def reg_add_def demo_pair_def)
  ultimately show ?thesis using demo_one_threads [of "\<lambda>_ _ _. True"] by (meson rtranclp.rtrancl_into_rtrancl)
qed

text \<open>Task 11 has found its node and armed its timer for time 1100.\<close>

definition demo_armed :: mp2_threads where
  "demo_armed = (at_rest (demo_one\<lparr>task_cache :=
      [1 \<mapsto> (demo_task 11 100 20)\<lparr>next_period := 1100, task_timer := Some 1100\<rparr>]\<rparr>))
     \<lparr>yielders := [0 \<mapsto> (demo_env 1, Armed (Some 1))]\<rparr>"

lemma demo_armed_threads: "any_step\<^sup>*\<^sup>* (at_rest demo_init) demo_armed"
proof -
  let ?s = "\<lambda>pc. (at_rest demo_one)\<lparr>yielders := [0 \<mapsto> (demo_env 1, pc)]\<rparr>"
  have pid: "scan_pid (demo_env 1) (show_int 11) = 11" by (simp add: scan_pid_show c_int_def)
  have "any_step (at_rest demo_one) (?s (Walking 11 (Some 1)))"
    using t_yield [of "at_rest demo_one" 0 _ _ _ "demo_env 1", OF _ cstr_at_pid_msgs(1) [of 11]] pid
    by (simp add: at_rest_def first_node_def)
  moreover have "any_step (?s (Walking 11 (Some 1))) (?s (Found (Some 1)))"
    using t_walk [of "?s (Walking 11 (Some 1))" 0 "demo_env 1" 11 1 "demo_task 11 100 20" "\<lambda>_ _ _. True"]
    by (simp add: at_rest_def)
  moreover have "any_step (?s (Found (Some 1))) demo_armed"
    using t_arm [of "?s (Found (Some 1))" 0 "demo_env 1" "Some 1" True _ "\<lambda>_ _ _. True"]
    by (simp add: at_rest_def yield_arm_def next_release_def demo_armed_def)
  ultimately show ?thesis using demo_one_threads [of "\<lambda>_ _ _. True"] by (meson rtranclp.rtrancl_into_rtrancl)
qed

text \<open>The timer of task 11 has expired and its callback waits for the lock.\<close>

definition demo_expired :: mp2_threads where
  "demo_expired = (at_rest (demo_one\<lparr>task_cache := [1 \<mapsto> (demo_task 11 100 20)\<lparr>next_period := 1100\<rparr>]\<rparr>))
     \<lparr>callbacks := [11], yielders := [0 \<mapsto> (demo_env 1, Armed (Some 1))]\<rparr>"

lemma demo_task_timer_None: "(demo_task p q r)\<lparr>next_period := n, task_timer := None\<rparr> = (demo_task p q r)\<lparr>next_period := n\<rparr>"
  by (simp add: demo_task_def requested_def)

lemma demo_expired_threads: "any_step\<^sup>*\<^sup>* (at_rest demo_init) demo_expired"
proof -
  have "any_step demo_armed demo_expired"
    using t_expire [of demo_armed 1 "(demo_task 11 100 20)\<lparr>next_period := 1100, task_timer := Some 1100\<rparr>" "\<lambda>_ _ _. True"]
    by (simp add: demo_armed_def demo_expired_def at_rest_def demo_task_timer_None)
  then show ?thesis using demo_armed_threads by (meson rtranclp.rtrancl_into_rtrancl)
qed

lemma callback_after_free:
  "\<exists>s. any_step\<^sup>*\<^sup>* (at_rest demo_init) s \<and> 11 \<in> set (callbacks s) \<and> mp2_timer_callback 11 (module2 s) = Inl NullDeref"
proof -
  let ?s = "demo_expired\<lparr>module2 := demo_init\<rparr>"
  have "de_registration (demo_env 1) (unreg_msg 11 @ [NUL]) (module2 demo_expired) = Inr demo_init"
    by (simp add: de_registration_def cstr_at_pid_msgs scan_pid_show c_int_def demo_expired_def)
       (simp add: demo_one_def)
  then have "any_step demo_expired ?s" by (rule t_deregister)
  moreover have "11 \<in> set (callbacks ?s)" "mp2_timer_callback 11 (module2 ?s) = Inl NullDeref"
    by (simp_all add: demo_expired_def mp2_timer_callback_def)
  ultimately show ?thesis using demo_expired_threads by (meson rtranclp.rtrancl_into_rtrancl)
qed

lemma yield_after_free:
  "\<exists>s e p a. any_step\<^sup>*\<^sup>* (at_rest demo_init) s \<and> yielders s 0 = Some (e, Walking p (Some a))
     \<and> deref (task_cache (module2 s)) (Some a) = Inl UseAfterFree"
proof -
  let ?s = "(at_rest demo_pair)\<lparr>yielders := [0 \<mapsto> (demo_env 1, Walking 11 (Some 2))]\<rparr>"
  have "any_step (at_rest demo_pair) ?s"
    using t_yield [of "at_rest demo_pair" 0 _ _ _ "demo_env 1", OF _ cstr_at_pid_msgs(1) [of 11]]
    by (simp add: at_rest_def first_node_def scan_pid_show c_int_def demo_pair_def)
  moreover have "de_registration (demo_env 1) (unreg_msg 22 @ [NUL]) (module2 ?s) = Inr (demo_one\<lparr>mp2_head := [1]\<rparr>)"
    by (simp add: de_registration_def cstr_at_pid_msgs scan_pid_show c_int_def demo_pair_def)
  then have "any_step ?s (?s\<lparr>module2 := demo_one\<lparr>mp2_head := [1]\<rparr>\<rparr>)" by (rule t_deregister)
  ultimately have "any_step\<^sup>*\<^sup>* (at_rest demo_init) (?s\<lparr>module2 := demo_one\<lparr>mp2_head := [1]\<rparr>\<rparr>)"
    using demo_pair_threads by (meson rtranclp.rtrancl_into_rtrancl)
  then show ?thesis
    by (intro exI [of _ "?s\<lparr>module2 := demo_one\<lparr>mp2_head := [1]\<rparr>\<rparr>"] exI [of _ "demo_env 1"] exI [of _ 11] exI [of _ 2]) simp
qed

lemma wake_up_lost:
  "\<exists>s a x r. any_step\<^sup>*\<^sup>* (at_rest demo_init) s \<and> callbacks s = [] \<and> yielders s = (\<lambda>_. None)
     \<and> mp2_head (module2 s) = [a] \<and> task_cache (module2 s) a = Some x \<and> task_state x = SLEEPING \<and> task_timer x = None
     \<and> task x = Some r \<and> linux_state_of (module2 s) r = TASK_INTERRUPTIBLE"
proof -
  let ?x = "(demo_task 11 100 20)\<lparr>next_period := 1100\<rparr>"
  let ?m = "demo_one\<lparr>task_cache := [1 \<mapsto> ?x\<lparr>task_state := READY\<rparr>], dispatcher_awake := True\<rparr>"
  let ?n = "?m\<lparr>task_cache := [1 \<mapsto> ?x\<lparr>task_state := SLEEPING\<rparr>], dispatcher_awake := True,
      linux_state_of := (linux_state_of ?m)(11 := TASK_INTERRUPTIBLE)\<rparr>"
  let ?s = "demo_expired\<lparr>module2 := ?m, callbacks := []\<rparr>"
  have "any_step demo_expired ?s"
    using t_callback [of 11 demo_expired ?m "\<lambda>_ _ _. True"] by (simp add: demo_expired_def mp2_timer_callback_def)
  moreover have "any_step ?s (at_rest ?n)"
    using t_sleep [of ?s 0 "demo_env 1" "Some 1" ?n "\<lambda>_ _ _. True"]
    by (simp add: demo_expired_def yield_sleep_def at_rest_def)
  ultimately have "any_step\<^sup>*\<^sup>* (at_rest demo_init) (at_rest ?n)"
    using demo_expired_threads by (meson rtranclp.rtrancl_into_rtrancl)
  then show ?thesis
    by (intro exI [of _ "at_rest ?n"] exI [of _ 1] exI [of _ "?x\<lparr>task_state := SLEEPING\<rparr>"] exI [of _ 11])
       (simp add: at_rest_def)
qed

section \<open>Properties\<close>

text \<open>
  C7. Writers, timers, callbacks and the dispatcher in any interleaving of the critical sections and of the
  unlocked parts: the list has no node twice, the live objects are those of the list and those of registrations
  between their two sections, and the running-task pointer is null or points to a listed task. So no critical
  section and no read of the status file touches a freed object. A callback that gets the lock faults exactly
  when no registered task has its pid any more, and then on a null pointer.
\<close>

theorem mp2_no_dangling_task:
  assumes "any_step\<^sup>*\<^sup>* (threads_init classes states) s" and "m = module2 s"
  shows "distinct (mp2_head m) \<and> set (mp2_head m) \<union> set (adding s) = dom (task_cache m)
     \<and> set (mp2_head m) \<inter> set (adding s) = {}
     \<and> (\<forall>a. running_mptask m = Some a \<longrightarrow> a \<in> set (mp2_head m))
     \<and> thread_fn m \<noteq> Inl UseAfterFree \<and> mp2_read buf m pos \<noteq> Inl UseAfterFree
     \<and> reg_check e msg m \<noteq> Inl UseAfterFree \<and> de_registration e msg m \<noteq> Inl UseAfterFree
     \<and> (mp2_timer_callback p m = Inl f \<longleftrightarrow>
          f = NullDeref \<and> (\<forall>a \<in> set (mp2_head m). pid (the (task_cache m a)) \<noteq> p))"
proof -
  have inv: "mp2_inv_on (set (adding s)) m"
    using mp2_conc.inv_reachable assms by (fastforce simp: sections_inv_def)
  have "thread_fn m \<noteq> Inl UseAfterFree" using thread_fn_fault [OF _ inv] by blast
  moreover have "mp2_read buf m pos \<noteq> Inl UseAfterFree" using mp2_read_fault [OF _ inv] by blast
  moreover have "reg_check e msg m \<noteq> Inl UseAfterFree" using reg_check_fault [OF _ inv] by blast
  moreover have "de_registration e msg m \<noteq> Inl UseAfterFree" using de_registration_fault [OF _ inv] by blast
  ultimately show ?thesis
    using inv [unfolded mp2_inv_on_def] mp2_timer_callback_fault [OF inv, of p f] by simp
qed

text \<open>A callback of task 11 that gets the lock while the task is registered does not fault.\<close>

theorem mp2_no_dangling_task_witness:
  "set (mp2_head (module2 demo_armed)) = dom (task_cache (module2 demo_armed))
   \<and> mp2_timer_callback 11 (module2 demo_armed) \<noteq> Inl NullDeref
   \<and> mp2_timer_callback 33 (module2 demo_armed) = Inl NullDeref"
  using mp2_no_dangling_task [OF demo_armed_threads [unfolded demo_init_def at_rest_init] refl, of "[]" 0 "demo_env 1" "[]" 11 NullDeref]
    mp2_no_dangling_task [OF demo_armed_threads [unfolded demo_init_def at_rest_init] refl, of "[]" 0 "demo_env 1" "[]" 33 NullDeref]
  by (simp add: demo_armed_def)



text \<open>
  C34. The admission test and the link are two critical sections. Two registrations, each admissible and each
  asking for 60 percent of the processor, that both test before either links are both admitted: the list then
  asks for 120 percent.
\<close>

theorem mp2_admission_race:
  "\<exists>s. any_step\<^sup>*\<^sup>* (threads_init (\<lambda>_. (SCHED_NORMAL, 0)) (\<lambda>_. TASK_RUNNING)) s
     \<and> adding s = [] \<and> total_ppm (module2 s) = 1200000
     \<and> list_all (\<lambda>a. admissible (the (task_cache (module2 s) a))) (mp2_head (module2 s))"
proof -
  let ?m1 = "demo_init\<lparr>task_cache := [1 \<mapsto> demo_task 11 100 60]\<rparr>"
  let ?m2 = "demo_init\<lparr>task_cache := [1 \<mapsto> demo_task 11 100 60, 2 \<mapsto> demo_task 22 100 60]\<rparr>"
  let ?m3 = "?m2\<lparr>mp2_head := [1]\<rparr>"
  let ?m4 = "?m2\<lparr>mp2_head := [2, 1]\<rparr>"
  have c1: "reg_check (demo_env 1) (reg_msg 11 (show_int 100) (show_int 60) @ [NUL]) demo_init = Inr (Some 1, ?m1)"
    using reg_check_msg [of demo_init 1 11 100 60] by (simp add: c_int_def total_ppm_def)
  have c2: "reg_check (demo_env 2) (reg_msg 22 (show_int 100) (show_int 60) @ [NUL]) ?m1 = Inr (Some 2, ?m2)"
    using reg_check_msg [of ?m1 2 22 100 60] by (simp add: c_int_def total_ppm_def util_inv_def fun_upd_twist)
  have "any_step (at_rest demo_init) ((at_rest ?m1)\<lparr>adding := [1]\<rparr>)"
    using t_check [OF TrueI demo_env_ok, of "at_rest demo_init" 1 _ "Some 1" ?m1] c1 by (simp add: at_rest_def)
  moreover have "any_step ((at_rest ?m1)\<lparr>adding := [1]\<rparr>) ((at_rest ?m2)\<lparr>adding := [2, 1]\<rparr>)"
    using t_check [OF TrueI demo_env_ok, of "(at_rest ?m1)\<lparr>adding := [1]\<rparr>" 2 _ "Some 2" ?m2] c2 by (simp add: at_rest_def)
  moreover have "any_step ((at_rest ?m2)\<lparr>adding := [2, 1]\<rparr>) ((at_rest ?m3)\<lparr>adding := [2]\<rparr>)"
    using t_add [of 1 "(at_rest ?m2)\<lparr>adding := [2, 1]\<rparr>" "\<lambda>_ _ _. True"] by (simp add: at_rest_def reg_add_def)
  moreover have "any_step ((at_rest ?m3)\<lparr>adding := [2]\<rparr>) (at_rest ?m4)"
    using t_add [of 2 "(at_rest ?m3)\<lparr>adding := [2]\<rparr>" "\<lambda>_ _ _. True"] by (simp add: at_rest_def reg_add_def)
  ultimately have "any_step\<^sup>*\<^sup>* (at_rest demo_init) (at_rest ?m4)"
    by (meson rtranclp.rtrancl_into_rtrancl rtranclp.rtrancl_refl)
  then show ?thesis
    by (intro exI [of _ "at_rest ?m4"]) (simp add: demo_init_def at_rest_init total_ppm_def util_ppm_def admissible_def)
qed

text \<open>
  C26. What can go wrong between the sections. A task that de-registers while the callback of its timer waits for
  the lock leaves a callback that dereferences the null pointer. A yield walks along the list without the lock,
  and a process that de-registers meanwhile frees the node the walk is at. A yield that is delayed between
  \<^verbatim>\<open>mod_timer\<close> and the assignment of the state overwrites the READY its timer has stored: the task then
  sleeps with no timer armed and no callback to come.
\<close>

theorem mp2_unlocked_races:
  assumes "init = threads_init (\<lambda>_. (SCHED_NORMAL, 0)) (\<lambda>_. TASK_RUNNING)"
  shows "(\<exists>s. any_step\<^sup>*\<^sup>* init s \<and> 11 \<in> set (callbacks s) \<and> mp2_timer_callback 11 (module2 s) = Inl NullDeref)
    \<and> (\<exists>s e p a. any_step\<^sup>*\<^sup>* init s \<and> yielders s 0 = Some (e, Walking p (Some a))
          \<and> deref (task_cache (module2 s)) (Some a) = Inl UseAfterFree)
    \<and> (\<exists>s a x r. any_step\<^sup>*\<^sup>* init s \<and> callbacks s = [] \<and> yielders s = (\<lambda>_. None)
          \<and> mp2_head (module2 s) = [a] \<and> task_cache (module2 s) a = Some x
          \<and> task_state x = SLEEPING \<and> task_timer x = None
          \<and> task x = Some r \<and> linux_state_of (module2 s) r = TASK_INTERRUPTIBLE)"
proof -
  have init: "at_rest demo_init = init" by (simp add: assms demo_init_def at_rest_init)
  show ?thesis using callback_after_free yield_after_free wake_up_lost unfolding init by blast
qed

theorem mp2_unlocked_races_witness:
  "\<exists>s. any_step\<^sup>*\<^sup>* (threads_init (\<lambda>_. (SCHED_NORMAL, 0)) (\<lambda>_. TASK_RUNNING)) s
     \<and> mp2_timer_callback 11 (module2 s) = Inl NullDeref"
  using mp2_unlocked_races [OF refl] by blast

end
