(* ===== verification/MP3_Profiler.thy ===== *)
theory MP3_Profiler
  imports C_Lib Task_Table
begin

text \<open>
  MP3: the page-fault profiler (\<^verbatim>\<open>src/MP3/mp3.c\<close>, \<^verbatim>\<open>src/MP3/mp3_given.h\<close>). Processes register
  through the proc file; while any is registered, a delayed work item runs every 50 ms, adds up
  the fault counts and CPU times of the registered processes since its last run, and appends one
  sample of four words to a buffer of 128 pages that is shared with user space.

  The process table with its counters is part of the state, because reading the counters resets
  them. The clock, the conversion of CPU time, \<^verbatim>\<open>find_task_by_pid\<close> and what the allocators return
  are arguments.

  The work function has two critical sections and re-queues itself after the second, so a writer
  can run between them. The state therefore records how far a running work item has come, and
  \<^verbatim>\<open>flush_workqueue\<close> is the wait that lets it run to its end.
\<close>

section \<open>State\<close>

definition PAGE_NUM :: nat where "PAGE_NUM = 128"
definition PAGE_SIZE :: nat where "PAGE_SIZE = 4096"

text \<open>The number of \<^verbatim>\<open>unsigned long\<close> words in the shared buffer.\<close>

definition buf_words :: nat where
  "buf_words = PAGE_NUM * PAGE_SIZE div 8"

record mp3_task =
  task3 :: "nat option"
  utilization :: u64
  major_fault :: u64
  minor_fault :: u64
  pid3 :: int

text \<open>The counters of a kernel task.\<close>

record counters =
  min_flt :: u64
  maj_flt :: u64
  utime :: u64
  stime :: u64

text \<open>
  How far the work item has come: not running, past the first critical section with its three
  sums, or past the second one.
\<close>

datatype worker = Idle | Summed u64 u64 u64 | Stored

record mp3_state =
  mp3_head :: "addr list"
  mp3_heap :: "addr \<rightharpoonup> mp3_task"
  mem_buf :: "u64 list"
  mem_buf_ptr :: nat
  work_pending :: bool
  mp3_worker :: worker
  procs :: "int \<rightharpoonup> counters"

section \<open>Operations\<close>

fun get_task_by_pid3 :: "(addr \<rightharpoonup> mp3_task) \<Rightarrow> addr list \<Rightarrow> int \<Rightarrow> addr option result" where
  "get_task_by_pid3 h [] p = Inr None"
| "get_task_by_pid3 h (a # as) p =
     bind_r (deref h (Some a)) (\<lambda>tmp. if pid3 tmp = p then Inr (Some a) else get_task_by_pid3 h as p)"

text \<open>
  \<^verbatim>\<open>get_cpu_use\<close>: the counters of a live process, which are reset; \<^term>\<open>None\<close> is its return value -1.
\<close>

definition zero_counters :: counters where
  "zero_counters = \<lparr>min_flt = 0, maj_flt = 0, utime = 0, stime = 0\<rparr>"

definition get_cpu_use3 :: "int \<Rightarrow> mp3_state \<Rightarrow> counters option \<times> mp3_state" where
  "get_cpu_use3 p s =
     (case procs s p of
        Some c \<Rightarrow> (Some c, s\<lparr>procs := (procs s)(p \<mapsto> zero_counters)\<rparr>)
      | None \<Rightarrow> (None, s))"

subsection \<open>The work function\<close>

text \<open>The loop of the work function over the registered processes: the three sums.\<close>

fun work_loop ::
  "addr list \<Rightarrow> mp3_state \<Rightarrow> u64 \<times> u64 \<times> u64 \<Rightarrow> (mp3_state \<times> u64 \<times> u64 \<times> u64) result" where
  "work_loop [] s sums = Inr (s, sums)"
| "work_loop (a # as) s (min_sum, maj_sum, cpu_sum) =
     bind_r (deref (mp3_heap s) (Some a)) (\<lambda>entry.
       (case get_cpu_use3 (pid3 entry) s of
          (None, s') \<Rightarrow> work_loop as s' (min_sum, maj_sum, cpu_sum)
        | (Some c, s') \<Rightarrow> work_loop as s'
            (min_sum + min_flt c, maj_sum + maj_flt c, cpu_sum + (utime c + stime c))))"

text \<open>The first critical section. The item is no longer pending once it runs.\<close>

definition work_sum :: "mp3_state \<Rightarrow> mp3_state result" where
  "work_sum s =
     bind_r (work_loop (mp3_head s) (s\<lparr>work_pending := False\<rparr>) (0, 0, 0))
       (\<lambda>(s', min_sum, maj_sum, cpu_sum). Inr (s'\<lparr>mp3_worker := Summed min_sum maj_sum cpu_sum\<rparr>))"

text \<open>\<^verbatim>\<open>mem_buf[mem_buf_ptr ++] = w\<close>: nothing compares the index with the size of the buffer.\<close>

definition store_word :: "u64 \<Rightarrow> mp3_state \<Rightarrow> mp3_state result" where
  "store_word w s =
     (if mem_buf_ptr s < length (mem_buf s)
      then Inr (s\<lparr>mem_buf := (mem_buf s)[mem_buf_ptr s := w], mem_buf_ptr := Suc (mem_buf_ptr s)\<rparr>)
      else Inl OutOfBounds)"

text \<open>
  The second critical section; \<open>to_msecs\<close> is \<^verbatim>\<open>jiffies_to_msecs (cputime_to_jiffies _)\<close>. The test
  that follows it only prints.
\<close>

definition work_store :: "(u64 \<Rightarrow> u64) \<Rightarrow> u64 \<Rightarrow> mp3_state \<Rightarrow> mp3_state result" where
  "work_store to_msecs jiffies s =
     (case mp3_worker s of
        Summed min_sum maj_sum cpu_sum \<Rightarrow>
          bind_r (store_word jiffies s) (\<lambda>s.
          bind_r (store_word min_sum s) (\<lambda>s.
          bind_r (store_word maj_sum s) (\<lambda>s.
          bind_r (store_word (to_msecs cpu_sum) s) (\<lambda>s. Inr (s\<lparr>mp3_worker := Stored\<rparr>)))))
      | _ \<Rightarrow> Inr s)"

text \<open>The last statement queues the item again.\<close>

definition work_requeue :: "mp3_state \<Rightarrow> mp3_state" where
  "work_requeue s = (case mp3_worker s of Stored \<Rightarrow> s\<lparr>work_pending := True, mp3_worker := Idle\<rparr> | _ \<Rightarrow> s)"

definition mp_work_func :: "(u64 \<Rightarrow> u64) \<Rightarrow> u64 \<Rightarrow> mp3_state \<Rightarrow> mp3_state result" where
  "mp_work_func to_msecs jiffies s =
     bind_r (work_sum s) (\<lambda>s. bind_r (work_store to_msecs jiffies s) (\<lambda>s. Inr (work_requeue s)))"

text \<open>
  \<^verbatim>\<open>cancel_delayed_work\<close> removes a pending item and does not touch a running one;
  \<^verbatim>\<open>flush_workqueue\<close> waits until a running item has returned.
\<close>

definition cancel_delayed_work :: "mp3_state \<Rightarrow> mp3_state" where
  "cancel_delayed_work s = s\<lparr>work_pending := False\<rparr>"

definition flush_workqueue :: "(u64 \<Rightarrow> u64) \<Rightarrow> u64 \<Rightarrow> mp3_state \<Rightarrow> mp3_state result" where
  "flush_workqueue to_msecs jiffies s =
     bind_r (work_store to_msecs jiffies s) (\<lambda>s. Inr (work_requeue s))"

subsection \<open>The proc file\<close>

definition scan_pid3 :: "int \<Rightarrow> string \<Rightarrow> int" where
  "scan_pid3 junk str = (case sscanf [Conv_d, Space] str of [] \<Rightarrow> junk | p # _ \<Rightarrow> p)"

text \<open>
  Registration looks at the list before it takes the lock, and links the node, and queues the work item if the
  list looked empty, under it. \<open>a\<close> is the address of the new node and \<open>junk\<close> what its pid field holds.
\<close>

definition list_empty3 :: "mp3_state \<Rightarrow> bool" where
  "list_empty3 s \<longleftrightarrow> mp3_head s = []"

definition reg3_add ::
  "(int \<rightharpoonup> nat) \<Rightarrow> addr \<Rightarrow> int \<Rightarrow> string \<Rightarrow> bool \<Rightarrow> mp3_state \<Rightarrow> mp3_state result" where
  "reg3_add find_task a junk buf empty_flag s =
     bind_r (cstr_at buf 2) (\<lambda>str.
       let p = scan_pid3 junk str;
           new_task = \<lparr>task3 = find_task p, utilization = 0, major_fault = 0, minor_fault = 0, pid3 = p\<rparr>
       in Inr (s\<lparr>mp3_heap := (mp3_heap s)(a \<mapsto> new_task), mp3_head := a # mp3_head s,
                work_pending := (empty_flag \<or> work_pending s)\<rparr>))"

definition registration3 ::
  "(int \<rightharpoonup> nat) \<Rightarrow> addr \<Rightarrow> int \<Rightarrow> string \<Rightarrow> mp3_state \<Rightarrow> mp3_state result" where
  "registration3 find_task a junk buf s = reg3_add find_task a junk buf (list_empty3 s) s"

text \<open>
  Unregistration unlinks the node under the lock; the result of the lookup is not tested. Without the lock it
  looks at the list, cancels the work item and waits for a running one if the list is empty, and frees the node.
\<close>

definition unreg3_unlink :: "int \<Rightarrow> string \<Rightarrow> mp3_state \<Rightarrow> (addr \<times> mp3_state) result" where
  "unreg3_unlink junk buf s =
     bind_r (cstr_at buf 2) (\<lambda>str.
     bind_r (get_task_by_pid3 (mp3_heap s) (mp3_head s) (scan_pid3 junk str)) (\<lambda>task_to_remove.
     bind_r (deref (mp3_heap s) task_to_remove) (\<lambda>_.
       Inr (the task_to_remove, s\<lparr>mp3_head := remove1 (the task_to_remove) (mp3_head s)\<rparr>))))"

definition unreg3_free :: "addr \<Rightarrow> mp3_state \<Rightarrow> mp3_state result" where
  "unreg3_free a s = bind_r (kfree (mp3_heap s) a) (\<lambda>h. Inr (s\<lparr>mp3_heap := h\<rparr>))"

definition unregistration3 ::
  "(u64 \<Rightarrow> u64) \<Rightarrow> u64 \<Rightarrow> int \<Rightarrow> string \<Rightarrow> mp3_state \<Rightarrow> mp3_state result" where
  "unregistration3 to_msecs jiffies junk buf s =
     bind_r (unreg3_unlink junk buf s) (\<lambda>(a, s1).
     bind_r (if list_empty3 s1 then flush_workqueue to_msecs jiffies (cancel_delayed_work s1) else Inr s1)
       (unreg3_free a))"

lemma registration3_unfold:
  "registration3 find_task a junk buf s =
     bind_r (cstr_at buf 2) (\<lambda>str.
       let p = scan_pid3 junk str;
           new_task = \<lparr>task3 = find_task p, utilization = 0, major_fault = 0, minor_fault = 0, pid3 = p\<rparr>
       in Inr (s\<lparr>mp3_heap := (mp3_heap s)(a \<mapsto> new_task), mp3_head := a # mp3_head s,
                work_pending := (mp3_head s = [] \<or> work_pending s)\<rparr>))"
  by (simp add: registration3_def reg3_add_def list_empty3_def)

lemma unregistration3_unfold:
  "unregistration3 to_msecs jiffies junk buf s =
     bind_r (cstr_at buf 2) (\<lambda>str.
     bind_r (get_task_by_pid3 (mp3_heap s) (mp3_head s) (scan_pid3 junk str)) (\<lambda>task_to_remove.
     bind_r (deref (mp3_heap s) task_to_remove) (\<lambda>_.
       let a = the task_to_remove; s1 = s\<lparr>mp3_head := remove1 a (mp3_head s)\<rparr>
       in bind_r (if mp3_head s1 = [] then flush_workqueue to_msecs jiffies (cancel_delayed_work s1)
                  else Inr s1) (\<lambda>s2.
          bind_r (kfree (mp3_heap s2) a) (\<lambda>h. Inr (s2\<lparr>mp3_heap := h\<rparr>))))))"
  by (auto simp: unregistration3_def unreg3_unlink_def unreg3_free_def list_empty3_def bind_r_def Let_def split: sum.splits)

definition mp3_write ::
  "(int \<rightharpoonup> nat) \<Rightarrow> (u64 \<Rightarrow> u64) \<Rightarrow> u64 \<Rightarrow> addr \<Rightarrow> int \<Rightarrow> string \<Rightarrow> mp3_state
     \<Rightarrow> (nat \<times> mp3_state) result" where
  "mp3_write find_task to_msecs jiffies a junk ubuf s =
     (let buf = ubuf @ [NUL] in
      bind_r (if hd buf = CHR ''R'' then registration3 find_task a junk buf s
              else if hd buf = CHR ''U'' then unregistration3 to_msecs jiffies junk buf s
              else Inr s) (\<lambda>s'. Inr (length ubuf, s')))"

text \<open>A read returns no bytes and moves nothing.\<close>

definition mp3_read :: "mp3_state \<Rightarrow> nat \<Rightarrow> string \<times> nat" where
  "mp3_read s pos = ([], pos)"

subsection \<open>Loading and unloading\<close>

text \<open>
  Loading clears the buffer before it tests the pointer, so a failed \<^verbatim>\<open>vmalloc\<close> is dereferenced.
\<close>

definition mp3_init :: "bool \<Rightarrow> (int \<rightharpoonup> counters) \<Rightarrow> mp3_state result" where
  "mp3_init vmalloc_ok ps =
     (if vmalloc_ok then Inr \<lparr>mp3_head = [], mp3_heap = Map.empty, mem_buf = replicate buf_words 0,
        mem_buf_ptr = 0, work_pending = False, mp3_worker = Idle, procs = ps\<rparr> else Inl NullDeref)"

text \<open>
  Unloading cancels the work item, waits for a running one, unlinks every node (without freeing
  it) and frees the buffer.
\<close>

definition mp3_exit :: "(u64 \<Rightarrow> u64) \<Rightarrow> u64 \<Rightarrow> mp3_state \<Rightarrow> mp3_state result" where
  "mp3_exit to_msecs jiffies s =
     bind_r (flush_workqueue to_msecs jiffies (cancel_delayed_work s)) (\<lambda>s1.
       Inr (s1\<lparr>mp3_head := fold remove1 (mp3_head s1) (mp3_head s1), mem_buf := []\<rparr>))"

interpretation mp3_tab: task_table get_task_by_pid3 pid3
  by unfold_locales simp_all

section \<open>The state between operations\<close>

text \<open>
  The invariant between operations that do not overlap: the list links exactly the live nodes, once each; while it is not empty the work
  item is pending or running, so sampling goes on; the buffer has its size and whole samples are
  stored in it.
\<close>

definition mp3_inv :: "mp3_state \<Rightarrow> bool" where
  "mp3_inv s \<longleftrightarrow> distinct (mp3_head s) \<and> dom (mp3_heap s) = set (mp3_head s)
     \<and> (mp3_head s \<noteq> [] \<longrightarrow> work_pending s \<or> mp3_worker s \<noteq> Idle)
     \<and> length (mem_buf s) = buf_words \<and> mem_buf_ptr s \<le> buf_words \<and> 4 dvd mem_buf_ptr s"

lemma buf_words_eq: "buf_words = 65536"
  by (simp add: buf_words_def PAGE_NUM_def PAGE_SIZE_def)

section \<open>The work function\<close>

text \<open>
  What the loop computes: for a set of pids, the sum of a counter over the live processes among
  them, and the process table with the counters of those processes reset. A process that is
  registered twice is counted once, since the second visit finds its counters reset.
\<close>

definition counter_total :: "(counters \<Rightarrow> u64) \<Rightarrow> int set \<Rightarrow> (int \<rightharpoonup> counters) \<Rightarrow> u64" where
  "counter_total f P ps = (\<Sum>p\<in>P. case ps p of None \<Rightarrow> 0 | Some c \<Rightarrow> f c)"

definition reset_counters :: "int set \<Rightarrow> (int \<rightharpoonup> counters) \<Rightarrow> int \<rightharpoonup> counters" where
  "reset_counters P ps = (\<lambda>p. if p \<in> P then map_option (\<lambda>_. zero_counters) (ps p) else ps p)"

abbreviation pid_at :: "mp3_state \<Rightarrow> addr \<Rightarrow> int" where
  "pid_at s a \<equiv> pid3 (the (mp3_heap s a))"

abbreviation cpu_time :: "counters \<Rightarrow> u64" where
  "cpu_time c \<equiv> utime c + stime c"

lemma reset_insert_None: "ps p = None \<Longrightarrow> reset_counters (insert p P) ps = reset_counters P ps"
  by (auto simp: reset_counters_def fun_eq_iff)

lemma reset_insert_Some:
  "ps p = Some c \<Longrightarrow> reset_counters (insert p P) ps = reset_counters P (ps(p \<mapsto> zero_counters))"
  by (auto simp: reset_counters_def fun_eq_iff)

lemma total_insert_None:
  "ps p = None \<Longrightarrow> finite P \<Longrightarrow> counter_total f (insert p P) ps = counter_total f P ps"
  by (cases "p \<in> P") (simp_all add: counter_total_def insert_absorb)

lemma total_insert_Some:
  assumes "ps p = Some c" and "finite P" and "f zero_counters = 0"
  shows "counter_total f (insert p P) ps = f c + counter_total f P (ps(p \<mapsto> zero_counters))"
proof -
  let ?g = "\<lambda>ps q. case ps q of None \<Rightarrow> 0 | Some c \<Rightarrow> f c"
  have "sum (?g (ps(p \<mapsto> zero_counters))) P = sum (?g (ps(p \<mapsto> zero_counters))) (P - {p})"
    using assms by (intro sum.mono_neutral_right) auto
  also have "\<dots> = sum (?g ps) (P - {p})" by (intro sum.cong) auto
  finally show ?thesis
    using assms sum.insert_remove [of P "?g ps" p] by (simp add: counter_total_def)
qed

lemma zero_counters_fields [simp]:
  "min_flt zero_counters = 0" "maj_flt zero_counters = 0"
  "utime zero_counters = 0" "stime zero_counters = 0"
  by (simp_all add: zero_counters_def)

lemma work_loop_sums:
  "set as \<subseteq> dom (mp3_heap s) \<Longrightarrow>
   work_loop as s (m, j, c) =
     (let P = pid_at s ` set as; ps = procs s in
      Inr (s\<lparr>procs := reset_counters P ps\<rparr>, m + counter_total min_flt P ps,
           j + counter_total maj_flt P ps, c + counter_total cpu_time P ps))"
proof (induction as arbitrary: s m j c)
  case Nil
  then show ?case by (simp add: counter_total_def reset_counters_def)
next
  case (Cons a as)
  then obtain e where e: "mp3_heap s a = Some e" by auto
  show ?case
  proof (cases "procs s (pid3 e)")
    case None
    then show ?thesis using Cons e
      by (simp add: get_cpu_use3_def Let_def total_insert_None reset_insert_None)
  next
    case (Some k)
    let ?s = "s\<lparr>procs := (procs s)(pid3 e \<mapsto> zero_counters)\<rparr>"
    have "work_loop (a # as) s (m, j, c) =
        work_loop as ?s (m + min_flt k, j + maj_flt k, c + cpu_time k)"
      using e Some by (simp add: get_cpu_use3_def)
    also have "\<dots> = (let P = pid_at s ` set as; ps = procs ?s in
      Inr (s\<lparr>procs := reset_counters P ps\<rparr>, m + min_flt k + counter_total min_flt P ps,
           j + maj_flt k + counter_total maj_flt P ps, c + cpu_time k + counter_total cpu_time P ps))"
      by (subst Cons.IH) (use Cons.prems in \<open>auto simp: Let_def\<close>)
    finally show ?thesis using e Some
      by (simp add: Let_def total_insert_Some reset_insert_Some add.assoc)
  qed
qed

lemma work_sum_live:
  assumes "set (mp3_head s) \<subseteq> dom (mp3_heap s)"
  shows "work_sum s =
    (let P = pid_at s ` set (mp3_head s); ps = procs s in
     Inr (s\<lparr>work_pending := False, procs := reset_counters P ps,
            mp3_worker := Summed (counter_total min_flt P ps) (counter_total maj_flt P ps)
                            (counter_total cpu_time P ps)\<rparr>))"
  using assms by (simp add: work_sum_def work_loop_sums Let_def)

lemma work_sum_eq:
  assumes "mp3_inv s"
  shows "work_sum s =
    (let P = pid_at s ` set (mp3_head s); ps = procs s in
     Inr (s\<lparr>work_pending := False, procs := reset_counters P ps,
            mp3_worker := Summed (counter_total min_flt P ps) (counter_total maj_flt P ps)
                            (counter_total cpu_time P ps)\<rparr>))"
  using assms by (intro work_sum_live) (simp add: mp3_inv_def)

text \<open>Four words in a row, or a store outside the buffer.\<close>

lemma length_4E:
  assumes "4 dvd (n::nat)" and "4 dvd k" and "n < k"
  shows "n + 4 \<le> k"
  using assms by presburger

lemma store_room:
  assumes "mp3_worker s = Summed m j c" and "mem_buf_ptr s + 4 \<le> length (mem_buf s)"
  shows "work_store f jiffies s =
    Inr (s\<lparr>mem_buf := take (mem_buf_ptr s) (mem_buf s) @ [jiffies, m, j, f c]
                      @ drop (mem_buf_ptr s + 4) (mem_buf s),
           mem_buf_ptr := mem_buf_ptr s + 4, mp3_worker := Stored\<rparr>)"
proof -
  let ?b = "mem_buf s" and ?n = "mem_buf_ptr s"
  have "?b[?n := jiffies, Suc ?n := m, Suc (Suc ?n) := j, Suc (Suc (Suc ?n)) := f c]
      = take ?n ?b @ [jiffies, m, j, f c] @ drop (?n + 4) ?b"
    using assms(2) by (intro nth_equalityI) (auto simp: nth_append nth_list_update nth_Cons
        intro!: arg_cong [where f = "(!) ?b"] split: nat.splits)
  then show ?thesis
    using assms by (simp add: work_store_def store_word_def add.commute)
qed

lemma store_full:
  assumes "mp3_worker s = Summed m j c" and "length (mem_buf s) \<le> mem_buf_ptr s"
  shows "work_store f jiffies s = Inl OutOfBounds"
  using assms by (simp add: work_store_def store_word_def)

section \<open>The invariant\<close>

lemma work_store_cases:
  assumes "work_store f jiffies s = Inr t" and "length (mem_buf s) = buf_words"
    and "4 dvd mem_buf_ptr s"
  shows "t = s \<or> (\<exists>b. length b = buf_words \<and> mem_buf_ptr s + 4 \<le> buf_words \<and> mp3_worker s \<noteq> Idle
           \<and> t = s\<lparr>mem_buf := b, mem_buf_ptr := mem_buf_ptr s + 4, mp3_worker := Stored\<rparr>)"
proof (cases "mp3_worker s")
  case (Summed m j c)
  have "mem_buf_ptr s < buf_words"
    using assms Summed store_full [of s m j c f jiffies] by (cases "buf_words \<le> mem_buf_ptr s") auto
  then have room: "mem_buf_ptr s + 4 \<le> buf_words"
    using assms(3) by (intro length_4E) (auto simp: buf_words_eq)
  then show ?thesis
    using assms Summed store_room [of s m j c f jiffies]
    by (intro disjI2 exI [of _ "take (mem_buf_ptr s) (mem_buf s) @ [jiffies, m, j, f c]
          @ drop (mem_buf_ptr s + 4) (mem_buf s)"]) simp
qed (use assms in \<open>auto simp: work_store_def\<close>)

lemma mp3_inv_store:
  assumes "mp3_inv s" and "work_store f jiffies s = Inr t"
  shows "mp3_inv t"
proof -
  have "length (mem_buf s) = buf_words" "4 dvd mem_buf_ptr s"
    using assms(1) by (simp_all add: mp3_inv_def)
  from work_store_cases [OF assms(2) this] assms(1) show ?thesis
    by (elim disjE exE conjE) (simp_all add: mp3_inv_def)
qed

lemma mp3_inv_requeue: "mp3_inv s \<Longrightarrow> mp3_inv (work_requeue s)"
  by (auto simp: mp3_inv_def work_requeue_def split: worker.splits)

lemma mp3_inv_sum:
  assumes "mp3_inv s" and "work_sum s = Inr t"
  shows "mp3_inv t"
  using assms(1) assms(2) [symmetric] unfolding work_sum_eq [OF assms(1)]
  by (simp add: mp3_inv_def Let_def)

lemma mp3_inv_registration:
  assumes "mp3_inv s" and "mp3_heap s a = None" and "registration3 g a junk buf s = Inr t"
  shows "mp3_inv t"
proof -
  have "a \<notin> set (mp3_head s)" using assms(1,2) by (auto simp: mp3_inv_def)
  moreover obtain str where "cstr_at buf 2 = Inr str"
    using assms(3) by (auto simp: registration3_unfold bind_r_Inr_iff)
  ultimately show ?thesis
    using assms(1) assms(3) [symmetric] by (simp add: mp3_inv_def registration3_unfold Let_def) blast
qed

lemma mp3_inv_flush:
  assumes "flush_workqueue f jiffies s = Inr t" and "mp3_inv s"
  shows "mp3_inv t \<and> mp3_head t = mp3_head s \<and> mp3_heap t = mp3_heap s"
proof -
  obtain u where u: "work_store f jiffies s = Inr u" "t = work_requeue u"
    using assms(1) by (auto simp: flush_workqueue_def bind_r_Inr_iff)
  have "mp3_head u = mp3_head s \<and> mp3_heap u = mp3_heap s"
    using work_store_cases [OF u(1)] assms(2) by (auto simp: mp3_inv_def)
  then show ?thesis
    using u mp3_inv_store [OF assms(2) u(1)] mp3_inv_requeue [of u]
    by (auto simp: work_requeue_def split: worker.splits)
qed

text \<open>A node is unlinked before the flush and freed after it; the buffer part does not notice.\<close>

lemma flush_heap_frame:
  "flush_workqueue f jiffies (s\<lparr>mp3_heap := h\<rparr>) =
     bind_r (flush_workqueue f jiffies s) (\<lambda>t. Inr (t\<lparr>mp3_heap := h\<rparr>))"
  by (simp add: flush_workqueue_def work_store_def work_requeue_def store_word_def split: worker.splits)

lemma work_requeue_heap [simp]: "mp3_heap (work_requeue s) = mp3_heap s"
  by (simp add: work_requeue_def split: worker.splits)

lemma store_word_heap: "store_word w s = Inr t \<Longrightarrow> mp3_heap t = mp3_heap s"
  by (auto simp: store_word_def split: if_splits)

lemma flush_keeps_heap: "flush_workqueue f jiffies s = Inr t \<Longrightarrow> mp3_heap t = mp3_heap s"
  by (cases "mp3_worker s")
     (auto simp: flush_workqueue_def work_store_def bind_r_Inr_iff dest!: store_word_heap)

lemma unregistration3_eq:
  assumes "mp3_inv s" and "cstr_at buf 2 = Inr str"
    and "get_task_by_pid3 (mp3_heap s) (mp3_head s) (scan_pid3 junk str) = Inr (Some a)"
  shows "unregistration3 f jiffies junk buf s =
    (let s1 = s\<lparr>mp3_head := remove1 a (mp3_head s), mp3_heap := (mp3_heap s)(a := None)\<rparr>
     in if mp3_head s1 = [] then flush_workqueue f jiffies (cancel_delayed_work s1) else Inr s1)"
proof -
  have "set (mp3_head s) \<subseteq> dom (mp3_heap s)" using assms(1) by (simp add: mp3_inv_def)
  from mp3_tab.get_SomeD [OF this assms(3)] obtain e where e: "mp3_heap s a = Some e" by blast
  let ?t = "cancel_delayed_work (s\<lparr>mp3_head := []\<rparr>)"
  have upd: "cancel_delayed_work (s\<lparr>mp3_head := [], mp3_heap := h\<rparr>) = ?t\<lparr>mp3_heap := h\<rparr>" for h
    by (simp add: cancel_delayed_work_def)
  show ?thesis
  proof (cases "remove1 a (mp3_head s) = []")
    case True
    have "mp3_heap ?t = mp3_heap s" by (simp add: cancel_delayed_work_def)
    then have "bind_r (flush_workqueue f jiffies ?t)
        (\<lambda>s2. bind_r (kfree (mp3_heap s2) a) (\<lambda>h. Inr (s2\<lparr>mp3_heap := h\<rparr>)))
      = bind_r (flush_workqueue f jiffies ?t) (\<lambda>t. Inr (t\<lparr>mp3_heap := (mp3_heap s)(a := None)\<rparr>))"
      using e by (cases "flush_workqueue f jiffies ?t") (auto dest: flush_keeps_heap)
    then show ?thesis using assms e True
      by (simp add: unregistration3_unfold Let_def upd flush_heap_frame)
  next
    case False
    then show ?thesis using assms e by (simp add: unregistration3_unfold Let_def)
  qed
qed

lemma mp3_inv_unregistration:
  assumes "mp3_inv s" and "unregistration3 f jiffies junk buf s = Inr t"
  shows "mp3_inv t"
proof -
  obtain str r where r: "cstr_at buf 2 = Inr str"
      "get_task_by_pid3 (mp3_heap s) (mp3_head s) (scan_pid3 junk str) = Inr r" "r \<noteq> None"
    using assms(2) by (auto simp: unregistration3_unfold bind_r_Inr_iff deref_Inr_iff)
  then obtain a where a: "r = Some a" by blast
  let ?s1 = "s\<lparr>mp3_head := remove1 a (mp3_head s), mp3_heap := (mp3_heap s)(a := None)\<rparr>"
  have eq: "Inr t = (if mp3_head ?s1 = [] then flush_workqueue f jiffies (cancel_delayed_work ?s1)
                     else Inr ?s1)"
    using unregistration3_eq [OF assms(1) r(1) r(2) [unfolded a]] assms(2)
    by (simp add: Let_def)
  have inv1: "mp3_inv ?s1" "mp3_head ?s1 = [] \<Longrightarrow> mp3_inv (cancel_delayed_work ?s1)"
    using assms(1) set_remove1_eq [of "mp3_head s" a]
    by (auto simp: mp3_inv_def cancel_delayed_work_def)
  show ?thesis
  proof (cases "mp3_head ?s1 = []")
    case True
    then show ?thesis using eq inv1 mp3_inv_flush by metis
  next
    case False
    then show ?thesis using eq inv1(1) by (simp split: if_splits)
  qed
qed

lemma mp3_inv_write:
  assumes "mp3_inv s" and "mp3_heap s a = None"
    and "mp3_write g f jiffies a junk ubuf s = Inr (n, t)"
  shows "mp3_inv t"
  using assms mp3_inv_registration [OF assms(1,2)] mp3_inv_unregistration [OF assms(1)]
  by (auto simp: mp3_write_def Let_def bind_r_Inr_iff split: if_splits)

lemma mp3_inv_init: "mp3_init ok ps = Inr s \<Longrightarrow> mp3_inv s"
  by (auto simp: mp3_init_def mp3_inv_def split: if_splits)

lemma mp3_inv_env:
  "mp3_inv s \<Longrightarrow> mp3_inv (s\<lparr>procs := ps\<rparr>)"
  "mp3_inv s \<Longrightarrow> length b = length (mem_buf s) \<Longrightarrow> mp3_inv (s\<lparr>mem_buf := b\<rparr>)"
  by (simp_all add: mp3_inv_def)

end
