(* ===== verification/MP3_Mmap.thy ===== *)
theory MP3_Mmap
  imports MP3_Profiler
begin

text \<open>
  The \<^verbatim>\<open>mmap\<close> operation of the MP3 character device (\<^verbatim>\<open>dev_mmap\<close> in \<^verbatim>\<open>src/MP3/mp3.c\<close>), which maps
  the sample buffer into a process page by page. The kernel's \<^verbatim>\<open>vmalloc_to_pfn\<close> and
  \<^verbatim>\<open>remap_pfn_range\<close> are parameters: \<open>pfn\<close> gives the frame of an address of the buffer, and
  \<open>fails start frame\<close> says whether a remapping is refused. The state is the list of the
  remappings that were made, in order. Addresses and sizes are \<^verbatim>\<open>unsigned long\<close>.

  The loop counts the size down to exactly zero, so it is a partial function; the theorems say
  for which sizes it returns.
\<close>

definition EINVAL :: int where "EINVAL = 22"
definition EAGAIN :: int where "EAGAIN = 11"

partial_function (option) dev_mmap_loop ::
  "(u64 \<Rightarrow> u64) \<Rightarrow> (u64 \<Rightarrow> u64 \<Rightarrow> bool) \<Rightarrow> u64 \<Rightarrow> u64 \<Rightarrow> u64 \<Rightarrow> (u64 \<times> u64) list
     \<Rightarrow> (int \<times> (u64 \<times> u64) list) option" where
  "dev_mmap_loop pfn fails start pos sz maps =
     (if sz > 0
      then if fails start (pfn pos) then Some (- EAGAIN, maps)
           else dev_mmap_loop pfn fails (start + of_nat PAGE_SIZE) (pos + of_nat PAGE_SIZE)
                  (sz - of_nat PAGE_SIZE) (maps @ [(start, pfn pos)])
      else Some (0, maps))"

declare dev_mmap_loop.simps [code]

definition dev_mmap ::
  "(u64 \<Rightarrow> u64) \<Rightarrow> (u64 \<Rightarrow> u64 \<Rightarrow> bool) \<Rightarrow> u64 \<Rightarrow> u64 \<Rightarrow> u64 \<Rightarrow> (int \<times> (u64 \<times> u64) list) option" where
  "dev_mmap pfn fails mem_buf_addr vm_start vm_end =
     (let sz = vm_end - vm_start in
      if sz > of_nat (PAGE_NUM * PAGE_SIZE) then Some (- EINVAL, [])
      else dev_mmap_loop pfn fails vm_start mem_buf_addr sz [])"

text \<open>
  The draft of the operation in \<^verbatim>\<open>src/MP3/mmap.c\<close>, which is not compiled: the size of the buffer is a macro
  that is nowhere defined (\<open>MMT_BUF_SIZE\<close>), and the remapping is \<^verbatim>\<open>remap_page_range\<close>. Its loop has the
  same steps.
\<close>

definition dev_mmap_draft ::
  "u64 \<Rightarrow> (u64 \<Rightarrow> u64) \<Rightarrow> (u64 \<Rightarrow> u64 \<Rightarrow> bool) \<Rightarrow> u64 \<Rightarrow> u64 \<Rightarrow> u64 \<Rightarrow> (int \<times> (u64 \<times> u64) list) option" where
  "dev_mmap_draft MMT_BUF_SIZE pfn fails buffer vm_start vm_end =
     (let start = vm_start; sz = vm_end - vm_start in
      if sz > MMT_BUF_SIZE then Some (- EINVAL, [])
      else let pos = buffer in dev_mmap_loop pfn fails start pos sz [])"

lemma dev_mmap_draft_eq: "dev_mmap_draft (of_nat (PAGE_NUM * PAGE_SIZE)) = dev_mmap"
  by (intro ext) (simp add: dev_mmap_draft_def dev_mmap_def Let_def)

text \<open>The remappings of the first \<open>n\<close> pages.\<close>

definition page_maps :: "(u64 \<Rightarrow> u64) \<Rightarrow> u64 \<Rightarrow> u64 \<Rightarrow> nat \<Rightarrow> (u64 \<times> u64) list" where
  "page_maps pfn start pos n =
     map (\<lambda>i. (start + of_nat (i * PAGE_SIZE), pfn (pos + of_nat (i * PAGE_SIZE)))) [0..<n]"

lemma page_maps_Suc:
  "page_maps pfn start pos (Suc n) =
     (start, pfn pos) # page_maps pfn (start + of_nat PAGE_SIZE) (pos + of_nat PAGE_SIZE) n"
proof -
  have "[0..<Suc n] = 0 # map Suc [0..<n]" by (simp add: map_Suc_upt upt_conv_Cons del: upt_Suc)
  then show ?thesis by (simp add: page_maps_def algebra_simps)
qed

lemma page_maps_0 [simp]: "page_maps pfn start pos 0 = []"
  by (simp add: page_maps_def)

text \<open>A whole number of pages that fits the address space counts down without wrapping.\<close>

lemma pages_word:
  assumes "n < 2 ^ 52"
  shows "(of_nat (n * PAGE_SIZE) :: u64) > 0 \<longleftrightarrow> n > 0"
  using assms by (simp add: word_less_nat_alt PAGE_SIZE_def unat_word_ariths unat_of_nat take_bit_nat_def)

lemma loop_maps:
  assumes "n < 2 ^ 52"
    and "\<And>i. i < n \<Longrightarrow> \<not> fails (start + of_nat (i * PAGE_SIZE)) (pfn (pos + of_nat (i * PAGE_SIZE)))"
  shows "dev_mmap_loop pfn fails start pos (of_nat (n * PAGE_SIZE)) maps
    = Some (0, maps @ page_maps pfn start pos n)"
  using assms
proof (induction n arbitrary: start pos maps)
  case 0
  then show ?case by (simp add: dev_mmap_loop.simps)
next
  case (Suc n)
  have pos: "(of_nat (Suc n * PAGE_SIZE) :: u64) > 0" using Suc.prems(1) by (subst pages_word) auto
  have "\<not> fails start (pfn pos)" using Suc.prems(2) [of 0] by simp
  then have "dev_mmap_loop pfn fails start pos (of_nat (Suc n * PAGE_SIZE)) maps
    = dev_mmap_loop pfn fails (start + of_nat PAGE_SIZE) (pos + of_nat PAGE_SIZE)
        (of_nat (n * PAGE_SIZE)) (maps @ [(start, pfn pos)])"
    using pos by (subst dev_mmap_loop.simps) simp
  also have "\<dots> = Some (0, (maps @ [(start, pfn pos)])
        @ page_maps pfn (start + of_nat PAGE_SIZE) (pos + of_nat PAGE_SIZE) n)"
    using Suc.prems(1) Suc.prems(2) [of "Suc _"] by (intro Suc.IH) (auto simp: algebra_simps)
  finally show ?case by (simp add: page_maps_Suc)
qed

lemma loop_fails:
  assumes "k < n" and "n < 2 ^ 52"
    and "\<And>i. i < k \<Longrightarrow> \<not> fails (start + of_nat (i * PAGE_SIZE)) (pfn (pos + of_nat (i * PAGE_SIZE)))"
    and "fails (start + of_nat (k * PAGE_SIZE)) (pfn (pos + of_nat (k * PAGE_SIZE)))"
  shows "dev_mmap_loop pfn fails start pos (of_nat (n * PAGE_SIZE)) maps
    = Some (- EAGAIN, maps @ page_maps pfn start pos k)"
  using assms
proof (induction k arbitrary: n start pos maps)
  case 0
  then show ?case using pages_word [of n] by (simp add: dev_mmap_loop.simps)
next
  case (Suc k)
  then obtain n' where n: "n = Suc n'" by (cases n) auto
  have pos: "(of_nat (n * PAGE_SIZE) :: u64) > 0" using Suc.prems(1,2) by (subst pages_word) auto
  have "\<not> fails start (pfn pos)" using Suc.prems(3) [of 0] by simp
  then have "dev_mmap_loop pfn fails start pos (of_nat (n * PAGE_SIZE)) maps
    = dev_mmap_loop pfn fails (start + of_nat PAGE_SIZE) (pos + of_nat PAGE_SIZE)
        (of_nat (n' * PAGE_SIZE)) (maps @ [(start, pfn pos)])"
    using pos n by (subst dev_mmap_loop.simps) simp
  also have "\<dots> = Some (- EAGAIN, (maps @ [(start, pfn pos)])
        @ page_maps pfn (start + of_nat PAGE_SIZE) (pos + of_nat PAGE_SIZE) k)"
    using Suc.prems n Suc.prems(3) [of "Suc _"] by (intro Suc.IH) (auto simp: algebra_simps)
  finally show ?case by (simp add: page_maps_Suc)
qed

text \<open>
  A size that is not a whole number of pages is never counted down to zero: unless a remapping
  fails, the loop does not return.
\<close>

lemma sub_page_dvd:
  assumes "4096 dvd unat ((sz::u64) - 4096)"
  shows "4096 dvd unat sz"
proof -
  have "unat (sz - 4096 + 4096) = (unat (sz - 4096) + 4096) mod 2 ^ 64"
    by (simp only: unat_word_ariths) simp
  then have "unat sz = (unat (sz - 4096) + 4096) mod 2 ^ 64" by simp
  moreover have "(4096::nat) dvd 2 ^ 64" by simp
  ultimately show ?thesis using assms by (metis dvd_add dvd_mod dvd_refl)
qed

lemma loop_returns_aligned:
  assumes "dev_mmap_loop pfn fails start pos sz maps = Some r" and "\<And>a b. \<not> fails a b"
  shows "4096 dvd unat sz"
proof -
  have "(\<forall>a b. \<not> fails a b) \<longrightarrow> 4096 dvd unat sz"
  proof (rule dev_mmap_loop.raw_induct
      [where P = "\<lambda>pfn fails start pos sz maps r. (\<forall>a b. \<not> fails a b) \<longrightarrow> 4096 dvd unat sz", OF _ assms(1)])
    fix loop :: "(u64 \<Rightarrow> u64) \<Rightarrow> (u64 \<Rightarrow> u64 \<Rightarrow> bool) \<Rightarrow> u64 \<Rightarrow> u64 \<Rightarrow> u64 \<Rightarrow> (u64 \<times> u64) list
        \<Rightarrow> (int \<times> (u64 \<times> u64) list) option"
    fix pfn fails start pos sz maps r
    assume IH: "\<And>pfn fails start pos sz maps r.
          loop pfn fails start pos sz maps = Some r \<Longrightarrow> (\<forall>a b. \<not> fails a b) \<longrightarrow> 4096 dvd unat sz"
      and eq: "(if 0 < sz then if fails start (pfn pos) then Some (- EAGAIN, maps)
          else loop pfn fails (start + of_nat PAGE_SIZE) (pos + of_nat PAGE_SIZE)
                 (sz - of_nat PAGE_SIZE) (maps @ [(start, pfn pos)]) else Some (0, maps)) = Some r"
    show "(\<forall>a b. \<not> fails a b) \<longrightarrow> 4096 dvd unat sz"
    proof (intro impI, cases "sz > 0")
      assume ok: "\<forall>a b. \<not> fails a b"
      case True
      then have "loop pfn fails (start + of_nat PAGE_SIZE) (pos + of_nat PAGE_SIZE)
                 (sz - of_nat PAGE_SIZE) (maps @ [(start, pfn pos)]) = Some r"
        using eq ok by simp
      from IH [OF this] ok have "4096 dvd unat (sz - of_nat PAGE_SIZE)" by blast
      then show "4096 dvd unat sz" by (simp add: PAGE_SIZE_def sub_page_dvd)
    qed (simp add: word_gt_0)
  qed
  then show ?thesis using assms(2) by simp
qed

end
