(* ===== verification/MP3_Monitor.thy ===== *)
theory MP3_Monitor
  imports MP3_Profiler
begin

text \<open>
  The reader of the MP3 sample buffer (\<^verbatim>\<open>src/MP3/monitor.c\<close>). It maps the buffer, looks for the first
  word that is not -1 among the first \<^verbatim>\<open>BUFD_MAX\<close>, and from there prints rows of four words, each
  overwritten by -1, until a row would start with -1. The index wraps at \<^verbatim>\<open>BUFD_MAX\<close>, which is
  smaller than the buffer. Words are printed with \<^verbatim>\<open>%ld\<close>, so the output is a list of rows of signed
  numbers. An index outside the mapping is a fault.
\<close>

definition BUFD_MAX :: nat where "BUFD_MAX = 48000"

text \<open>\<^verbatim>\<open>for (index = 0; index < BUFD_MAX; index++) if (buf[index] != -1) break;\<close>\<close>

function monitor_scan :: "u64 list \<Rightarrow> nat \<Rightarrow> nat result" where
  "monitor_scan buf index =
     (if index < BUFD_MAX
      then if index < length buf
           then if buf ! index \<noteq> - 1 then Inr index else monitor_scan buf (Suc index)
           else Inl OutOfBounds
      else Inr index)"
  by pat_completeness auto
termination by (relation "measure (\<lambda>(buf, index). BUFD_MAX - index)") auto

declare monitor_scan.simps [simp del]

text \<open>\<^verbatim>\<open>printf("%ld ", buf[index]); buf[index++] = -1; if (index >= BUFD_MAX) index = 0;\<close>\<close>

definition monitor_word :: "u64 list \<times> nat \<Rightarrow> (int \<times> u64 list \<times> nat) result" where
  "monitor_word = (\<lambda>(buf, index).
     if index < length buf
     then Inr (sint (buf ! index), buf[index := - 1], if BUFD_MAX \<le> Suc index then 0 else Suc index)
     else Inl OutOfBounds)"

definition monitor_row :: "u64 list \<times> nat \<Rightarrow> (int list \<times> u64 list \<times> nat) result" where
  "monitor_row s0 =
     bind_r (monitor_word s0) (\<lambda>(a, s1).
     bind_r (monitor_word s1) (\<lambda>(b, s2).
     bind_r (monitor_word s2) (\<lambda>(c, s3).
     bind_r (monitor_word s3) (\<lambda>(d, s4). Inr ([a, b, c, d], s4)))))"

text \<open>Every pass overwrites a word that is not -1, so the loop ends.\<close>

definition unread :: "u64 list \<Rightarrow> nat" where
  "unread buf = length (filter (\<lambda>w. w \<noteq> - 1) buf)"

lemma unread_update:
  "i < length buf \<Longrightarrow> unread (buf[i := - 1]) \<le> unread buf
    \<and> (buf ! i \<noteq> - 1 \<longrightarrow> unread (buf[i := - 1]) < unread buf)"
  by (induction buf arbitrary: i) (auto simp: unread_def nth_Cons split: nat.splits)

lemma monitor_word_unread:
  "monitor_word (buf, i) = Inr (w, buf', j) \<Longrightarrow> unread buf' \<le> unread buf
     \<and> (buf ! i \<noteq> - 1 \<longrightarrow> unread buf' < unread buf)"
  using unread_update by (auto simp: monitor_word_def split: if_splits)

lemma monitor_row_unread:
  assumes "monitor_row (buf, i) = Inr (ws, buf', j)" and "buf ! i \<noteq> - 1"
  shows "unread buf' < unread buf"
  using assms
  by (fastforce simp: monitor_row_def bind_r_Inr_iff dest!: monitor_word_unread split: prod.splits)

function monitor_loop :: "u64 list \<Rightarrow> nat \<Rightarrow> int list list \<Rightarrow> (int list list \<times> u64 list) result" where
  "monitor_loop buf index out =
     (if index < length buf
      then if buf ! index \<noteq> - 1
           then case monitor_row (buf, index) of
                  Inl e \<Rightarrow> Inl e
                | Inr (ws, buf', index') \<Rightarrow> monitor_loop buf' index' (out @ [ws])
           else Inr (out, buf)
      else Inl OutOfBounds)"
  by pat_completeness auto
termination
  by (relation "measure (\<lambda>(buf, index, out). unread buf)") (auto intro: monitor_row_unread)

declare monitor_loop.simps [simp del]

text \<open>
  The body of \<^verbatim>\<open>main\<close> on the mapped buffer: the printed rows (their number is the last line of the
  output) and the buffer afterwards.
\<close>

definition monitor_print :: "u64 list \<Rightarrow> (int list list \<times> u64 list) result" where
  "monitor_print buf = bind_r (monitor_scan buf 0) (\<lambda>index. monitor_loop buf index [])"

text \<open>
  \<^verbatim>\<open>buf_init\<close> opens the device, unless it is open, and maps it: \<open>fd\<close> is what \<^verbatim>\<open>open\<close> returns, \<open>mmap len fd\<close> the
  mapped words, or \<^term>\<open>None\<close> for \<^verbatim>\<open>MAP_FAILED\<close>. \<^verbatim>\<open>buf_exit\<close> closes the device.
\<close>

definition NPAGES :: int where "NPAGES = 128"

record monitor_file =
  buf_fd :: int
  buf_len :: int

definition buf_init ::
  "int \<Rightarrow> int \<Rightarrow> (int \<Rightarrow> int \<Rightarrow> u64 list option) \<Rightarrow> monitor_file \<Rightarrow> u64 list option \<times> monitor_file" where
  "buf_init pagesize fd mmap s =
     (let s' = (if buf_fd s = - 1 then s\<lparr>buf_len := s32 (NPAGES * pagesize), buf_fd := fd\<rparr> else s)
      in if buf_fd s = - 1 \<and> fd < 0 then (None, s') else (mmap (buf_len s') (buf_fd s'), s'))"

definition buf_exit :: "monitor_file \<Rightarrow> monitor_file" where
  "buf_exit s = (if buf_fd s \<noteq> - 1 then s\<lparr>buf_fd := - 1\<rparr> else s)"

text \<open>\<^verbatim>\<open>main\<close>: the exit status, the printed rows, the file state, and the buffer if it was mapped.\<close>

definition monitor_main ::
  "int \<Rightarrow> int \<Rightarrow> (int \<Rightarrow> int \<Rightarrow> u64 list option) \<Rightarrow> (int \<times> int list list \<times> monitor_file \<times> u64 list option) result" where
  "monitor_main pagesize fd mmap =
     (case buf_init pagesize fd mmap \<lparr>buf_fd = - 1, buf_len = 0\<rparr> of
        (None, s) \<Rightarrow> Inr (- 1, [], s, None)
      | (Some buf, s) \<Rightarrow> bind_r (monitor_print buf) (\<lambda>(rows, buf'). Inr (0, rows, buf_exit s, Some buf')))"

section \<open>What a run prints\<close>

fun rows4 :: "'a list \<Rightarrow> 'a list list" where
  "rows4 (a # b # c # d # xs) = [a, b, c, d] # rows4 xs"
| "rows4 xs = []"

lemma monitor_scan_skip:
  assumes "\<And>i. j \<le> i \<Longrightarrow> i < k \<Longrightarrow> buf ! i = - 1" and "j \<le> k" and "k \<le> BUFD_MAX" and "k \<le> length buf"
  shows "monitor_scan buf j = monitor_scan buf k"
  using assms(2,1)
proof (induction rule: inc_induct)
  case (step n)
  then have "monitor_scan buf n = monitor_scan buf (Suc n)"
    using assms(3,4) by (subst monitor_scan.simps) simp
  then show ?case using step by simp
qed simp

lemma monitor_word_at:
  "length p = i \<Longrightarrow> Suc i < BUFD_MAX \<Longrightarrow>
   monitor_word (p @ a # q, i) = Inr (sint a, p @ (- 1) # q, Suc i)"
  "length p = i \<Longrightarrow> Suc i = BUFD_MAX \<Longrightarrow>
   monitor_word (p @ a # q, i) = Inr (sint a, p @ (- 1) # q, 0)"
  by (auto simp: monitor_word_def nth_append list_update_append)

lemma BUFD_MAX_4: "4 dvd BUFD_MAX"
  by (simp add: BUFD_MAX_def)

lemma monitor_row_at:
  assumes "4 dvd n" and "length p = n" and "n < BUFD_MAX"
  shows "monitor_row (p @ [a, b, c, d] @ q, n) =
    Inr (map sint [a, b, c, d], p @ replicate 4 (- 1) @ q, (n + 4) mod BUFD_MAX)"
proof -
  have room: "n + 4 \<le> BUFD_MAX" using assms BUFD_MAX_4 by (intro length_4E) auto
  have 1: "monitor_word (p @ [a, b, c, d] @ q, n) = Inr (sint a, p @ - 1 # b # c # d # q, Suc n)"
    using monitor_word_at(1) [of p n a "b # c # d # q"] assms room by simp
  have 2: "monitor_word (p @ - 1 # b # c # d # q, Suc n)
      = Inr (sint b, p @ - 1 # - 1 # c # d # q, Suc (Suc n))"
    using monitor_word_at(1) [of "p @ [- 1]" "Suc n" b "c # d # q"] assms room by simp
  have 3: "monitor_word (p @ - 1 # - 1 # c # d # q, Suc (Suc n))
      = Inr (sint c, p @ - 1 # - 1 # - 1 # d # q, Suc (Suc (Suc n)))"
    using monitor_word_at(1) [of "p @ [- 1, - 1]" "Suc (Suc n)" c "d # q"] assms room by simp
  have 4: "monitor_word (p @ - 1 # - 1 # - 1 # d # q, Suc (Suc (Suc n)))
      = Inr (sint d, p @ - 1 # - 1 # - 1 # - 1 # q, (n + 4) mod BUFD_MAX)"
    using monitor_word_at [of "p @ [- 1, - 1, - 1]" "Suc (Suc (Suc n))" d q] assms room
    by (cases "n + 4 = BUFD_MAX") (simp_all add: numeral_eq_Suc)
  show ?thesis
    by (simp only: monitor_row_def 1 2 3 4 bind_r_simps prod.case) (simp add: numeral_eq_Suc)
qed

lemma rows4_Suc:
  assumes "length xs = 4 * Suc m"
  obtains a b c d ys where "xs = a # b # c # d # ys" and "length ys = 4 * m"
proof -
  have "length xs = Suc (Suc (Suc (Suc (4 * m))))" using assms by simp
  then show thesis by (auto simp: length_Suc_conv intro: that)
qed

lemma monitor_loop_rows:
  assumes "4 dvd n" and "length p = n" and "n < BUFD_MAX" and "length xs = 4 * m"
    and "n + 4 * m \<le> BUFD_MAX" and "\<And>r. r \<in> set (rows4 xs) \<Longrightarrow> hd r \<noteq> - 1"
  shows "monitor_loop (p @ xs @ q) n out =
    monitor_loop (p @ replicate (4 * m) (- 1) @ q) ((n + 4 * m) mod BUFD_MAX)
      (out @ map (map sint) (rows4 xs))"
  using assms
proof (induction m arbitrary: n p xs out)
  case 0
  then show ?case by simp
next
  case (Suc m)
  obtain a b c d ys where xs: "xs = a # b # c # d # ys" and len: "length ys = 4 * m"
    using Suc.prems(4) by (rule rows4_Suc)
  let ?p = "p @ replicate 4 (- 1)"
  have "a \<noteq> - 1" using Suc.prems(6) [of "[a, b, c, d]"] xs by simp
  moreover have "monitor_row (p @ xs @ q, n) =
      Inr (map sint [a, b, c, d], ?p @ ys @ q, (n + 4) mod BUFD_MAX)"
    using monitor_row_at [of n p a b c d "ys @ q"] Suc.prems(1-3) xs by simp
  ultimately have step: "monitor_loop (p @ xs @ q) n out =
      monitor_loop (?p @ ys @ q) ((n + 4) mod BUFD_MAX) (out @ [map sint [a, b, c, d]])"
    using Suc.prems(2) xs by (subst monitor_loop.simps) (simp add: nth_append)
  have rep: "?p @ replicate (4 * m) (- 1) @ q = p @ replicate (4 * Suc m) (- 1) @ q"
    by (simp add: numeral_eq_Suc)
  show ?case
  proof (cases m)
    case 0
    then show ?thesis using step rep xs len by simp
  next
    case (Suc k)
    then have "n + 4 < BUFD_MAX" using Suc.prems(5) by simp
    then have "monitor_loop (?p @ ys @ q) ((n + 4) mod BUFD_MAX) (out @ [map sint [a, b, c, d]])
      = monitor_loop (?p @ replicate (4 * m) (- 1) @ q) ((n + 4 + 4 * m) mod BUFD_MAX)
          ((out @ [map sint [a, b, c, d]]) @ map (map sint) (rows4 ys))"
      using Suc.IH [of "n + 4" ?p ys] Suc.prems xs len by simp
    then show ?thesis using step xs by (simp add: add.assoc replicate_add)
  qed
qed

text \<open>
  A buffer whose first \<open>n\<close> words are -1, followed by \<open>m\<close> rows that start with something
  else, up to the next -1 or to the end of the scanned part.
\<close>

lemma monitor_print_rows:
  assumes "4 dvd n" and "length xs = 4 * m" and "m > 0" and "n + 4 * m \<le> BUFD_MAX"
    and "\<And>r. r \<in> set (rows4 xs) \<Longrightarrow> hd r \<noteq> - 1"
    and "n + 4 * m < BUFD_MAX \<Longrightarrow> q \<noteq> [] \<and> hd q = - 1"
  shows "monitor_print (replicate n (- 1) @ xs @ q) =
    Inr (map (map sint) (rows4 xs), replicate (n + 4 * m) (- 1) @ q)"
proof -
  let ?buf = "replicate n (- 1) @ xs @ q" and ?fin = "replicate (n + 4 * m) (- 1) @ q"
  let ?k = "(n + 4 * m) mod BUFD_MAX"
  obtain k where k: "m = Suc k" using assms(3) by (cases m) auto
  then obtain a b c d ys where xs: "xs = a # b # c # d # ys"
    using assms(2) by (metis rows4_Suc)
  have a: "a \<noteq> - 1" using assms(5) [of "[a, b, c, d]"] xs by simp
  have n: "n < BUFD_MAX" using assms(3,4) by simp
  have "monitor_scan ?buf 0 = monitor_scan ?buf n"
    using n by (intro monitor_scan_skip) (auto simp: nth_append)
  also have "\<dots> = Inr n"
    using n a xs by (subst monitor_scan.simps) (simp add: nth_append)
  finally have scan: "monitor_scan ?buf 0 = Inr n" .
  have "?k < length ?fin \<and> ?fin ! ?k = - 1"
  proof (cases "n + 4 * m < BUFD_MAX")
    case True
    then show ?thesis using assms(6) by (auto simp: nth_append hd_conv_nth)
  next
    case False
    then have "?k = 0" using assms(4) by simp
    then show ?thesis using k by (simp add: nth_append)
  qed
  then have stop: "monitor_loop ?fin ?k out = Inr (out, ?fin)" for out
    by (subst monitor_loop.simps) simp
  have "monitor_loop ?buf n [] = monitor_loop ?fin ?k (map (map sint) (rows4 xs))"
    using monitor_loop_rows [of n "replicate n (- 1)" xs m q "[]"] assms n
    by (simp add: replicate_add)
  then show ?thesis using scan stop by (simp add: monitor_print_def)
qed

end
