(* ===== verification/MP3_Work.thy ===== *)
theory MP3_Work
  imports MP3_Profiler
begin

text \<open>
  The workload program of MP3 (\<^verbatim>\<open>src/MP3/work.c\<close>): it registers itself, allocates \<open>msize\<close> blocks of
  1 MB, touches them at random or with locality, frees them and unregisters. Shell commands go
  through \<^verbatim>\<open>system\<close>; the list of them is part of the result. The pseudo-random numbers are a stream
  \<open>rand\<close>, of which the state counts the numbers drawn; \<open>malloc_ok i\<close> says whether the \<open>i\<close>-th
  allocation succeeds. A block records the bytes stored in it.
\<close>

definition N_ITERATION :: nat where "N_ITERATION = 20"
definition MB :: int where "MB = 1048576"

datatype block = Null | Live "nat \<rightharpoonup> char" | Freed

record work_state =
  blocks :: "nat \<Rightarrow> block"
  local_addr :: int
  drawn :: nat

text \<open>\<^verbatim>\<open>%\<close> on \<^verbatim>\<open>int\<close> truncates towards zero, like \<^verbatim>\<open>/\<close>.\<close>

definition c_mod :: "int \<Rightarrow> int \<Rightarrow> int result" where
  "c_mod a b = (if b = 0 \<or> (a = - 2147483648 \<and> b = - 1) then Inl DivByZero
                else Inr (signed_modulo a b))"

definition next_rand :: "(nat \<Rightarrow> int) \<Rightarrow> work_state \<Rightarrow> int \<times> work_state" where
  "next_rand rand s = (rand (drawn s), s\<lparr>drawn := Suc (drawn s)\<rparr>)"

text \<open>\<^verbatim>\<open>buffer[blk][off] = '*'\<close>, where \<^verbatim>\<open>buffer\<close> has 1024 entries.\<close>

definition store_star :: "int \<Rightarrow> int \<Rightarrow> work_state \<Rightarrow> work_state result" where
  "store_star blk off s =
     (if blk < 0 \<or> 1024 \<le> blk then Inl OutOfBounds
      else case blocks s (nat blk) of
        Null \<Rightarrow> Inl NullDeref
      | Freed \<Rightarrow> Inl UseAfterFree
      | Live m \<Rightarrow> if off < 0 \<or> MB \<le> off then Inl OutOfBounds
                  else Inr (s\<lparr>blocks := (blocks s)(nat blk := Live (m(nat off \<mapsto> CHR ''*'')))\<rparr>))"

definition rand_access :: "(nat \<Rightarrow> int) \<Rightarrow> int \<Rightarrow> work_state \<Rightarrow> work_state result" where
  "rand_access rand msize s =
     (let (r, s1) = next_rand rand s in
      bind_r (c_mod r (s32 (s32 (msize * 1024) * 1024))) (\<lambda>t.
      let target = if t < 0 then s32 (t * - 1) else t in
      bind_r (c_div target 1024) (\<lambda>q. bind_r (c_div q 1024) (\<lambda>blk.
        store_star blk (s32 (target - s32 (s32 (blk * 1024) * 1024))) s1))))"

text \<open>
  The address of a local access is never dereferenced. In C its overflow is undefined, here it wraps.
\<close>

definition local_access :: "(nat \<Rightarrow> int) \<Rightarrow> int \<Rightarrow> work_state \<Rightarrow> (int \<times> work_state) result" where
  "local_access rand addr s =
     (let (r, s1) = next_rand rand s in
      if r < 0 then Inr (s32 (addr + 1), s1)
      else let (r2, s2) = next_rand rand s1 in
           bind_r (c_mod r2 300) (\<lambda>d. Inr (s32 (addr + d), s2)))"

text \<open>One access of the inner loop: always random, or one in five random and the others local.\<close>

definition one_access :: "(nat \<Rightarrow> int) \<Rightarrow> int \<Rightarrow> bool \<Rightarrow> work_state \<Rightarrow> work_state result" where
  "one_access rand msize locality s =
     (if \<not> locality then rand_access rand msize s
      else let (r, s1) = next_rand rand s in
           bind_r (c_mod r 10) (\<lambda>l.
             if - 2 < l \<and> l < 2 then rand_access rand msize s1
             else bind_r (local_access rand (local_addr s1) s1)
                    (\<lambda>(a, s2). Inr (s2\<lparr>local_addr := a\<rparr>))))"

fun accesses :: "(nat \<Rightarrow> int) \<Rightarrow> int \<Rightarrow> bool \<Rightarrow> nat \<Rightarrow> work_state \<Rightarrow> work_state result" where
  "accesses rand msize locality 0 s = Inr s"
| "accesses rand msize locality (Suc n) s =
     bind_r (one_access rand msize locality s) (accesses rand msize locality n)"

fun iterations :: "(nat \<Rightarrow> int) \<Rightarrow> int \<Rightarrow> bool \<Rightarrow> nat \<Rightarrow> nat \<Rightarrow> work_state \<Rightarrow> work_state result" where
  "iterations rand msize locality naccess 0 s = Inr s"
| "iterations rand msize locality naccess (Suc k) s =
     bind_r (accesses rand msize locality naccess s) (iterations rand msize locality naccess k)"

text \<open>\<^verbatim>\<open>free(buffer[i])\<close>: freeing the null pointer does nothing, freeing a block twice is a fault.\<close>

definition free_block :: "nat \<Rightarrow> work_state \<Rightarrow> work_state result" where
  "free_block i s =
     (case blocks s i of
        Null \<Rightarrow> Inr s
      | Live _ \<Rightarrow> Inr (s\<lparr>blocks := (blocks s)(i := Freed)\<rparr>)
      | Freed \<Rightarrow> Inl UseAfterFree)"

text \<open>\<^verbatim>\<open>for (i--; i >= 0; i--) free(buffer[i]);\<close> entered with counter \<open>i\<close>.\<close>

fun free_down :: "nat \<Rightarrow> work_state \<Rightarrow> work_state result" where
  "free_down 0 s = Inr s"
| "free_down (Suc i) s = bind_r (free_block i s) (free_down i)"

text \<open>\<^verbatim>\<open>for (i = 0; i < msize; i++) free(buffer[i]);\<close>\<close>

fun free_up :: "nat \<Rightarrow> nat \<Rightarrow> work_state \<Rightarrow> work_state result" where
  "free_up i 0 s = Inr s"
| "free_up i (Suc n) s = bind_r (free_block i s) (free_up (Suc i) n)"

text \<open>
  The allocation loop for the remaining \<open>n\<close> blocks. A failure frees the blocks allocated before
  it, counting \<^verbatim>\<open>i\<close> down to -1, and prints that \<^verbatim>\<open>i\<close>: the value is the text printed.
\<close>

fun alloc_blocks :: "(nat \<Rightarrow> bool) \<Rightarrow> nat \<Rightarrow> nat \<Rightarrow> work_state \<Rightarrow> (string option \<times> work_state) result" where
  "alloc_blocks malloc_ok i 0 s = Inr (None, s)"
| "alloc_blocks malloc_ok i (Suc n) s =
     (if malloc_ok i
      then alloc_blocks malloc_ok (Suc i) n (s\<lparr>blocks := (blocks s)(i := Live Map.empty)\<rparr>)
      else bind_r (free_down i s) (\<lambda>s'.
        Inr (Some (''Out of memory error! (failed at '' @ show_int (- 1) @ ''MB)'' @ [newline]), s')))"

definition work_cmd :: "char \<Rightarrow> nat \<Rightarrow> string" where
  "work_cmd c pid = ''echo '' @ [CHR 0x27, c, CHR '' ''] @ show_nat pid @ [CHR 0x27] @ ''> /proc/mp/status''"

record work_result =
  status :: int
  commands :: "string list"
  out_of_memory :: "string option"
  final :: work_state

definition work_start :: work_state where
  "work_start = \<lparr>blocks = \<lambda>_. Null, local_addr = 0, drawn = 0\<rparr>"

text \<open>
  \<^verbatim>\<open>main\<close> on its arguments after the program name. Each command is built in an array of 120 bytes.
\<close>

definition work_main ::
  "(nat \<Rightarrow> int) \<Rightarrow> (nat \<Rightarrow> bool) \<Rightarrow> nat \<Rightarrow> string list \<Rightarrow> work_result result" where
  "work_main rand malloc_ok mypid argv =
     (let stop = (\<lambda>cmds oom s. Inr \<lparr>status = - 1, commands = cmds, out_of_memory = oom, final = s\<rparr>) in
      if length argv < 3 then stop [] None work_start
      else let msize = atoi (argv ! 0); locality = (argv ! 1 = [] \<or> hd (argv ! 1) \<noteq> CHR ''R'');
               naccess = atoi (argv ! 2) in
      if 1024 < msize \<or> msize < 1 then stop [] None work_start
      else if naccess < 1 then stop [] None work_start
      else
        bind_r (sprintf_into 120 (work_cmd (CHR ''R'') mypid)) (\<lambda>reg.
        bind_r (alloc_blocks malloc_ok 0 (nat msize) work_start) (\<lambda>(oom, s).
          if oom \<noteq> None then stop [reg] oom s
          else
            bind_r (iterations rand msize locality (nat naccess) N_ITERATION s) (\<lambda>s.
            bind_r (free_up 0 (nat msize) s) (\<lambda>s.
            bind_r (sprintf_into 120 (work_cmd (CHR ''U'') mypid)) (\<lambda>unreg.
              Inr \<lparr>status = 0, commands = [reg, unreg], out_of_memory = None, final = s\<rparr>))))))"

section \<open>Every access is inside an allocated block\<close>

text \<open>The first \<open>n\<close> blocks are allocated, the others were never touched.\<close>

definition live :: "nat \<Rightarrow> work_state \<Rightarrow> bool" where
  "live n s \<longleftrightarrow> (\<forall>i. if i < n then (\<exists>m. blocks s i = Live m) else blocks s i = Null)"

lemma live_update: "live n s \<Longrightarrow> i < n \<Longrightarrow> live n (s\<lparr>blocks := (blocks s)(i := Live m)\<rparr>)"
  by (simp add: live_def)

lemma live_frame [simp]:
  "live n (s\<lparr>drawn := d\<rparr>) = live n s" "live n (s\<lparr>local_addr := a\<rparr>) = live n s"
  by (simp_all add: live_def)

lemma c_mod_pos: "0 < b \<Longrightarrow> c_mod a b = Inr (sgn a * (\<bar>a\<bar> mod b))"
  by (simp add: c_mod_def smod_int_alt_def)

lemma sgn_mod_abs: "0 < (b::int) \<Longrightarrow> (if sgn a * (\<bar>a\<bar> mod b) < 0 then - (sgn a * (\<bar>a\<bar> mod b))
    else sgn a * (\<bar>a\<bar> mod b)) = \<bar>a\<bar> mod b"
  by (cases "a = 0"; cases "0 < a") (auto simp: sgn_if not_less dest: order_antisym [OF pos_mod_sign])

lemma rand_access_target:
  assumes "1 \<le> msize" and "msize \<le> 1024"
  shows "rand_access rand msize s =
    (let target = \<bar>rand (drawn s)\<bar> mod (msize * MB)
     in store_star (target div MB) (target mod MB) (s\<lparr>drawn := Suc (drawn s)\<rparr>))"
proof -
  let ?M = "msize * MB" and ?r = "rand (drawn s)"
  define T where "T = \<bar>?r\<bar> mod ?M"
  have M: "0 < ?M" "?M \<le> 1073741824" using assms by (simp_all add: MB_def)
  have size: "s32 (s32 (msize * 1024) * 1024) = ?M"
    using assms by (simp add: s32_id c_int_def MB_def)
  have T: "0 \<le> T" "T < ?M" using M by (simp_all add: T_def)
  let ?t = "sgn ?r * (\<bar>?r\<bar> mod ?M)"
  have "c_int (- ?t)" unfolding T_def [symmetric] using T M by (auto simp: c_int_def sgn_if)
  then have target: "(if ?t < 0 then s32 (?t * - 1) else ?t) = T"
    using sgn_mod_abs [OF M(1), of ?r] unfolding T_def by (auto simp: s32_id split: if_splits)
  have div: "T div 1024 div 1024 = T div MB" by (simp add: zdiv_zmult2_eq [symmetric] MB_def)
  have blk: "0 \<le> T div MB" "T div MB < 1024"
    using T M by (simp_all add: MB_def)
  then have off: "s32 (T - s32 (s32 (T div MB * 1024) * 1024)) = T mod MB"
    using T M by (simp add: s32_id c_int_def MB_def minus_div_mult_eq_mod [symmetric])
  show ?thesis
    unfolding rand_access_def next_rand_def Let_def prod.case size c_mod_pos [OF M(1)] bind_r_simps target
    using T by (simp add: c_div_pos div off T_def [symmetric])
qed

lemma rand_access_ok:
  assumes "1 \<le> msize" and "msize \<le> 1024" and "live (nat msize) s"
  shows "\<exists>s'. rand_access rand msize s = Inr s' \<and> live (nat msize) s'"
proof -
  define T where "T = \<bar>rand (drawn s)\<bar> mod (msize * MB)"
  have T: "0 \<le> T" "T < msize * MB" using assms(1) by (simp_all add: T_def MB_def)
  have blk: "0 \<le> T div MB" "T div MB < msize"
    using T by (simp_all add: MB_def div_less_iff_less_mult)
  then have b: "nat (T div MB) < nat msize" by simp
  obtain m where m: "blocks s (nat (T div MB)) = Live m"
    using assms(3) b unfolding live_def by metis
  have "0 \<le> T mod MB" "T mod MB < MB" by (simp_all add: MB_def)
  then have "store_star (T div MB) (T mod MB) (s\<lparr>drawn := Suc (drawn s)\<rparr>) =
      Inr (s\<lparr>drawn := Suc (drawn s),
             blocks := (blocks s)(nat (T div MB) := Live (m(nat (T mod MB) \<mapsto> CHR ''*'')))\<rparr>)"
    using blk assms(2) m by (simp add: store_star_def)
  moreover have "live (nat msize) (s\<lparr>drawn := Suc (drawn s),
             blocks := (blocks s)(nat (T div MB) := Live (m(nat (T mod MB) \<mapsto> CHR ''*'')))\<rparr>)"
    using live_update [of "nat msize" "s\<lparr>drawn := Suc (drawn s)\<rparr>"] assms(3) b by simp
  ultimately show ?thesis
    using rand_access_target [OF assms(1,2), of rand s] by (simp add: T_def Let_def)
qed

lemma local_access_ok:
  "\<exists>a s'. local_access rand addr s = Inr (a, s') \<and> blocks s' = blocks s"
  by (simp add: local_access_def next_rand_def c_mod_pos Let_def)

lemma one_access_ok:
  assumes "1 \<le> msize" and "msize \<le> 1024" and "live (nat msize) s"
  shows "\<exists>s'. one_access rand msize locality s = Inr s' \<and> live (nat msize) s'"
proof -
  let ?s = "s\<lparr>drawn := Suc (drawn s)\<rparr>"
  obtain a s' where "local_access rand (local_addr ?s) ?s = Inr (a, s')" "blocks s' = blocks s"
    using local_access_ok [of rand "local_addr ?s" ?s] by auto
  then have "\<exists>s''. bind_r (local_access rand (local_addr ?s) ?s) (\<lambda>(a, s2). Inr (s2\<lparr>local_addr := a\<rparr>))
      = Inr s'' \<and> live (nat msize) s''"
    using assms(3) by (simp add: live_def)
  then show ?thesis
    using rand_access_ok [OF assms(1,2), of s rand] rand_access_ok [OF assms(1,2), of ?s rand] assms(3)
    by (simp add: one_access_def next_rand_def c_mod_pos)
qed

lemma accesses_ok:
  assumes "1 \<le> msize" and "msize \<le> 1024"
  shows "live (nat msize) s \<Longrightarrow> \<exists>s'. accesses rand msize locality n s = Inr s' \<and> live (nat msize) s'"
proof (induction n arbitrary: s)
  case (Suc n)
  then show ?case using one_access_ok [OF assms, of s rand locality] by auto
qed simp

lemma iterations_ok:
  assumes "1 \<le> msize" and "msize \<le> 1024"
  shows "live (nat msize) s \<Longrightarrow>
    \<exists>s'. iterations rand msize locality naccess k s = Inr s' \<and> live (nat msize) s'"
proof (induction k arbitrary: s)
  case (Suc k)
  then show ?case using accesses_ok [OF assms, of s rand locality naccess] by auto
qed simp

section \<open>Every block is freed\<close>

lemma free_down_ok:
  "(\<And>j. j < i \<Longrightarrow> \<exists>m. blocks s j = Live m) \<Longrightarrow>
   free_down i s = Inr (s\<lparr>blocks := (\<lambda>j. if j < i then Freed else blocks s j)\<rparr>)"
proof (induction i arbitrary: s)
  case (Suc i)
  let ?s = "s\<lparr>blocks := (blocks s)(i := Freed)\<rparr>"
  have "free_block i s = Inr ?s" using Suc.prems [of i] by (auto simp: free_block_def)
  moreover have "free_down i ?s = Inr (?s\<lparr>blocks := (\<lambda>j. if j < i then Freed else blocks ?s j)\<rparr>)"
    using Suc.prems by (intro Suc.IH) auto
  ultimately show ?case by (auto simp: fun_eq_iff less_Suc_eq intro!: arg_cong [where f = "\<lambda>b. s\<lparr>blocks := b\<rparr>"])
qed simp

lemma free_up_ok:
  "(\<And>j. i \<le> j \<Longrightarrow> j < i + n \<Longrightarrow> \<exists>m. blocks s j = Live m) \<Longrightarrow>
   free_up i n s = Inr (s\<lparr>blocks := (\<lambda>j. if i \<le> j \<and> j < i + n then Freed else blocks s j)\<rparr>)"
proof (induction n arbitrary: i s)
  case 0
  have "(\<lambda>j. if i \<le> j \<and> j < i + 0 then Freed else blocks s j) = blocks s"
    by (auto simp: fun_eq_iff)
  then show ?case by simp
next
  case (Suc n)
  let ?s = "s\<lparr>blocks := (blocks s)(i := Freed)\<rparr>"
  have "free_block i s = Inr ?s" using Suc.prems [of i] by (auto simp: free_block_def)
  moreover have "free_up (Suc i) n ?s =
      Inr (?s\<lparr>blocks := (\<lambda>j. if Suc i \<le> j \<and> j < Suc i + n then Freed else blocks ?s j)\<rparr>)"
    using Suc.prems by (intro Suc.IH) auto
  ultimately show ?case by (auto simp: fun_eq_iff intro!: arg_cong [where f = "\<lambda>b. s\<lparr>blocks := b\<rparr>"])
qed

lemma alloc_blocks_ok:
  "live i s \<Longrightarrow> (\<And>j. i \<le> j \<Longrightarrow> j < i + n \<Longrightarrow> malloc_ok j) \<Longrightarrow>
   \<exists>s'. alloc_blocks malloc_ok i n s = Inr (None, s') \<and> live (i + n) s'"
proof (induction n arbitrary: i s)
  case (Suc n)
  let ?s = "s\<lparr>blocks := (blocks s)(i := Live Map.empty)\<rparr>"
  have "live (Suc i) ?s" using Suc.prems(1) by (auto simp: live_def less_Suc_eq)
  then have "\<exists>s'. alloc_blocks malloc_ok (Suc i) n ?s = Inr (None, s') \<and> live (Suc i + n) s'"
    using Suc.prems(2) by (intro Suc.IH) auto
  then show ?case using Suc.prems(2) [of i] by simp
qed simp

lemma alloc_blocks_fail:
  "live i s \<Longrightarrow> i \<le> k \<Longrightarrow> k < i + n \<Longrightarrow> \<not> malloc_ok k \<Longrightarrow> (\<And>j. i \<le> j \<Longrightarrow> j < k \<Longrightarrow> malloc_ok j) \<Longrightarrow>
   \<exists>s'. alloc_blocks malloc_ok i n s =
          Inr (Some (''Out of memory error! (failed at '' @ show_int (- 1) @ ''MB)'' @ [newline]), s')
      \<and> (\<forall>j. blocks s' j = (if j < k then Freed else Null))"
proof (induction n arbitrary: i s)
  case (Suc n)
  show ?case
  proof (cases "i = k")
    case True
    then have "free_down i s = Inr (s\<lparr>blocks := (\<lambda>j. if j < i then Freed else blocks s j)\<rparr>)"
      using Suc.prems(1) by (intro free_down_ok) (auto simp: live_def)
    then show ?thesis using True Suc.prems(1,4) by (auto simp: live_def)
  next
    case False
    let ?s = "s\<lparr>blocks := (blocks s)(i := Live Map.empty)\<rparr>"
    have "live (Suc i) ?s" using Suc.prems(1) by (auto simp: live_def less_Suc_eq)
    then show ?thesis using Suc.IH [of "Suc i" ?s] Suc.prems False by auto
  qed
qed simp

end
