(* ===== verification/MP3_Properties.thy ===== *)
theory MP3_Properties
  imports MP3_Mmap MP3_Monitor MP3_Work
begin

text \<open>
  The properties of single operations of MP3: what one run of
  the work function stores and when it overruns the buffer, registration and its inverse, the
  unload path, the mapping of the buffer, the reader of the samples together with the kernel side,
  and the workload program.
\<close>

section \<open>Runs of the work function\<close>

text \<open>The sample that a run stores for the pids \<open>P\<close>, at a given time and process table.\<close>

definition sample :: "(u64 \<Rightarrow> u64) \<Rightarrow> int set \<Rightarrow> u64 \<Rightarrow> (int \<rightharpoonup> counters) \<Rightarrow> u64 list" where
  "sample f P jiffies ps =
     [jiffies, counter_total min_flt P ps, counter_total maj_flt P ps, f (counter_total cpu_time P ps)]"

abbreviation registered :: "mp3_state \<Rightarrow> int set" where
  "registered s \<equiv> pid_at s ` set (mp3_head s)"

lemma work_func_sample:
  assumes "mp3_inv s" and "mem_buf_ptr s < buf_words"
  shows "mp_work_func f jiffies s =
    Inr (s\<lparr>mem_buf := take (mem_buf_ptr s) (mem_buf s) @ sample f (registered s) jiffies (procs s)
                      @ drop (mem_buf_ptr s + 4) (mem_buf s),
           mem_buf_ptr := mem_buf_ptr s + 4, work_pending := True, mp3_worker := Idle,
           procs := reset_counters (registered s) (procs s)\<rparr>)"
proof -
  have "mem_buf_ptr s + 4 \<le> length (mem_buf s)"
    using assms by (auto simp: mp3_inv_def buf_words_eq intro: length_4E)
  then show ?thesis
    using work_sum_eq [OF assms(1)]
    by (simp add: mp_work_func_def Let_def store_room work_requeue_def sample_def)
qed

lemma work_func_full:
  assumes "mp3_inv s" and "mem_buf_ptr s = buf_words"
  shows "mp_work_func f jiffies s = Inl OutOfBounds"
  using assms work_sum_eq [OF assms(1)]
  by (simp add: mp_work_func_def Let_def store_full mp3_inv_def)

text \<open>Consecutive runs, with what the processes do in between.\<close>

fun profile_runs ::
  "(u64 \<Rightarrow> u64) \<Rightarrow> (u64 \<times> (int \<rightharpoonup> counters)) list \<Rightarrow> mp3_state \<Rightarrow> mp3_state result" where
  "profile_runs f [] s = Inr s"
| "profile_runs f ((jiffies, ps) # rs) s =
     bind_r (mp_work_func f jiffies (s\<lparr>procs := ps\<rparr>)) (profile_runs f rs)"

definition run_samples ::
  "(u64 \<Rightarrow> u64) \<Rightarrow> int set \<Rightarrow> (u64 \<times> (int \<rightharpoonup> counters)) list \<Rightarrow> u64 list list" where
  "run_samples f P rs = map (\<lambda>(jiffies, ps). sample f P jiffies ps) rs"

lemma length_sample [simp]: "length (sample f P j ps) = 4"
  by (simp add: sample_def)

lemma length_run_samples [simp]: "length (concat (run_samples f P rs)) = 4 * length rs"
  by (induction rs) (auto simp: run_samples_def)

lemma profile_runs_buffer:
  "mp3_inv s \<Longrightarrow> mem_buf_ptr s + 4 * length rs \<le> buf_words \<Longrightarrow>
   \<exists>t. profile_runs f rs s = Inr t \<and> mp3_inv t \<and> mp3_head t = mp3_head s \<and> mp3_heap t = mp3_heap s
     \<and> mem_buf_ptr t = mem_buf_ptr s + 4 * length rs
     \<and> mem_buf t = take (mem_buf_ptr s) (mem_buf s) @ concat (run_samples f (registered s) rs)
         @ drop (mem_buf_ptr s + 4 * length rs) (mem_buf s)"
proof (induction rs arbitrary: s)
  case Nil
  then show ?case by (simp add: run_samples_def)
next
  case (Cons r rs)
  obtain j ps where r: "r = (j, ps)" by fastforce
  let ?s = "s\<lparr>procs := ps\<rparr>"
  let ?b = "take (mem_buf_ptr s) (mem_buf s) @ sample f (registered s) j ps
        @ drop (mem_buf_ptr s + 4) (mem_buf s)"
  let ?u = "?s\<lparr>mem_buf := ?b, mem_buf_ptr := mem_buf_ptr s + 4, work_pending := True,
        mp3_worker := Idle, procs := reset_counters (registered s) ps\<rparr>"
  have len: "length (mem_buf s) = buf_words" using Cons.prems(1) by (simp add: mp3_inv_def)
  have step: "mp_work_func f j ?s = Inr ?u"
    using work_func_sample [of ?s f j] Cons.prems mp3_inv_env(1) [of s ps] by simp
  have "mp3_inv ?u" using Cons.prems len by (simp add: mp3_inv_def)
  from Cons.IH [OF this] Cons.prems(2) obtain t where t: "profile_runs f rs ?u = Inr t"
      "mp3_inv t" "mp3_head t = mp3_head s" "mp3_heap t = mp3_heap s"
      "mem_buf_ptr t = mem_buf_ptr s + 4 + 4 * length rs"
      "mem_buf t = take (mem_buf_ptr s + 4) ?b @ concat (run_samples f (registered s) rs)
         @ drop (mem_buf_ptr s + 4 + 4 * length rs) ?b"
    by auto
  have "take (mem_buf_ptr s + 4) ?b = take (mem_buf_ptr s) (mem_buf s) @ sample f (registered s) j ps"
    using Cons.prems(2) len by simp
  moreover have "drop (mem_buf_ptr s + 4 + 4 * length rs) ?b =
      drop (mem_buf_ptr s + 4 * length (r # rs)) (mem_buf s)"
    using Cons.prems(2) len by (simp add: algebra_simps)
  ultimately show ?case using t step r by (simp add: run_samples_def algebra_simps)
qed

lemma rows4_run_samples: "rows4 (concat (run_samples f P rs)) = run_samples f P rs"
  by (induction rs) (auto simp: run_samples_def sample_def)

section \<open>Messages\<close>

text \<open>What \<^verbatim>\<open>echo 'R pid'> /proc/mp/status\<close> writes: the text and a newline.\<close>

definition proc_msg :: "char \<Rightarrow> nat \<Rightarrow> string" where
  "proc_msg c p = [c, CHR '' ''] @ show_nat p @ [newline]"

lemma proc_msg_parsed:
  assumes "p < 2 ^ 31"
  shows "cstr_at (proc_msg c p @ [NUL]) 2 = Inr (show_nat p @ [newline])"
    and "scan_pid3 junk (show_nat p @ [newline]) = int p"
proof -
  show "cstr_at (proc_msg c p @ [NUL]) 2 = Inr (show_nat p @ [newline])"
    using cstr_at_terminated [of 2 "proc_msg c p"] by (simp add: proc_msg_def)
  have "s32 (int p) = int p" using assms by (intro s32_id) (simp add: c_int_def)
  moreover have "no_digit_first [newline]" by (simp add: isdigit_def)
  ultimately show "scan_pid3 junk (show_nat p @ [newline]) = int p"
    using scan_d_show_nat [of "[newline]" p] by (simp add: scan_pid3_def)
qed

abbreviation new_task3 :: "(int \<rightharpoonup> nat) \<Rightarrow> int \<Rightarrow> mp3_task" where
  "new_task3 g p \<equiv> \<lparr>task3 = g p, utilization = 0, major_fault = 0, minor_fault = 0, pid3 = p\<rparr>"

lemma write_register:
  assumes "p < 2 ^ 31"
  shows "mp3_write g f jiffies a junk (proc_msg (CHR ''R'') p) s =
    Inr (length (proc_msg (CHR ''R'') p),
         s\<lparr>mp3_heap := (mp3_heap s)(a \<mapsto> new_task3 g (int p)), mp3_head := a # mp3_head s,
           work_pending := (mp3_head s = [] \<or> work_pending s)\<rparr>)"
proof -
  have "hd (proc_msg (CHR ''R'') p @ [NUL]) = CHR ''R''" by (simp add: proc_msg_def)
  then show ?thesis using proc_msg_parsed [OF assms]
    by (simp add: mp3_write_def registration3_unfold Let_def)
qed

lemma write_unregister:
  assumes "p < 2 ^ 31"
  shows "mp3_write g f jiffies a junk (proc_msg (CHR ''U'') p) s =
    bind_r (unregistration3 f jiffies junk (proc_msg (CHR ''U'') p @ [NUL]) s)
      (\<lambda>s'. Inr (length (proc_msg (CHR ''U'') p), s'))"
proof -
  have "hd (proc_msg (CHR ''U'') p @ [NUL]) = CHR ''U''" by (simp add: proc_msg_def)
  then show ?thesis by (simp add: mp3_write_def Let_def)
qed

lemma unregister_msg:
  assumes "mp3_inv s" and "p < 2 ^ 31"
    and "get_task_by_pid3 (mp3_heap s) (mp3_head s) (int p) = Inr (Some a)"
  shows "unregistration3 f jiffies junk (proc_msg (CHR ''U'') p @ [NUL]) s =
    (let s1 = s\<lparr>mp3_head := remove1 a (mp3_head s), mp3_heap := (mp3_heap s)(a := None)\<rparr>
     in if mp3_head s1 = [] then flush_workqueue f jiffies (cancel_delayed_work s1) else Inr s1)"
  by (rule unregistration3_eq [OF assms(1) proc_msg_parsed(1) [OF assms(2)]])
     (simp only: proc_msg_parsed(2) [OF assms(2)] assms(3))

lemmas idle_flush_defs = flush_workqueue_def cancel_delayed_work_def work_store_def work_requeue_def

section \<open>The profiler\<close>

text \<open>A concrete profiler: one registered process, pid 7, and a buffer that was read once.\<close>

definition demo3 :: mp3_state where
  "demo3 = \<lparr>mp3_head = [1], mp3_heap = [1 \<mapsto> new_task3 (\<lambda>_. None) 7],
     mem_buf = replicate BUFD_MAX (- 1) @ replicate (buf_words - BUFD_MAX) 0, mem_buf_ptr = 0,
     work_pending = True, mp3_worker = Idle,
     procs = [7 \<mapsto> \<lparr>min_flt = 5, maj_flt = 2, utime = 6, stime = 3\<rparr>]\<rparr>"

lemma demo3_inv: "mp3_inv demo3"
  by (simp add: mp3_inv_def demo3_def buf_words_eq BUFD_MAX_def)

text \<open>
  C12. One run of the work function stores one sample of four words at the write index: the time,
  the minor and the major faults and the CPU time in milliseconds, each summed over the live
  registered processes (one that is registered twice counts once); it resets exactly the counters
  it read, leaves every other word of the buffer alone and queues itself again.
\<close>
theorem mp3_work_sample:
  assumes "mp3_inv s" and "mem_buf_ptr s < buf_words"
  shows "mp_work_func to_msecs jiffies s =
    Inr (s\<lparr>mem_buf := take (mem_buf_ptr s) (mem_buf s)
             @ [jiffies, counter_total min_flt (registered s) (procs s),
                counter_total maj_flt (registered s) (procs s),
                to_msecs (counter_total cpu_time (registered s) (procs s))]
             @ drop (mem_buf_ptr s + 4) (mem_buf s),
           mem_buf_ptr := mem_buf_ptr s + 4, work_pending := True, mp3_worker := Idle,
           procs := reset_counters (registered s) (procs s)\<rparr>)"
  using work_func_sample [OF assms] by (simp add: sample_def)

theorem mp3_work_sample_witness:
  "\<exists>t. mp_work_func (\<lambda>x. 4 * x) 100 demo3 = Inr t \<and> take 4 (mem_buf t) = [100, 5, 2, 36]
     \<and> procs t 7 = Some zero_counters"
proof -
  have "mem_buf_ptr demo3 < buf_words" by (simp add: demo3_def buf_words_eq)
  from mp3_work_sample [OF demo3_inv this, of "\<lambda>x. 4 * x" 100] show ?thesis
    by (simp add: demo3_def counter_total_def reset_counters_def)
qed

text \<open>
  C37. The buffer holds 16384 samples; nothing stops the work function there: in a state that
  satisfies the invariant a run leaves the buffer, with a store outside it, exactly when all 65536
  words are used.
\<close>
theorem mp3_buffer_overrun:
  assumes "mp3_inv s"
  shows "mp_work_func to_msecs jiffies s = Inl OutOfBounds \<longleftrightarrow> mem_buf_ptr s = 4 * 16384"
proof (cases "mem_buf_ptr s = buf_words")
  case True
  then show ?thesis using work_func_full [OF assms] by (simp add: buf_words_eq)
next
  case False
  then have "mem_buf_ptr s < buf_words" using assms by (simp add: mp3_inv_def)
  then show ?thesis using work_func_sample [OF assms, of to_msecs jiffies] by (simp add: buf_words_eq)
qed

theorem mp3_buffer_overrun_witness:
  "mp_work_func id 0 (demo3\<lparr>mem_buf_ptr := 65536\<rparr>) = Inl OutOfBounds
   \<and> mp_work_func id 0 demo3 \<noteq> Inl OutOfBounds"
proof -
  have "mp3_inv (demo3\<lparr>mem_buf_ptr := 65536\<rparr>)"
    using demo3_inv by (simp add: mp3_inv_def buf_words_eq)
  from mp3_buffer_overrun [OF this, of id 0] mp3_buffer_overrun [OF demo3_inv, of id 0]
  show ?thesis by (simp add: demo3_def)
qed

text \<open>
  Unregistration undoes registration: in a state that satisfies the invariant, with the work
  item not running, the two messages the workload program sends for a pid, one after the other,
  are both accepted and leave the state as it was, except that the work item is not pending when
  no process is left.
\<close>
theorem mp3_register_unregister:
  assumes "mp3_inv s" and "mp3_worker s = Idle" and "mp3_heap s a = None" and "p < 2 ^ 31"
    and "mp3_write g f jiffies a junk (proc_msg (CHR ''R'') p) s = Inr (n, t)"
  shows "mp3_write g f jiffies b junk (proc_msg (CHR ''U'') p) t =
    Inr (length (proc_msg (CHR ''U'') p), s\<lparr>work_pending := (mp3_head s \<noteq> [] \<and> work_pending s)\<rparr>)"
proof -
  have t: "t = s\<lparr>mp3_heap := (mp3_heap s)(a \<mapsto> new_task3 g (int p)), mp3_head := a # mp3_head s,
           work_pending := (mp3_head s = [] \<or> work_pending s)\<rparr>"
    using assms(5) write_register [OF assms(4), of g f jiffies a junk s] by simp
  have "mp3_inv t" using mp3_inv_write [OF assms(1,3,5)] .
  moreover have "get_task_by_pid3 (mp3_heap t) (mp3_head t) (int p) = Inr (Some a)"
    by (simp add: t)
  moreover have "(mp3_heap t)(a := None) = mp3_heap s" using assms(3) by (auto simp: t)
  ultimately have "unregistration3 f jiffies junk (proc_msg (CHR ''U'') p @ [NUL]) t =
      Inr (s\<lparr>work_pending := (mp3_head s \<noteq> [] \<and> work_pending s)\<rparr>)"
    using unregister_msg [of t p a f jiffies junk] assms(2,4) by (simp add: t idle_flush_defs Let_def)
  then show ?thesis using write_unregister [OF assms(4)] by simp
qed

theorem mp3_register_unregister_witness:
  "\<exists>n t. mp3_write (\<lambda>_. None) id 0 2 0 (proc_msg (CHR ''R'') 9) demo3 = Inr (n, t)
     \<and> mp3_write (\<lambda>_. None) id 0 3 0 (proc_msg (CHR ''U'') 9) t
         = Inr (length (proc_msg (CHR ''U'') 9), demo3)"
proof -
  obtain n t where w: "mp3_write (\<lambda>_. None) id 0 2 0 (proc_msg (CHR ''R'') 9) demo3 = Inr (n, t)"
    using write_register [of 9] by simp
  have "mp3_worker demo3 = Idle" "mp3_heap demo3 2 = None" "demo3\<lparr>work_pending := True\<rparr> = demo3"
      "mp3_head demo3 \<noteq> []" "work_pending demo3"
    by (simp_all add: demo3_def)
  then show ?thesis using w mp3_register_unregister [OF demo3_inv _ _ _ w, of 3] by simp
qed

text \<open>
  The lookup of an unregistration is not checked: a message for a pid that is not registered
  dereferences the null pointer, and a message too short to hold a pid is read outside its buffer.
\<close>
theorem mp3_bad_messages:
  assumes "mp3_inv s" and "p < 2 ^ 31" and "int p \<notin> registered s"
  shows "mp3_write g f jiffies a junk (proc_msg (CHR ''U'') p) s = Inl NullDeref
     \<and> mp3_write g f jiffies a junk ''U'' s = Inl OutOfBounds
     \<and> mp3_write g f jiffies a junk ''R'' s = Inl OutOfBounds"
proof -
  have "get_task_by_pid3 (mp3_heap s) (mp3_head s) (int p) = Inr None"
    using assms by (intro mp3_tab.get_unregistered) (auto simp: mp3_inv_def image_iff)
  then show ?thesis
    using write_unregister [OF assms(2)] proc_msg_parsed [OF assms(2)]
    by (simp add: unregistration3_unfold mp3_write_def registration3_unfold cstr_at_def)
qed

theorem mp3_bad_messages_witness:
  "mp3_write (\<lambda>_. None) id 0 2 0 (proc_msg (CHR ''U'') 9) demo3 = Inl NullDeref"
  using mp3_bad_messages [of demo3 9 "\<lambda>_. None" id 0 2 0] demo3_inv by (simp add: demo3_def)

text \<open>
  C38. Cancelling does not stop a run that has stored its sample and not yet queued itself: if the
  last process unregisters then, or the module is unloaded then, the item is queued again. The
  profiler then samples with no process registered, or a work item of an unloaded module is left
  with a freed buffer. Unloading frees none of the list nodes in either case.
\<close>
theorem mp3_cancel_race:
  assumes "mp3_inv s" and "mp3_head s = [a]" and "pid_at s a = int p" and "p < 2 ^ 31"
    and "mp3_worker s = Stored"
  shows "\<exists>t u n. mp3_write g f jiffies b junk (proc_msg (CHR ''U'') p) s = Inr (n, t)
     \<and> mp3_head t = [] \<and> work_pending t
     \<and> mp3_exit f jiffies s = Inr u \<and> work_pending u \<and> mem_buf u = []
     \<and> mp3_head u = [] \<and> mp3_heap u = mp3_heap s"
proof -
  obtain e where e: "mp3_heap s a = Some e" using assms(1,2) by (auto simp: mp3_inv_def)
  then have "get_task_by_pid3 (mp3_heap s) (mp3_head s) (int p) = Inr (Some a)"
    using assms(2,3) by simp
  then have "\<exists>t. unregistration3 f jiffies junk (proc_msg (CHR ''U'') p @ [NUL]) s = Inr t
      \<and> mp3_head t = [] \<and> work_pending t"
    using unregister_msg [OF assms(1,4), of a f jiffies junk] assms(2,5)
    by (simp add: idle_flush_defs Let_def)
  then show ?thesis using write_unregister [OF assms(4)] assms(2,5)
    by (auto simp: mp3_exit_def idle_flush_defs)
qed

theorem mp3_cancel_race_witness:
  "\<exists>t n. mp3_write (\<lambda>_. None) id 0 2 0 (proc_msg (CHR ''U'') 7)
           (demo3\<lparr>mp3_worker := Stored, work_pending := False\<rparr>) = Inr (n, t)
     \<and> mp3_head t = [] \<and> work_pending t"
proof -
  let ?s = "demo3\<lparr>mp3_worker := Stored, work_pending := False\<rparr>"
  have "mp3_inv ?s" using demo3_inv by (simp add: mp3_inv_def)
  then show ?thesis
    using mp3_cancel_race [of ?s 1 7 "\<lambda>_. None" id 0 2 0] by (simp add: demo3_def) blast
qed

section \<open>The mapping\<close>

text \<open>
  C30. Mapping a range of whole pages that is not larger than the buffer: when the kernel refuses
  no page, the call returns 0 and has mapped every page of the range, in order, to the frame of
  the same page of the buffer; when it refuses page \<open>k\<close> first, the call returns \<^verbatim>\<open>-EAGAIN\<close> with the
  pages before it mapped; a larger range is refused with \<^verbatim>\<open>-EINVAL\<close> and nothing is mapped.
\<close>
theorem dev_mmap_result:
  assumes "vm_end - vm_start = of_nat (n * PAGE_SIZE)" and "n < 2 ^ 52"
  shows "(128 < n \<longrightarrow> dev_mmap pfn fails buf vm_start vm_end = Some (- EINVAL, []))
    \<and> (n \<le> 128 \<and> (\<forall>i<n. \<not> fails (vm_start + of_nat (i * PAGE_SIZE)) (pfn (buf + of_nat (i * PAGE_SIZE))))
        \<longrightarrow> dev_mmap pfn fails buf vm_start vm_end = Some (0, page_maps pfn vm_start buf n))
    \<and> (n \<le> 128 \<and> k < n \<and> fails (vm_start + of_nat (k * PAGE_SIZE)) (pfn (buf + of_nat (k * PAGE_SIZE)))
        \<and> (\<forall>i<k. \<not> fails (vm_start + of_nat (i * PAGE_SIZE)) (pfn (buf + of_nat (i * PAGE_SIZE))))
        \<longrightarrow> dev_mmap pfn fails buf vm_start vm_end = Some (- EAGAIN, page_maps pfn vm_start buf k))"
proof -
  have big: "(of_nat (PAGE_NUM * PAGE_SIZE) :: u64) < of_nat (n * PAGE_SIZE) \<longleftrightarrow> 128 < n"
    using assms(2) by (simp add: word_less_nat_alt PAGE_NUM_def PAGE_SIZE_def unat_word_ariths
        unat_of_nat take_bit_nat_def)
  show ?thesis
    using assms big loop_maps [OF assms(2), of fails vm_start pfn buf "[]"]
      loop_fails [of k n fails vm_start pfn buf "[]"]
    by (auto simp: dev_mmap_def Let_def)
qed

theorem dev_mmap_result_witness:
  "dev_mmap (\<lambda>a. a + 7) (\<lambda>_ f. f = 0) 65536 1048576 1056768
     = Some (0, page_maps (\<lambda>a. a + 7) 1048576 65536 2)
   \<and> dev_mmap (\<lambda>a. a + 7) (\<lambda>_ f. f = 69639) 65536 1048576 1056768
     = Some (- EAGAIN, page_maps (\<lambda>a. a + 7) 1048576 65536 1)"
  using dev_mmap_result [of 1056768 1048576 2 "\<lambda>a. a + 7" "\<lambda>_ f. f = 0" 65536 0]
    dev_mmap_result [of 1056768 1048576 2 "\<lambda>a. a + 7" "\<lambda>_ f. f = 69639" 65536 1]
  by (simp add: PAGE_SIZE_def less_2_cases_iff)

section \<open>The reader\<close>

text \<open>The rows printed from the buffer that some runs of the work function leave.\<close>

lemma monitor_print_samples:
  assumes "mp3_inv s" and "take BUFD_MAX (mem_buf s) = replicate BUFD_MAX (- 1)"
    and "rs \<noteq> []" and "mem_buf_ptr s + 4 * length rs \<le> BUFD_MAX" and "\<forall>r\<in>set rs. fst r \<noteq> - 1"
  shows "\<exists>t. profile_runs f rs s = Inr t
     \<and> monitor_print (mem_buf t) = Inr (map (map sint) (run_samples f (registered s) rs), mem_buf s)
     \<and> length (mem_buf t) = buf_words"
proof -
  let ?n = "mem_buf_ptr s" and ?m = "length rs" and ?b = "mem_buf s"
  let ?xs = "concat (run_samples f (registered s) rs)"
  have len: "length ?b = buf_words" and dvd: "4 dvd ?n" using assms(1) by (simp_all add: mp3_inv_def)
  have max: "BUFD_MAX < buf_words" by (simp add: BUFD_MAX_def buf_words_eq)
  obtain t where t: "profile_runs f rs s = Inr t"
      "mem_buf t = take ?n ?b @ ?xs @ drop (?n + 4 * ?m) ?b" and "mp3_inv t"
    using profile_runs_buffer [OF assms(1), of rs f] assms(4) max by auto
  then have lt: "length (mem_buf t) = buf_words" by (simp add: mp3_inv_def)
  have read: "?b ! i = - 1" if "i < BUFD_MAX" for i
    using that arg_cong [OF assms(2), of "\<lambda>xs. xs ! i"] by simp
  have pre: "take k ?b = replicate k (- 1)" if "k \<le> BUFD_MAX" for k
    using that len max read by (intro nth_equalityI) auto
  have "monitor_print (replicate ?n (- 1) @ ?xs @ drop (?n + 4 * ?m) ?b) =
      Inr (map (map sint) (rows4 ?xs), replicate (?n + 4 * ?m) (- 1) @ drop (?n + 4 * ?m) ?b)"
  proof (rule monitor_print_rows [OF dvd])
    show "hd r \<noteq> - 1" if "r \<in> set (rows4 ?xs)" for r
      using that assms(5) unfolding rows4_run_samples by (auto simp: run_samples_def sample_def)
    show "drop (?n + 4 * ?m) ?b \<noteq> [] \<and> hd (drop (?n + 4 * ?m) ?b) = - 1" if "?n + 4 * ?m < BUFD_MAX"
      using that max len read by (simp add: hd_drop_conv_nth)
  qed (use assms(3,4) in simp_all)
  also have "replicate (?n + 4 * ?m) (- 1) @ drop (?n + 4 * ?m) ?b = ?b"
    using pre [OF assms(4)] by (metis append_take_drop_id)
  finally have "monitor_print (mem_buf t) = Inr (map (map sint) (run_samples f (registered s) rs), ?b)"
    using t(2) pre [of ?n] assms(4) by (simp add: rows4_run_samples)
  then show ?thesis using t(1) lt by blast
qed

text \<open>
  Physical memory as far as the buffer goes: the frame of page \<open>i\<close>, as \<^verbatim>\<open>vmalloc_to_pfn\<close> gives it, holds the
  words of that page. How the kernel serves the \<^verbatim>\<open>mmap\<close> call of the reader at a free address \<open>start\<close>:
  the words the process sees are those of the frames its pages were mapped to.
\<close>

definition page_words :: "u64 list \<Rightarrow> nat \<Rightarrow> u64 list" where
  "page_words buf i = take 512 (drop (512 * i) buf)"

definition page_frame :: "(u64 \<Rightarrow> u64) \<Rightarrow> u64 \<Rightarrow> nat \<Rightarrow> u64" where
  "page_frame pfn addr i = pfn (addr + of_nat (i * PAGE_SIZE))"

definition frames :: "(u64 \<Rightarrow> u64) \<Rightarrow> u64 \<Rightarrow> u64 list \<Rightarrow> u64 \<rightharpoonup> u64 list" where
  "frames pfn addr buf = map_of (map (\<lambda>i. (page_frame pfn addr i, page_words buf i)) [0..<PAGE_NUM])"

definition seen_page :: "(u64 \<rightharpoonup> u64 list) \<Rightarrow> (u64 \<times> u64) list \<Rightarrow> u64 \<Rightarrow> u64 list" where
  "seen_page phys maps a =
     (case map_of maps a of None \<Rightarrow> [] | Some fr \<Rightarrow> (case phys fr of None \<Rightarrow> [] | Some ws \<Rightarrow> ws))"

definition map_device ::
  "(u64 \<Rightarrow> u64) \<Rightarrow> (u64 \<Rightarrow> u64 \<Rightarrow> bool) \<Rightarrow> u64 \<Rightarrow> u64 \<Rightarrow> mp3_state \<Rightarrow> int \<Rightarrow> int \<Rightarrow> u64 list option" where
  "map_device pfn fails addr start s len fd =
     (case dev_mmap pfn fails addr start (start + word_of_int len) of
        Some (r, maps) \<Rightarrow>
          if r = 0
          then Some (concat (map (\<lambda>i. seen_page (frames pfn addr (mem_buf s)) maps (start + of_nat (i * PAGE_SIZE)))
                               [0..<nat len div PAGE_SIZE]))
          else None
      | None \<Rightarrow> None)"

lemma map_of_index:
  assumes "inj_on f {..<n}" and "i < n"
  shows "map_of (map (\<lambda>j. (f j, g j)) [0..<n]) (f i) = Some (g i)"
  using assms by (intro map_of_is_SomeI) (auto simp: comp_def distinct_map inj_on_def)

lemma page_address_inj: "inj_on (\<lambda>i. start + (of_nat (i * PAGE_SIZE) :: u64)) {..<128}"
proof (rule inj_onI)
  fix i j assume ij: "i \<in> {..<128}" "j \<in> {..<128}"
    and eq: "start + (of_nat (i * PAGE_SIZE) :: u64) = start + of_nat (j * PAGE_SIZE)"
  then have "unat (of_nat (i * PAGE_SIZE) :: u64) = unat (of_nat (j * PAGE_SIZE) :: u64)" by (simp only: add_left_cancel)
  then show "i = j" using ij by (simp add: PAGE_SIZE_def unat_of_nat take_bit_nat_def unat_word_ariths)
qed

lemma concat_pages: "length buf = 512 * n \<Longrightarrow> concat (map (page_words buf) [0..<n]) = buf"
proof -
  have "concat (map (page_words buf) [0..<k]) = take (512 * k) buf" for k
    using take_add [of "512 * k" 512 buf for k] by (induction k) (simp_all add: page_words_def add.commute)
  then show "length buf = 512 * n \<Longrightarrow> ?thesis" by simp
qed

lemma map_device_ok:
  assumes "\<And>a b. \<not> fails a b" and "inj_on (page_frame pfn addr) {..<PAGE_NUM}" and "length (mem_buf s) = buf_words"
  shows "map_device pfn fails addr start s (s32 (NPAGES * 4096)) fd = Some (mem_buf s)"
proof -
  have l: "s32 (NPAGES * 4096) = int (128 * PAGE_SIZE)"
    by (simp add: NPAGES_def PAGE_SIZE_def s32_id c_int_def)
  have "dev_mmap_loop pfn fails start addr (of_nat (128 * PAGE_SIZE)) [] = Some (0, [] @ page_maps pfn start addr 128)"
    using assms(1) by (intro loop_maps) simp_all
  then have d: "dev_mmap pfn fails addr start (start + word_of_int (int (128 * PAGE_SIZE))) = Some (0, page_maps pfn start addr 128)"
    by (simp add: dev_mmap_def PAGE_NUM_def)
  have "seen_page (frames pfn addr (mem_buf s)) (page_maps pfn start addr 128) (start + of_nat (i * PAGE_SIZE))
      = page_words (mem_buf s) i" if "i < 128" for i
    using that map_of_index [OF page_address_inj [of start], of i "page_frame pfn addr"] map_of_index [OF assms(2), of i "page_words (mem_buf s)"]
    by (simp add: seen_page_def frames_def page_maps_def page_frame_def PAGE_NUM_def del: of_nat_mult)
  then have "concat (map (\<lambda>i. seen_page (frames pfn addr (mem_buf s)) (page_maps pfn start addr 128) (start + of_nat (i * PAGE_SIZE))) [0..<128])
      = concat (map (page_words (mem_buf s)) [0..<128])"
    by (intro arg_cong [where f = concat] map_cong) auto
  also have "\<dots> = mem_buf s" using concat_pages [of "mem_buf s" 128] assms(3) by (simp add: buf_words_eq)
  finally show ?thesis unfolding map_device_def l d by (simp add: PAGE_SIZE_def)
qed



section \<open>The workload program\<close>

lemma work_cmd_fits: "pid < 2 ^ 32 \<Longrightarrow> sprintf_into 120 (work_cmd c pid) = Inr (work_cmd c pid)"
  using show_nat_length_le [of pid 10] by (simp add: sprintf_into_def work_cmd_def)

lemma live_start: "live 0 work_start"
  by (simp add: live_def work_start_def)

text \<open>
  C35. With valid arguments and enough memory the workload program registers, makes all its
  accesses inside its blocks whatever the random numbers are, frees every block exactly once and
  unregisters.
\<close>
theorem work_main_completes:
  assumes "3 \<le> length argv" and "atoi (argv ! 0) = msize" and "1 \<le> msize" and "msize \<le> 1024"
    and "1 \<le> atoi (argv ! 2)" and "\<And>i. malloc_ok i" and "pid < 2 ^ 32"
  shows "\<exists>s. work_main rand malloc_ok pid argv =
      Inr \<lparr>status = 0, commands = [work_cmd (CHR ''R'') pid, work_cmd (CHR ''U'') pid],
           out_of_memory = None, final = s\<rparr>
    \<and> (\<forall>i. blocks s i = (if i < nat msize then Freed else Null))"
proof -
  obtain s1 where s1: "alloc_blocks malloc_ok 0 (nat msize) work_start = Inr (None, s1)" "live (nat msize) s1"
    using alloc_blocks_ok [OF live_start, of "nat msize" malloc_ok] assms(6) by auto
  obtain s2 where s2: "iterations rand msize (argv ! 1 = [] \<or> hd (argv ! 1) \<noteq> CHR ''R'')
      (nat (atoi (argv ! 2))) N_ITERATION s1 = Inr s2" "live (nat msize) s2"
    using iterations_ok [OF assms(3,4) s1(2)] by blast
  have "free_up 0 (nat msize) s2 = Inr (s2\<lparr>blocks := (\<lambda>j. if 0 \<le> j \<and> j < 0 + nat msize then Freed else blocks s2 j)\<rparr>)"
    using s2(2) by (intro free_up_ok) (auto simp: live_def)
  then show ?thesis
    using assms s1 s2 work_cmd_fits [OF assms(7)] by (simp add: work_main_def Let_def live_def)
qed

theorem work_main_completes_witness:
  "\<exists>s. work_main (\<lambda>i. 2147483647 - int i) (\<lambda>_. True) 77 [''3'', ''T'', ''5''] =
      Inr \<lparr>status = 0, commands = [work_cmd (CHR ''R'') 77, work_cmd (CHR ''U'') 77],
           out_of_memory = None, final = s\<rparr> \<and> blocks s 2 = Freed"
proof -
  have a: "atoi ''3'' = 3" "atoi ''5'' = 5"
    by (simp_all add: atoi_def skip_spaces_def scan_d_def isspace_def isdigit_def digit_val_def s32_id c_int_def)
  then show ?thesis
    using work_main_completes [of "[''3'', ''T'', ''5'']" 3 "\<lambda>_. True" 77 "\<lambda>i. 2147483647 - int i"]
    by auto
qed

text \<open>
  If an allocation fails, the program frees every block it got and exits with -1; but it has
  registered and does not unregister, and the size it reports is always -1 MB.
\<close>
theorem work_main_out_of_memory:
  assumes "3 \<le> length argv" and "atoi (argv ! 0) = msize" and "1 \<le> msize" and "msize \<le> 1024"
    and "1 \<le> atoi (argv ! 2)" and "pid < 2 ^ 32"
    and "k < nat msize" and "\<not> malloc_ok k" and "\<And>i. i < k \<Longrightarrow> malloc_ok i"
  shows "\<exists>s. work_main rand malloc_ok pid argv =
      Inr \<lparr>status = - 1, commands = [work_cmd (CHR ''R'') pid],
           out_of_memory = Some (''Out of memory error! (failed at -1MB)'' @ [newline]), final = s\<rparr>
    \<and> (\<forall>i. blocks s i = (if i < k then Freed else Null))"
proof -
  have "show_int (- 1) = ''-1''"
    by (simp add: show_int_def show_nat.simps char_of_eq_iff)
  then obtain s where "alloc_blocks malloc_ok 0 (nat msize) work_start =
      Inr (Some (''Out of memory error! (failed at -1MB)'' @ [newline]), s)"
      "\<forall>i. blocks s i = (if i < k then Freed else Null)"
    using alloc_blocks_fail [OF live_start, of k "nat msize" malloc_ok] assms(7-9) by auto
  then show ?thesis using assms work_cmd_fits [OF assms(6)] by (simp add: work_main_def Let_def)
qed

theorem work_main_out_of_memory_witness:
  "\<exists>s. work_main (\<lambda>i. 0) (\<lambda>i. i < 2) 77 [''3'', ''R'', ''5''] =
      Inr \<lparr>status = - 1, commands = [work_cmd (CHR ''R'') 77],
           out_of_memory = Some (''Out of memory error! (failed at -1MB)'' @ [newline]), final = s\<rparr>"
proof -
  have a: "atoi ''3'' = 3" "atoi ''5'' = 5"
    by (simp_all add: atoi_def skip_spaces_def scan_d_def isspace_def isdigit_def digit_val_def s32_id c_int_def)
  then show ?thesis
    using work_main_out_of_memory [of "[''3'', ''R'', ''5'']" 3 77 2 "\<lambda>i. i < 2" "\<lambda>i. 0"] by auto
qed

end
