(* ===== verification/MP3_Threads.thy ===== *)
theory MP3_Threads
  imports MP3_Properties
begin

text \<open>
  The profiler under concurrency, at the grain of its spin lock: every critical section of \<^verbatim>\<open>src/MP3/mp3.c\<close> is one
  step, and so is every access outside the lock. A registration has read \<^verbatim>\<open>list_empty\<close> and not linked its node yet;
  an unregistration has unlinked its node and looks at the list, cancels, waits for the work queue or
  frees; the work function runs beside them, as do the profiled processes and readers of the mapping.
\<close>

section \<open>Steps\<close>

text \<open>
  How far an unregistration has come with its node: unlinked, past the test of the empty list, past
  \<^verbatim>\<open>cancel_delayed_work\<close> with the number of runs completed by then, and before \<^verbatim>\<open>kfree\<close>.
\<close>

datatype unreg_pc = Unlinked addr | Cancelling addr | Flushing addr nat | Freeing addr

fun node_of :: "unreg_pc \<Rightarrow> addr" where
  "node_of (Unlinked a) = a"
| "node_of (Cancelling a) = a"
| "node_of (Flushing a n) = a"
| "node_of (Freeing a) = a"

record mp3_threads =
  module3 :: mp3_state
  flags :: "bool list"
  removing :: "unreg_pc list"
  runs :: nat

definition threads3_init :: "mp3_state \<Rightarrow> mp3_threads" where
  "threads3_init m = \<lparr>module3 = m, flags = [], removing = [], runs = 0\<rparr>"

text \<open>
  The parameter is a condition on the moments at which a write starts. \<^verbatim>\<open>flush_workqueue\<close> returns when the item that
  ran at the call has returned. A step that would fault is not taken.
\<close>

inductive thread3_step :: "(mp3_threads \<Rightarrow> bool) \<Rightarrow> mp3_threads \<Rightarrow> mp3_threads \<Rightarrow> bool"
  for ok :: "mp3_threads \<Rightarrow> bool" where
  t3_flag: "ok s \<Longrightarrow> thread3_step ok s (s\<lparr>flags := list_empty3 (module3 s) # flags s\<rparr>)"
| t3_add: "flags s = xs @ f # ys \<Longrightarrow> mp3_heap (module3 s) a = None \<Longrightarrow>
    reg3_add find_task a junk buf f (module3 s) = Inr m \<Longrightarrow>
    thread3_step ok s (s\<lparr>module3 := m, flags := xs @ ys\<rparr>)"
| t3_unlink: "ok s \<Longrightarrow> unreg3_unlink junk buf (module3 s) = Inr (a, m) \<Longrightarrow>
    thread3_step ok s (s\<lparr>module3 := m, removing := Unlinked a # removing s\<rparr>)"
| t3_test: "removing s = xs @ Unlinked a # ys \<Longrightarrow>
    thread3_step ok s (s\<lparr>removing := xs @ (if list_empty3 (module3 s) then Cancelling a else Freeing a) # ys\<rparr>)"
| t3_cancel: "removing s = xs @ Cancelling a # ys \<Longrightarrow>
    thread3_step ok s (s\<lparr>module3 := cancel_delayed_work (module3 s), removing := xs @ Flushing a (runs s) # ys\<rparr>)"
| t3_flush: "removing s = xs @ Flushing a n # ys \<Longrightarrow> mp3_worker (module3 s) = Idle \<or> n < runs s \<Longrightarrow>
    thread3_step ok s (s\<lparr>removing := xs @ Freeing a # ys\<rparr>)"
| t3_free: "removing s = xs @ Freeing a # ys \<Longrightarrow> unreg3_free a (module3 s) = Inr m \<Longrightarrow>
    thread3_step ok s (s\<lparr>module3 := m, removing := xs @ ys\<rparr>)"
| t3_sum: "work_pending (module3 s) \<Longrightarrow> mp3_worker (module3 s) = Idle \<Longrightarrow> work_sum (module3 s) = Inr m \<Longrightarrow>
    thread3_step ok s (s\<lparr>module3 := m\<rparr>)"
| t3_store: "mp3_worker (module3 s) = Summed x y z \<Longrightarrow> work_store to_msecs jiffies (module3 s) = Inr m \<Longrightarrow>
    thread3_step ok s (s\<lparr>module3 := m\<rparr>)"
| t3_requeue: "mp3_worker (module3 s) = Stored \<Longrightarrow>
    thread3_step ok s (s\<lparr>module3 := work_requeue (module3 s), runs := Suc (runs s)\<rparr>)"
| t3_procs: "thread3_step ok s (s\<lparr>module3 := (module3 s)\<lparr>procs := ps\<rparr>\<rparr>)"
| t3_user: "length b = length (mem_buf (module3 s)) \<Longrightarrow>
    thread3_step ok s (s\<lparr>module3 := (module3 s)\<lparr>mem_buf := b\<rparr>\<rparr>)"

inductive_cases thread3_stepE: "thread3_step ok s t"

section \<open>The invariants\<close>

text \<open>The nodes and the buffer, in every interleaving.\<close>

definition nodes_inv :: "addr list \<Rightarrow> mp3_state \<Rightarrow> bool" where
  "nodes_inv us m \<longleftrightarrow> distinct (mp3_head m @ us) \<and> dom (mp3_heap m) = set (mp3_head m @ us)
     \<and> length (mem_buf m) = buf_words \<and> mem_buf_ptr m \<le> buf_words \<and> 4 dvd mem_buf_ptr m"

abbreviation threads3_inv :: "mp3_threads \<Rightarrow> bool" where
  "threads3_inv s \<equiv> nodes_inv (map node_of (removing s)) (module3 s)"

lemma nodes_inv_live: "nodes_inv us m \<Longrightarrow> set (mp3_head m) \<subseteq> dom (mp3_heap m)"
  by (simp add: nodes_inv_def)

lemma nodes_inv_frame [simp]:
  "nodes_inv us (m\<lparr>work_pending := w\<rparr>) = nodes_inv us m"
  "nodes_inv us (m\<lparr>mp3_worker := k\<rparr>) = nodes_inv us m"
  "nodes_inv us (m\<lparr>procs := ps\<rparr>) = nodes_inv us m"
  by (simp_all add: nodes_inv_def)

lemma reg3_add_cases:
  assumes "reg3_add g a junk buf f m = Inr t"
  obtains x where "t = m\<lparr>mp3_heap := (mp3_heap m)(a \<mapsto> x), mp3_head := a # mp3_head m,
      work_pending := (f \<or> work_pending m)\<rparr>"
  using assms by (auto simp: reg3_add_def bind_r_Inr_iff Let_def)

lemma unreg3_unlink_cases:
  assumes "unreg3_unlink junk buf m = Inr (a, t)" and "set (mp3_head m) \<subseteq> dom (mp3_heap m)"
  shows "a \<in> set (mp3_head m) \<and> t = m\<lparr>mp3_head := remove1 a (mp3_head m)\<rparr>"
  using assms mp3_tab.get_SomeD [OF assms(2)]
  by (auto simp: unreg3_unlink_def bind_r_Inr_iff deref_Inr_iff)

lemma unreg3_free_cases:
  "unreg3_free a m = Inr t \<longleftrightarrow> a \<in> dom (mp3_heap m) \<and> t = m\<lparr>mp3_heap := (mp3_heap m)(a := None)\<rparr>"
  by (auto simp: unreg3_free_def kfree_def bind_r_def deref_def split: option.splits)

lemma nodes_inv_add:
  "reg3_add g a junk buf f m = Inr t \<Longrightarrow> mp3_heap m a = None \<Longrightarrow> nodes_inv us m \<Longrightarrow> nodes_inv us t"
  by (erule reg3_add_cases) (auto simp: nodes_inv_def)

lemma nodes_inv_unlink:
  assumes "unreg3_unlink junk buf m = Inr (a, t)" and "nodes_inv us m"
  shows "nodes_inv (a # us) t"
  using unreg3_unlink_cases [OF assms(1) nodes_inv_live [OF assms(2)]] assms(2)
  by (auto simp: nodes_inv_def)

lemma nodes_inv_free:
  "unreg3_free a m = Inr t \<Longrightarrow> nodes_inv (us @ a # vs) m \<Longrightarrow> nodes_inv (us @ vs) t"
  by (auto simp: unreg3_free_cases nodes_inv_def)

lemma nodes_inv_store:
  assumes "work_store f j m = Inr t" and "nodes_inv us m"
  shows "nodes_inv us t"
proof -
  have "length (mem_buf m) = buf_words" "4 dvd mem_buf_ptr m" using assms(2) by (simp_all add: nodes_inv_def)
  from work_store_cases [OF assms(1) this] assms(2) show ?thesis
    by (elim disjE exE conjE) (simp_all add: nodes_inv_def)
qed

lemma nodes_inv_sum: "work_sum m = Inr t \<Longrightarrow> nodes_inv us m \<Longrightarrow> nodes_inv us t"
  using work_sum_live [OF nodes_inv_live, of us m] by (auto simp: Let_def)

lemma nodes_inv_requeue: "nodes_inv us m \<Longrightarrow> nodes_inv us (work_requeue m)"
  by (simp add: work_requeue_def split: worker.splits)

lemma threads3_inv_step: "thread3_step ok s t \<Longrightarrow> threads3_inv s \<Longrightarrow> threads3_inv t"
  by (induction rule: thread3_step.induct)
     (auto simp: cancel_delayed_work_def nodes_inv_requeue intro: nodes_inv_add nodes_inv_store nodes_inv_sum
        dest: nodes_inv_unlink nodes_inv_free, auto simp: nodes_inv_def)

text \<open>Sampling, when a write starts only while no other is in progress.\<close>

definition solo :: "mp3_threads \<Rightarrow> bool" where
  "solo s \<longleftrightarrow> flags s = [] \<and> removing s = []"

definition sampling :: "mp3_state \<Rightarrow> bool" where
  "sampling m \<longleftrightarrow> work_pending m \<or> mp3_worker m \<noteq> Idle"

fun past_test :: "unreg_pc \<Rightarrow> bool" where
  "past_test (Cancelling a) = True"
| "past_test (Flushing a n) = True"
| "past_test _ = False"

definition sampling_inv :: "mp3_threads \<Rightarrow> bool" where
  "sampling_inv s \<longleftrightarrow> length (flags s) + length (removing s) \<le> 1
     \<and> (\<forall>f \<in> set (flags s). f \<longleftrightarrow> mp3_head (module3 s) = [])
     \<and> (\<forall>u \<in> set (removing s). past_test u \<longrightarrow> mp3_head (module3 s) = [])
     \<and> (mp3_head (module3 s) \<noteq> [] \<longrightarrow> sampling (module3 s))"

lemma store_sampling:
  assumes "work_store f j m = Inr t" and "mp3_worker m = Summed x y z"
  shows "mp3_head t = mp3_head m \<and> sampling t"
  using assms by (auto simp: work_store_def bind_r_Inr_iff store_word_def sampling_def split: if_splits)

lemma sum_sampling:
  assumes "work_sum m = Inr t" and "nodes_inv us m"
  shows "mp3_head t = mp3_head m \<and> sampling t"
  using assms(1) work_sum_live [OF nodes_inv_live [OF assms(2)]] by (auto simp: Let_def sampling_def)

lemma sampling_inv_step:
  assumes "thread3_step ok s t" and "\<And>s. ok s \<Longrightarrow> solo s" and "threads3_inv s" and "sampling_inv s"
  shows "sampling_inv t"
  using assms(1)
proof cases
  case t3_flag
  then show ?thesis using assms(2) [of s] assms(4) by (auto simp: sampling_inv_def solo_def list_empty3_def)
next
  case (t3_add xs f ys a g junk buf m)
  have "xs = [] \<and> ys = [] \<and> removing s = []" using t3_add(2) assms(4) by (auto simp: sampling_inv_def)
  with t3_add(4) show ?thesis
    by (cases rule: reg3_add_cases) (use assms(4) t3_add(1,2) in \<open>auto simp: sampling_inv_def sampling_def\<close>)
next
  case (t3_unlink junk buf a m)
  have m: "m = (module3 s)\<lparr>mp3_head := remove1 a (mp3_head (module3 s))\<rparr>"
    using unreg3_unlink_cases [OF t3_unlink(3) nodes_inv_live [OF assms(3)]] by blast
  show ?thesis
    using assms(2) [OF t3_unlink(2)] assms(4) by (auto simp: t3_unlink(1) m sampling_inv_def solo_def sampling_def)
next
  case (t3_free xs a ys m)
  then show ?thesis using assms(4) by (auto simp: unreg3_free_cases sampling_inv_def sampling_def)
next
  case (t3_sum m)
  then show ?thesis using assms(4) sum_sampling [OF t3_sum(4) assms(3)] by (simp add: sampling_inv_def)
next
  case (t3_store x y z f j m)
  then show ?thesis using assms(4) store_sampling [OF t3_store(3,2)] by (simp add: sampling_inv_def)
qed (use assms(4) in \<open>auto simp: sampling_inv_def sampling_def list_empty3_def cancel_delayed_work_def work_requeue_def\<close>)

interpretation mp3_conc: transition_system "\<lambda>s. \<exists>ok ps m. mp3_init ok ps = Inr m \<and> s = threads3_init m"
    "thread3_step ok" threads3_inv for ok
proof unfold_locales
  show "\<exists>ok ps m. mp3_init ok ps = Inr m \<and> s = threads3_init m \<Longrightarrow> threads3_inv s" for s
    by (auto simp: threads3_init_def mp3_init_def nodes_inv_def split: if_splits)
  show "threads3_inv s \<Longrightarrow> thread3_step ok s t \<Longrightarrow> threads3_inv t" for s t by (rule threads3_inv_step)
qed

interpretation mp3_solo: transition_system "\<lambda>s. \<exists>ok ps m. mp3_init ok ps = Inr m \<and> s = threads3_init m"
    "thread3_step solo" "\<lambda>s. threads3_inv s \<and> sampling_inv s"
proof unfold_locales
  show "\<exists>ok ps m. mp3_init ok ps = Inr m \<and> s = threads3_init m \<Longrightarrow> threads3_inv s \<and> sampling_inv s" for s
    by (auto simp: threads3_init_def mp3_init_def nodes_inv_def sampling_inv_def split: if_splits)
  show "threads3_inv s \<and> sampling_inv s \<Longrightarrow> thread3_step solo s t \<Longrightarrow> threads3_inv t \<and> sampling_inv t" for s t
    using threads3_inv_step sampling_inv_step by blast
qed

section \<open>Faults\<close>

lemma unreg3_unlink_fault:
  assumes "unreg3_unlink junk buf m = Inl f" and "set (mp3_head m) \<subseteq> dom (mp3_heap m)"
  shows "f \<noteq> UseAfterFree"
proof (cases "cstr_at buf 2")
  case (Inr str)
  note find = mp3_tab.get_find [OF assms(2), of "scan_pid3 junk str"]
  show ?thesis
  proof (cases "List.find (\<lambda>a. pid3 (the (mp3_heap m a)) = scan_pid3 junk str) (mp3_head m)")
    case (Some a)
    then have "a \<in> set (mp3_head m)" by (auto simp: find_Some_iff)
    then show ?thesis using assms Inr find Some by (auto simp: unreg3_unlink_def)
  qed (use assms(1) Inr find in \<open>auto simp: unreg3_unlink_def\<close>)
qed (use assms(1) in \<open>auto simp: unreg3_unlink_def cstr_at_def split: if_splits\<close>)

lemma work_store_fault:
  assumes "nodes_inv us m" and "mp3_worker m = Summed x y z"
  shows "work_store f j m = Inl e \<longleftrightarrow> e = OutOfBounds \<and> mem_buf_ptr m = buf_words"
proof (cases "mem_buf_ptr m = buf_words")
  case True
  then show ?thesis using assms store_full [OF assms(2)] by (auto simp: nodes_inv_def)
next
  case False
  then have "mem_buf_ptr m + 4 \<le> length (mem_buf m)"
    using assms(1) by (auto simp: nodes_inv_def buf_words_eq intro!: length_4E)
  then show ?thesis using store_room [OF assms(2)] False by simp
qed

section \<open>A registration during an unregistration\<close>

abbreviation any3_step :: "mp3_threads \<Rightarrow> mp3_threads \<Rightarrow> bool" where
  "any3_step \<equiv> thread3_step (\<lambda>_. True)"

definition loaded :: "(int \<rightharpoonup> counters) \<Rightarrow> mp3_state" where
  "loaded ps = \<lparr>mp3_head = [], mp3_heap = Map.empty, mem_buf = replicate buf_words 0,
     mem_buf_ptr = 0, work_pending = False, mp3_worker = Idle, procs = ps\<rparr>"

text \<open>The module with one listed process, pid 7 or pid 9, and the work item pending or not.\<close>

definition one_listed :: "(int \<rightharpoonup> counters) \<Rightarrow> addr \<Rightarrow> nat \<Rightarrow> bool \<Rightarrow> mp3_state" where
  "one_listed ps a p w = (loaded ps)\<lparr>mp3_head := [a], mp3_heap := [a \<mapsto> new_task3 (\<lambda>_. None) (int p)], work_pending := w\<rparr>"

lemma reg3_add_msg:
  assumes "p < 2 ^ 31"
  shows "reg3_add g a junk (proc_msg c p @ [NUL]) f m =
    Inr (m\<lparr>mp3_heap := (mp3_heap m)(a \<mapsto> new_task3 g (int p)), mp3_head := a # mp3_head m,
           work_pending := (f \<or> work_pending m)\<rparr>)"
  using proc_msg_parsed [OF assms] by (simp add: reg3_add_def Let_def)

lemma one_listed_threads:
  assumes "ok (threads3_init (loaded ps))"
  shows "(thread3_step ok)\<^sup>*\<^sup>* (threads3_init (loaded ps)) (threads3_init (one_listed ps 1 7 True))"
proof -
  let ?s = "(threads3_init (loaded ps))\<lparr>flags := [True]\<rparr>"
  have "thread3_step ok (threads3_init (loaded ps)) ?s"
    using t3_flag [of ok, OF assms] by (simp add: threads3_init_def list_empty3_def loaded_def)
  moreover have "thread3_step ok ?s (threads3_init (one_listed ps 1 7 True))"
    using t3_add [of ?s "[]" True "[]" 1, OF _ _ reg3_add_msg [of 7 "\<lambda>_. None"]]
    by (simp add: threads3_init_def loaded_def one_listed_def)
  ultimately show ?thesis by auto
qed

text \<open>
  Process 7 unregisters and finds the list empty; process 9 finds it empty too and registers; then the
  first of them cancels the work item.
\<close>

lemma work_cancelled:
  "any3_step\<^sup>*\<^sup>* (threads3_init (loaded ps)) (threads3_init (one_listed ps 2 9 False))"
proof -
  let ?t = "new_task3 (\<lambda>_. None)"
  let ?m1 = "(loaded ps)\<lparr>mp3_heap := [1 \<mapsto> ?t 7], work_pending := True\<rparr>"
  let ?m2 = "(loaded ps)\<lparr>mp3_head := [2], mp3_heap := [1 \<mapsto> ?t 7, 2 \<mapsto> ?t 9], work_pending := True\<rparr>"
  let ?m3 = "?m2\<lparr>work_pending := False\<rparr>"
  let ?s = "\<lambda>m fs us. \<lparr>module3 = m, flags = fs, removing = us, runs = 0\<rparr>"
  have "any3_step (threads3_init (one_listed ps 1 7 True)) (?s ?m1 [] [Unlinked 1])"
    using t3_unlink [of "\<lambda>_. True" "threads3_init (one_listed ps 1 7 True)" 0 "proc_msg (CHR ''U'') 7 @ [NUL]" 1 ?m1, OF TrueI]
      proc_msg_parsed [of 7]
    by (simp add: threads3_init_def one_listed_def unreg3_unlink_def loaded_def)
  moreover have "any3_step (?s ?m1 [] [Unlinked 1]) (?s ?m1 [] [Cancelling 1])"
    using t3_test [of "?s ?m1 [] [Unlinked 1]" "[]" 1 "[]" "\<lambda>_. True"] by (simp add: list_empty3_def loaded_def)
  moreover have "any3_step (?s ?m1 [] [Cancelling 1]) (?s ?m1 [True] [Cancelling 1])"
    using t3_flag [of "\<lambda>_. True" "?s ?m1 [] [Cancelling 1]"] by (simp add: list_empty3_def loaded_def)
  moreover have "any3_step (?s ?m1 [True] [Cancelling 1]) (?s ?m2 [] [Cancelling 1])"
    using t3_add [of "?s ?m1 [True] [Cancelling 1]" "[]" True "[]" 2, OF _ _ reg3_add_msg [of 9 "\<lambda>_. None"]]
    by (simp add: loaded_def)
  moreover have "any3_step (?s ?m2 [] [Cancelling 1]) (?s ?m3 [] [Flushing 1 0])"
    using t3_cancel [of "?s ?m2 [] [Cancelling 1]" "[]" 1 "[]" "\<lambda>_. True"] by (simp add: cancel_delayed_work_def)
  moreover have "any3_step (?s ?m3 [] [Flushing 1 0]) (?s ?m3 [] [Freeing 1])"
    using t3_flush [of "?s ?m3 [] [Flushing 1 0]" "[]" 1 0 "[]" "\<lambda>_. True"] by (simp add: loaded_def)
  moreover have "any3_step (?s ?m3 [] [Freeing 1]) (threads3_init (one_listed ps 2 9 False))"
    using t3_free [of "?s ?m3 [] [Freeing 1]" "[]" 1 "[]" "?m3\<lparr>mp3_heap := [2 \<mapsto> ?t 9]\<rparr>" "\<lambda>_. True"]
    by (simp add: unreg3_free_cases fun_upd_twist one_listed_def threads3_init_def loaded_def)
  ultimately show ?thesis
    using one_listed_threads [of "\<lambda>_. True" ps] by (meson TrueI rtranclp.rtrancl_into_rtrancl)
qed

section \<open>Properties\<close>


lemma mp3_init_loaded: "mp3_init True ps = Inr (loaded ps)"
  by (simp add: mp3_init_def loaded_def)


text \<open>
  C20. Sampling. If a write starts only while no other write is in progress, then in every interleaving with the
  work function the work item is pending or running whenever the list is not empty. Without this condition
  sampling can stop for good: the flag of a registration is read before the lock is taken, and the test and the
  cancellation of an unregistration come after it is released, so that there is a run after which a process is
  listed, no write is in progress, and the item is neither pending nor running. A later registration finds the
  list not empty and does not queue the item either.
\<close>
theorem mp3_sampling:
  assumes "mp3_init True ps = Inr m0"
  shows "(\<forall>s. (thread3_step solo)\<^sup>*\<^sup>* (threads3_init m0) s \<and> mp3_head (module3 s) \<noteq> [] \<longrightarrow>
            work_pending (module3 s) \<or> mp3_worker (module3 s) \<noteq> Idle)
     \<and> (\<exists>s. any3_step\<^sup>*\<^sup>* (threads3_init m0) s \<and> flags s = [] \<and> removing s = []
            \<and> mp3_head (module3 s) \<noteq> [] \<and> \<not> work_pending (module3 s) \<and> mp3_worker (module3 s) = Idle
            \<and> (\<forall>g a junk buf t. registration3 g a junk buf (module3 s) = Inr t \<longrightarrow> \<not> work_pending t))"
proof -
  have m0: "m0 = loaded ps" using assms mp3_init_loaded by simp
  have "work_pending (module3 s) \<or> mp3_worker (module3 s) \<noteq> Idle"
    if r: "(thread3_step solo)\<^sup>*\<^sup>* (threads3_init m0) s" and h: "mp3_head (module3 s) \<noteq> []" for s
    using mp3_solo.inv_reachable [OF _ r] assms h by (auto simp: sampling_inv_def sampling_def)
  moreover have "\<not> work_pending t" if "registration3 g a junk buf (one_listed ps 2 9 False) = Inr t" for g a junk buf t
    using that by (auto simp: registration3_unfold bind_r_Inr_iff Let_def one_listed_def)
  ultimately show ?thesis
    using work_cancelled [of ps] unfolding m0
    by (intro conjI allI impI exI [of _ "threads3_init (one_listed ps 2 9 False)"])
       (auto simp: threads3_init_def one_listed_def loaded_def)
qed

theorem mp3_sampling_witness:
  "\<exists>s. (thread3_step solo)\<^sup>*\<^sup>* (threads3_init (loaded Map.empty)) s \<and> mp3_head (module3 s) = [1]
     \<and> (work_pending (module3 s) \<or> mp3_worker (module3 s) \<noteq> Idle)"
proof -
  have r: "(thread3_step solo)\<^sup>*\<^sup>* (threads3_init (loaded Map.empty)) (threads3_init (one_listed Map.empty 1 7 True))"
    by (rule one_listed_threads) (simp add: solo_def threads3_init_def)
  have h: "mp3_head (module3 (threads3_init (one_listed Map.empty 1 7 True))) = [1]"
    by (simp add: threads3_init_def one_listed_def)
  show ?thesis using mp3_sampling [OF mp3_init_loaded] r h by fastforce
qed

end
