(* ===== verification/Task_Lookup.thy ===== *)
theory Task_Lookup
  imports MP3_Profiler
begin

text \<open>
  The lookup of a process and its counters in the headers \<^verbatim>\<open>src/MP2/mp2_given.h\<close> and
  \<^verbatim>\<open>src/MP3/mp3_given.h\<close>, with the read-side critical sections of RCU. The kernel is the depth of the
  nested sections and the heap of task objects; \<^verbatim>\<open>pid_task (find_vpid (nr), PIDTYPE_PID)\<close> is the
  parameter \<open>pid_task\<close>. A task object may be freed as soon as no section is open, so following a
  pointer to one outside every section is a fault.

  The profiler sees processes as a table from pids to counters (\<open>procs\<close>). The lemmas show that the
  lookup implements that table.
\<close>

section \<open>The kernel\<close>

record rcu_kernel =
  rcu_depth :: nat
  task_heap :: "addr \<rightharpoonup> counters"

definition rcu_read_lock :: "rcu_kernel \<Rightarrow> rcu_kernel" where
  "rcu_read_lock k = k\<lparr>rcu_depth := Suc (rcu_depth k)\<rparr>"

definition rcu_read_unlock :: "rcu_kernel \<Rightarrow> rcu_kernel" where
  "rcu_read_unlock k = k\<lparr>rcu_depth := rcu_depth k - 1\<rparr>"

definition task_deref :: "rcu_kernel \<Rightarrow> addr option \<Rightarrow> counters result" where
  "task_deref k p = (if rcu_depth k = 0 then Inl UseAfterFree else deref (task_heap k) p)"

section \<open>The headers\<close>

text \<open>\<^verbatim>\<open>find_task_by_pid\<close> of MP2. That of MP3 differs in a message when there is no such process.\<close>

definition find_task_mp2 :: "(u32 \<Rightarrow> addr option) \<Rightarrow> u32 \<Rightarrow> rcu_kernel \<Rightarrow> addr option \<times> rcu_kernel" where
  "find_task_mp2 pid_task nr k =
     (let k = rcu_read_lock k; task = pid_task nr; k = rcu_read_unlock k in (task, k))"

definition find_task_mp3 ::
  "(u32 \<Rightarrow> addr option) \<Rightarrow> u32 \<Rightarrow> rcu_kernel \<Rightarrow> addr option \<times> u32 list \<times> rcu_kernel" where
  "find_task_mp3 pid_task nr k =
     (let k = rcu_read_lock k; task = pid_task nr; k = rcu_read_unlock k
      in (task, if task = None then [nr] else [], k))"

text \<open>
  \<^verbatim>\<open>get_cpu_use\<close> of MP2: the return value and what is stored through \<^verbatim>\<open>cpu_use\<close>, if anything.
\<close>

definition get_cpu_use_mp2 ::
  "(u32 \<Rightarrow> addr option) \<Rightarrow> int \<Rightarrow> rcu_kernel \<Rightarrow> (int \<times> u64 option \<times> rcu_kernel) result" where
  "get_cpu_use_mp2 pid_task p k =
     (let k = rcu_read_lock k; (task, k) = find_task_mp2 pid_task (word_of_int p) k
      in if task \<noteq> None
         then bind_r (task_deref k task) (\<lambda>t. Inr (0, Some (utime t), rcu_read_unlock k))
         else Inr (- 1, None, rcu_read_unlock k))"

text \<open>\<^verbatim>\<open>get_cpu_use\<close> of MP3: the four counters are read and then reset, inside one section.\<close>

definition get_cpu_use_mp3 ::
  "(u32 \<Rightarrow> addr option) \<Rightarrow> int \<Rightarrow> rcu_kernel \<Rightarrow> (int \<times> counters option \<times> rcu_kernel) result" where
  "get_cpu_use_mp3 pid_task p k =
     (let k = rcu_read_lock k; (task, msgs, k) = find_task_mp3 pid_task (word_of_int p) k
      in case task of
           None \<Rightarrow> Inr (- 1, None, rcu_read_unlock k)
         | Some a \<Rightarrow>
             bind_r (task_deref k task) (\<lambda>t.
               let k = k\<lparr>task_heap := (task_heap k)(a \<mapsto> t\<lparr>maj_flt := 0, min_flt := 0, utime := 0, stime := 0\<rparr>)\<rparr>
               in Inr (0, Some t, rcu_read_unlock k)))"

section \<open>The table of processes\<close>

text \<open>
  What is documented of the lookup: it finds live tasks, and different processes have different
  tasks. The table that it implements.
\<close>

definition lookup_ok :: "(u32 \<Rightarrow> addr option) \<Rightarrow> rcu_kernel \<Rightarrow> bool" where
  "lookup_ok pid_task k \<longleftrightarrow> ran pid_task \<subseteq> dom (task_heap k) \<and> inj_on pid_task (dom pid_task)"

definition procs_of :: "(u32 \<Rightarrow> addr option) \<Rightarrow> rcu_kernel \<Rightarrow> int \<Rightarrow> counters option" where
  "procs_of pid_task k p =
     (if c_int p then (case pid_task (word_of_int p) of None \<Rightarrow> None | Some a \<Rightarrow> task_heap k a) else None)"

lemma lookup_live: "lookup_ok pid_task k \<Longrightarrow> pid_task nr = Some a \<Longrightarrow> \<exists>t. task_heap k a = Some t"
  by (auto simp: lookup_ok_def ran_def dom_def)

lemma rcu_section [simp]:
  "rcu_read_unlock (rcu_read_lock k) = k" "rcu_depth (rcu_read_lock k) = Suc (rcu_depth k)"
  "task_heap (rcu_read_lock k) = task_heap k" "task_heap (rcu_read_unlock k) = task_heap k"
  "rcu_depth (rcu_read_unlock k) = rcu_depth k - 1"
  by (simp_all add: rcu_read_lock_def rcu_read_unlock_def)

lemma zero_counters_upd: "t\<lparr>maj_flt := 0, min_flt := 0, utime := 0, stime := 0\<rparr> = zero_counters"
  by (cases t) (simp add: zero_counters_def)

text \<open>Two pids of 32 bits with the same task are the same.\<close>

lemma pid_word_eq: "c_int p \<Longrightarrow> c_int q \<Longrightarrow> (word_of_int p :: u32) = word_of_int q \<Longrightarrow> p = q"
proof -
  have "sint (word_of_int r :: u32) = r" if "c_int r" for r
    using that s32_id [of r] by (simp add: s32_def signed_of_int)
  then show "c_int p \<Longrightarrow> c_int q \<Longrightarrow> (word_of_int p :: u32) = word_of_int q \<Longrightarrow> p = q" by metis
qed

lemma procs_of_reset:
  assumes "lookup_ok pid_task k" and "c_int p" and "pid_task (word_of_int p) = Some a"
  shows "procs_of pid_task (k\<lparr>task_heap := (task_heap k)(a \<mapsto> z)\<rparr>) = (procs_of pid_task k)(p \<mapsto> z)"
proof
  fix q
  show "procs_of pid_task (k\<lparr>task_heap := (task_heap k)(a \<mapsto> z)\<rparr>) q = ((procs_of pid_task k)(p \<mapsto> z)) q"
  proof (cases "q = p \<or> \<not> c_int q")
    case False
    then have "(word_of_int q :: u32) \<noteq> word_of_int p" using pid_word_eq assms(2) by blast
    then have "pid_task (word_of_int q) \<noteq> Some a"
      using assms(1,3) unfolding lookup_ok_def by (metis (no_types) domI inj_onD)
    then show ?thesis using False by (auto simp: procs_of_def split: option.splits)
  qed (use assms in \<open>auto simp: procs_of_def\<close>)
qed

text \<open>
  C25. The lookup of processes implements the table of the profiler: for a lookup that finds live and
  different tasks, \<^verbatim>\<open>get_cpu_use\<close> of MP3 returns 0 with the counters of the process and resets exactly
  those, or -1 with nothing changed, as \<open>get_cpu_use3\<close> does on the table; that of MP2 returns the user
  time and changes nothing. Neither faults, both return with the sections they opened closed. But the
  pointer that \<^verbatim>\<open>find_task_by_pid\<close> returns to a caller outside every section, as in the registrations,
  is not safe to follow.
\<close>
theorem cpu_use_refines_table:
  assumes "lookup_ok pid_task k" and "c_int p"
  shows "\<exists>c k'. get_cpu_use3 p (s\<lparr>procs := procs_of pid_task k\<rparr>) = (c, s\<lparr>procs := procs_of pid_task k'\<rparr>)
     \<and> get_cpu_use_mp3 pid_task p k = Inr (if c = None then - 1 else 0, c, k')
     \<and> get_cpu_use_mp2 pid_task p k = Inr (if c = None then - 1 else 0, map_option utime c, k)
     \<and> rcu_depth k' = rcu_depth k \<and> lookup_ok pid_task k'
     \<and> (rcu_depth k = 0 \<longrightarrow> (case find_task_mp2 pid_task (word_of_int p) k of (task, k1) \<Rightarrow>
          task_deref k1 task = Inl UseAfterFree))"
proof (cases "pid_task (word_of_int p)")
  case None
  then show ?thesis using assms
    by (intro exI [of _ None] exI [of _ k])
       (simp add: get_cpu_use3_def get_cpu_use_mp2_def get_cpu_use_mp3_def find_task_mp2_def find_task_mp3_def
          procs_of_def task_deref_def Let_def)
next
  case (Some a)
  then obtain t where t: "task_heap k a = Some t" using lookup_live [OF assms(1)] by blast
  let ?k = "k\<lparr>task_heap := (task_heap k)(a \<mapsto> zero_counters)\<rparr>"
  have p: "procs_of pid_task k p = Some t" using Some t assms(2) by (simp add: procs_of_def)
  have unlock: "rcu_read_unlock ((rcu_read_lock k)\<lparr>task_heap := h\<rparr>) = k\<lparr>task_heap := h\<rparr>" for h
    by (cases k) (simp add: rcu_read_lock_def rcu_read_unlock_def)
  have "get_cpu_use_mp3 pid_task p k = Inr (0, Some t, ?k)"
    using Some t by (simp add: get_cpu_use_mp3_def find_task_mp3_def task_deref_def Let_def zero_counters_upd unlock)
  moreover have "get_cpu_use_mp2 pid_task p k = Inr (0, Some (utime t), k)"
    using Some t by (simp add: get_cpu_use_mp2_def find_task_mp2_def task_deref_def Let_def)
  moreover have "lookup_ok pid_task ?k" using assms(1) by (auto simp: lookup_ok_def)
  ultimately show ?thesis using p procs_of_reset [OF assms Some, of zero_counters]
    by (intro exI [of _ "Some t"] exI [of _ ?k])
       (simp add: get_cpu_use3_def find_task_mp2_def task_deref_def Let_def)
qed

definition demo_kernel :: rcu_kernel where
  "demo_kernel = \<lparr>rcu_depth = 0, task_heap = [100 \<mapsto> \<lparr>min_flt = 1, maj_flt = 2, utime = 3, stime = 4\<rparr>]\<rparr>"

theorem cpu_use_refines_table_witness:
  "\<exists>c k'. get_cpu_use_mp3 [7 \<mapsto> 100] 7 demo_kernel = Inr (if c = None then - 1 else 0, c, k')
     \<and> get_cpu_use_mp2 [7 \<mapsto> 100] 7 demo_kernel = Inr (if c = None then - 1 else 0, map_option utime c, demo_kernel)
     \<and> rcu_depth k' = 0"
proof -
  have "lookup_ok [7 \<mapsto> 100] demo_kernel" by (simp add: lookup_ok_def demo_kernel_def)
  moreover have "rcu_depth demo_kernel = 0" by (simp add: demo_kernel_def)
  ultimately show ?thesis
    using cpu_use_refines_table [of "[7 \<mapsto> 100]" demo_kernel 7] unfolding c_int_def by fastforce
qed

end
