(* ===== verification/MP4_Queue.thy ===== *)
theory MP4_Queue
  imports Prelude
begin

text \<open>
  The bounded thread-safe queue of MP4 (\<^verbatim>\<open>src/MP4/queue.c\<close>, \<^verbatim>\<open>src/MP4/queue.h\<close>), at the level of its
  linked list: nodes in a heap, a head and a tail pointer, a size and a capacity (0 or less for
  none). The part of each operation between locking and unlocking the mutex, after the wait loop
  has ended, is a function of heap and queue; the condition of the wait loop is a predicate. The
  queue is shown to implement a first-in first-out list (\<open>queue_rep\<close>), and the locale
  \<open>bounded_fifo\<close> states the contract the callers use.

  The data pointers hold job numbers cast to \<^verbatim>\<open>void*\<close>, so data is an \<^typ>\<open>int\<close>.
\<close>

section \<open>Operations\<close>

record queue_node =
  next_node :: "addr option"
  data :: int

record queue_t =
  q_head :: "addr option"
  q_tail :: "addr option"
  q_size :: int
  q_maxSize :: int

type_synonym queue_heap = "addr \<rightharpoonup> queue_node"
type_synonym queue_state = "queue_heap \<times> queue_t"

definition queue_create :: "int \<Rightarrow> queue_t" where
  "queue_create maxSize = \<lparr>q_head = None, q_tail = None, q_size = 0, q_maxSize = maxSize\<rparr>"

text \<open>The conditions of the two wait loops.\<close>

definition push_blocks :: "queue_t \<Rightarrow> bool" where
  "push_blocks q \<longleftrightarrow> q_maxSize q > 0 \<and> q_size q = q_maxSize q"

definition pull_blocks :: "queue_t \<Rightarrow> bool" where
  "pull_blocks q \<longleftrightarrow> q_size q = 0"

text \<open>
  The body of \<^verbatim>\<open>queue_push\<close> after the wait, with the new node at address \<open>nd\<close>: whether the condition
  variable is broadcast, and the new state.
\<close>

definition queue_push :: "addr \<Rightarrow> int \<Rightarrow> queue_state \<Rightarrow> (bool \<times> queue_state) result" where
  "queue_push nd d = (\<lambda>(h, q).
     let h = h(nd \<mapsto> \<lparr>next_node = None, data = d\<rparr>); q = q\<lparr>q_size := s32 (q_size q + 1)\<rparr> in
     bind_r (case q_tail q of
               Some t \<Rightarrow> bind_r (deref h (Some t)) (\<lambda>n. Inr (h(t \<mapsto> n\<lparr>next_node := Some nd\<rparr>), q))
             | None \<Rightarrow> Inr (h, q\<lparr>q_head := Some nd\<rparr>))
       (\<lambda>(h, q). Inr (q_size q = 1, h, q\<lparr>q_tail := Some nd\<rparr>)))"

text \<open>The body of \<^verbatim>\<open>queue_pull\<close> after the wait: the data, whether it broadcasts, the new state.\<close>

definition queue_pull :: "queue_state \<Rightarrow> (int \<times> bool \<times> queue_state) result" where
  "queue_pull = (\<lambda>(h, q).
     let tofree = q_head q in
     bind_r (deref h (q_head q)) (\<lambda>n.
       let q = q\<lparr>q_size := s32 (q_size q - 1)\<rparr>;
           q = (if q_size q = 0 then q\<lparr>q_tail := None\<rparr> else q);
           q = q\<lparr>q_head := next_node n\<rparr> in
       bind_r (kfree h (the tofree)) (\<lambda>h.
         Inr (data n, q_maxSize q > 0 \<and> q_size q = q_maxSize q - 1, h, q))))"

text \<open>
  \<^verbatim>\<open>queue_destroy\<close> walks the list and frees each node. A list may be cyclic in principle, so the
  walk is a partial function.
\<close>

partial_function (option) destroy_loop :: "queue_heap \<Rightarrow> addr option \<Rightarrow> queue_heap result option" where
  "destroy_loop h cur =
     (case cur of
        None \<Rightarrow> Some (Inr h)
      | Some a \<Rightarrow>
          (case deref h (Some a) of
             Inl e \<Rightarrow> Some (Inl e)
           | Inr n \<Rightarrow>
               (case kfree h a of Inl e \<Rightarrow> Some (Inl e) | Inr h' \<Rightarrow> destroy_loop h' (next_node n))))"

declare destroy_loop.simps [code]

definition queue_destroy :: "queue_state \<Rightarrow> queue_heap result option" where
  "queue_destroy = (\<lambda>(h, q). destroy_loop h (q_head q))"

section \<open>The linked list represents a list\<close>

text \<open>\<open>chain h p ns\<close>: from \<open>p\<close> the heap links the nodes \<open>ns\<close>, given with their addresses.\<close>

fun chain :: "queue_heap \<Rightarrow> addr option \<Rightarrow> (addr \<times> int) list \<Rightarrow> bool" where
  "chain h p [] \<longleftrightarrow> p = None"
| "chain h p ((a, d) # ns) \<longleftrightarrow>
     p = Some a \<and> (case h a of None \<Rightarrow> False | Some n \<Rightarrow> data n = d \<and> chain h (next_node n) ns)"

definition queue_nodes :: "queue_state \<Rightarrow> (addr \<times> int) list \<Rightarrow> bool" where
  "queue_nodes = (\<lambda>(h, q) ns.
     chain h (q_head q) ns \<and> distinct (map fst ns) \<and> dom h = set (map fst ns)
     \<and> q_tail q = (if ns = [] then None else Some (fst (last ns)))
     \<and> q_size q = int (length ns)
     \<and> c_int (q_maxSize q) \<and> (if q_maxSize q > 0 then int (length ns) \<le> q_maxSize q else length ns < 2147483647))"

definition queue_rep :: "queue_state \<Rightarrow> int list \<Rightarrow> bool" where
  "queue_rep s xs \<longleftrightarrow> (\<exists>ns. queue_nodes s ns \<and> map snd ns = xs)"

lemma chain_frame:
  "chain h p ns \<Longrightarrow> (\<And>a. a \<in> set (map fst ns) \<Longrightarrow> h' a = h a) \<Longrightarrow> chain h' p ns"
  by (induction h p ns rule: chain.induct) (auto split: option.splits)

lemma chain_append:
  assumes "chain h p (ns @ [(t, dt)])" and "distinct (map fst (ns @ [(t, dt)]))"
    and "nd \<notin> set (map fst (ns @ [(t, dt)]))" and "h t = Some n"
  shows "chain (h(nd \<mapsto> \<lparr>next_node = None, data = d\<rparr>, t \<mapsto> n\<lparr>next_node := Some nd\<rparr>)) p
           (ns @ [(t, dt), (nd, d)])"
  using assms
proof (induction ns arbitrary: p)
  case (Cons m ns)
  obtain a x where m: "m = (a, x)" by fastforce
  with Cons.prems(1) obtain k where k: "p = Some a" "h a = Some k" "data k = x"
      "chain h (next_node k) (ns @ [(t, dt)])"
    by (auto split: option.splits)
  define h' where "h' = h(nd \<mapsto> \<lparr>next_node = None, data = d\<rparr>, t \<mapsto> n\<lparr>next_node := Some nd\<rparr>)"
  have "chain h' (next_node k) (ns @ [(t, dt), (nd, d)])"
    unfolding h'_def using Cons.prems(2-4) m k(4) by (intro Cons.IH) auto
  moreover have "h' a = Some k" using k(2) Cons.prems(2,3) m by (auto simp: h'_def)
  ultimately show ?case unfolding h'_def [symmetric] using k m by simp
qed auto

lemma chain_last: "chain h p ns \<Longrightarrow> ns \<noteq> [] \<Longrightarrow> \<exists>n. h (fst (last ns)) = Some n"
  by (induction h p ns rule: chain.induct) (auto split: option.splits if_splits)

lemma queue_rep_create: "c_int m \<Longrightarrow> queue_rep (Map.empty, queue_create m) []"
  by (simp add: queue_rep_def queue_nodes_def queue_create_def)

lemma queue_rep_size: "queue_rep (h, q) xs \<Longrightarrow> q_size q = int (length xs)"
  by (auto simp: queue_rep_def queue_nodes_def)

lemma queue_push_nodes:
  assumes "queue_nodes (h, q) ns" and "h nd = None" and "\<not> push_blocks q"
    and "q_maxSize q > 0 \<or> length ns < 2147483646"
  shows "\<exists>s'. queue_push nd d (h, q) = Inr (ns = [], s') \<and> queue_nodes s' (ns @ [(nd, d)])
           \<and> q_maxSize (snd s') = q_maxSize q"
proof -
  have size: "s32 (q_size q + 1) = int (length ns) + 1"
    using assms by (auto simp: queue_nodes_def push_blocks_def c_int_def intro!: s32_id split: if_splits)
  have fresh: "nd \<notin> set (map fst ns)" using assms(1,2) by (auto simp: queue_nodes_def)
  have room: "if q_maxSize q > 0 then int (length ns) + 1 \<le> q_maxSize q else Suc (length ns) < 2147483647"
    using assms by (auto simp: queue_nodes_def push_blocks_def split: if_splits)
  show ?thesis
  proof (cases ns rule: rev_cases)
    case Nil
    then show ?thesis using assms size room
      by (auto simp: queue_nodes_def queue_push_def Let_def)
  next
    case (snoc ms m)
    obtain t dt where m: "m = (t, dt)" by fastforce
    obtain n where n: "h t = Some n"
      using assms(1) snoc m chain_last [of h "q_head q" ns] by (auto simp: queue_nodes_def)
    have "t \<noteq> nd" using fresh snoc m by auto
    moreover have "chain (h(nd \<mapsto> \<lparr>next_node = None, data = d\<rparr>, t \<mapsto> n\<lparr>next_node := Some nd\<rparr>)) (q_head q)
        (ms @ [(t, dt), (nd, d)])"
      using assms(1) snoc m n fresh by (intro chain_append) (auto simp: queue_nodes_def)
    moreover have "dom (h(nd \<mapsto> \<lparr>next_node = None, data = d\<rparr>, t \<mapsto> n\<lparr>next_node := Some nd\<rparr>))
        = set (map fst (ms @ [(t, dt), (nd, d)]))"
      using assms(1) snoc m by (auto simp: queue_nodes_def)
    ultimately show ?thesis using assms(1) size room snoc m n fresh
      by (auto simp: queue_nodes_def queue_push_def Let_def split: if_splits)
  qed
qed

lemma queue_pull_nodes:
  assumes "queue_nodes (h, q) ((a, d) # ns)"
  shows "\<exists>s'. queue_pull (h, q) = Inr (d, q_maxSize q > 0 \<and> int (length ns) = q_maxSize q - 1, s')
           \<and> queue_nodes s' ns \<and> q_maxSize (snd s') = q_maxSize q"
proof -
  obtain n where n: "q_head q = Some a" "h a = Some n" "data n = d" "chain h (next_node n) ns"
    using assms by (auto simp: queue_nodes_def split: option.splits)
  have size: "s32 (q_size q - 1) = int (length ns)"
    using assms by (auto simp: queue_nodes_def c_int_def intro!: s32_id split: if_splits)
  have ch: "chain (h(a := None)) (next_node n) ns"
    using n(4) assms by (intro chain_frame [OF n(4)]) (auto simp: queue_nodes_def)
  have dom: "dom (h(a := None)) = set (map fst ns)"
    using assms by (auto simp: queue_nodes_def)
  show ?thesis
    using assms n size ch dom
    by (cases "ns = []") (auto simp: queue_pull_def queue_nodes_def Let_def split: if_splits)
qed

lemma queue_push_rep:
  assumes "queue_rep (h, q) xs" and "h nd = None" and "\<not> push_blocks q"
    and "q_maxSize q > 0 \<or> length xs < 2147483646"
  shows "\<exists>s'. queue_push nd d (h, q) = Inr (xs = [], s') \<and> queue_rep s' (xs @ [d])
           \<and> q_maxSize (snd s') = q_maxSize q"
proof -
  obtain ns where ns: "queue_nodes (h, q) ns" "xs = map snd ns"
    using assms(1) by (auto simp: queue_rep_def)
  from queue_push_nodes [OF ns(1) assms(2,3), of d] assms(4) ns(2) obtain s' where
    "queue_push nd d (h, q) = Inr (ns = [], s')" "queue_nodes s' (ns @ [(nd, d)])"
    "q_maxSize (snd s') = q_maxSize q" by auto
  then show ?thesis using ns(2) by (auto simp: queue_rep_def intro!: exI [of _ "ns @ [(nd, d)]"])
qed

lemma queue_pull_rep:
  assumes "queue_rep (h, q) (d # xs)"
  shows "\<exists>s'. queue_pull (h, q) = Inr (d, q_maxSize q > 0 \<and> int (length xs) = q_maxSize q - 1, s')
           \<and> queue_rep s' xs \<and> q_maxSize (snd s') = q_maxSize q"
proof -
  obtain a ns where ns: "queue_nodes (h, q) ((a, d) # ns)" "xs = map snd ns"
    using assms by (auto simp: queue_rep_def Cons_eq_map_conv)
  then show ?thesis using queue_pull_nodes [OF ns(1)] by (auto simp: queue_rep_def)
qed

text \<open>Destroying a well-formed queue ends, frees every node once and leaves nothing.\<close>

lemma destroy_loop_chain:
  "chain h p ns \<Longrightarrow> distinct (map fst ns) \<Longrightarrow>
   destroy_loop h p = Some (Inr (h |` (- set (map fst ns))))"
proof (induction ns arbitrary: h p)
  case Nil
  then show ?case by (simp add: destroy_loop.simps restrict_map_def)
next
  case (Cons m ns)
  obtain a d where m: "m = (a, d)" by fastforce
  with Cons.prems obtain n where n: "p = Some a" "h a = Some n" "chain h (next_node n) ns"
    by (auto split: option.splits)
  have "chain (h(a := None)) (next_node n) ns"
    using n(3) Cons.prems(2) m by (intro chain_frame [OF n(3)]) auto
  then have "destroy_loop (h(a := None)) (next_node n) =
      Some (Inr (h(a := None) |` (- set (map fst ns))))"
    by (rule Cons.IH) (use Cons.prems(2) in simp)
  moreover have "h(a := None) |` (- set (map fst ns)) = h |` (- set (map fst (m # ns)))"
    using m by (auto simp: restrict_map_def fun_eq_iff)
  ultimately show ?case using n by (subst destroy_loop.simps) simp
qed

lemma queue_destroy_rep:
  assumes "queue_rep s xs"
  shows "queue_destroy s = Some (Inr Map.empty)"
proof -
  obtain h q where s: "s = (h, q)" by fastforce
  then obtain ns where "chain h (q_head q) ns" "distinct (map fst ns)" "dom h = set (map fst ns)"
    using assms by (auto simp: queue_rep_def queue_nodes_def)
  moreover from this have "h |` (- set (map fst ns)) = Map.empty"
    by (auto simp: restrict_map_def fun_eq_iff domIff)
  ultimately show ?thesis using destroy_loop_chain [of h "q_head q" ns] by (simp add: queue_destroy_def s)
qed

section \<open>The contract\<close>

text \<open>
  What the threads of MP4 rely on: an operation whose wait loop has ended never faults, a push
  appends, a pull takes the oldest element, and the two wait conditions say that the represented
  list is full or empty. The capacity does not change. The derived lemma runs a sequence of
  operations, skipping those that would block: what was pulled, followed by what is left, is what
  was there followed by what was pushed.
\<close>

datatype queue_op = Push nat int | Pull

locale bounded_fifo =
  fixes rep :: "'s \<Rightarrow> int list \<Rightarrow> bool"
    and fresh :: "'s \<Rightarrow> addr \<Rightarrow> bool"
    and cap :: "'s \<Rightarrow> nat"
    and full :: "'s \<Rightarrow> bool"
    and empty :: "'s \<Rightarrow> bool"
    and push :: "addr \<Rightarrow> int \<Rightarrow> 's \<Rightarrow> (bool \<times> 's) result"
    and pull :: "'s \<Rightarrow> (int \<times> bool \<times> 's) result"
  assumes rep_full: "rep s xs \<Longrightarrow> full s \<longleftrightarrow> length xs = cap s"
    and rep_empty: "rep s xs \<Longrightarrow> empty s \<longleftrightarrow> xs = []"
    and rep_bound: "rep s xs \<Longrightarrow> length xs \<le> cap s"
    and push_ok: "rep s xs \<Longrightarrow> fresh s a \<Longrightarrow> \<not> full s \<Longrightarrow>
          \<exists>t. push a d s = Inr (xs = [], t) \<and> rep t (xs @ [d]) \<and> cap t = cap s"
    and pull_ok: "rep s (d # xs) \<Longrightarrow>
          \<exists>t. pull s = Inr (d, Suc (length xs) = cap s, t) \<and> rep t xs \<and> cap t = cap s"
begin

text \<open>Running operations that do not block; the pushed and the pulled values are collected.\<close>

fun run :: "queue_op list \<Rightarrow> 's \<Rightarrow> int list \<Rightarrow> int list \<Rightarrow> (int list \<times> int list \<times> 's) result" where
  "run [] s ins outs = Inr (ins, outs, s)"
| "run (Push a d # ops) s ins outs =
     (if full s \<or> \<not> fresh s a then run ops s ins outs
      else bind_r (push a d s) (\<lambda>(b, t). run ops t (ins @ [d]) outs))"
| "run (Pull # ops) s ins outs =
     (if empty s then run ops s ins outs
      else bind_r (pull s) (\<lambda>(d, b, t). run ops t ins (outs @ [d])))"

lemma run_fifo:
  "rep s xs \<Longrightarrow> ini @ ins = outs @ xs \<Longrightarrow>
   \<exists>ins' outs' t xs'. run ops s ins outs = Inr (ins', outs', t) \<and> rep t xs'
     \<and> ini @ ins' = outs' @ xs' \<and> cap t = cap s"
proof (induction ops s ins outs arbitrary: xs rule: run.induct)
  case (1 s ins outs)
  then show ?case by auto
next
  case (2 a d ops s ins outs)
  show ?case
  proof (cases "full s \<or> \<not> fresh s a")
    case True
    then show ?thesis using 2 by auto
  next
    case False
    then obtain t where t: "push a d s = Inr (xs = [], t)" "rep t (xs @ [d])" "cap t = cap s"
      using push_ok [OF "2.prems"(1)] by blast
    then show ?thesis using "2.IH"(2) [OF False t(2)] "2.prems"(2) False by auto
  qed
next
  case (3 ops s ins outs)
  show ?case
  proof (cases "empty s")
    case True
    then show ?thesis using 3 by auto
  next
    case False
    then obtain d ys where xs: "xs = d # ys" using rep_empty [OF "3.prems"(1)] by (cases xs) auto
    then obtain t where t: "pull s = Inr (d, Suc (length ys) = cap s, t)" "rep t ys" "cap t = cap s"
      using pull_ok "3.prems"(1) by blast
    then show ?thesis using "3.IH"(2) [OF False t(2)] "3.prems"(2) False xs by auto
  qed
qed

end

text \<open>The pointer queue with a positive capacity keeps the contract.\<close>

abbreviation bounded_rep :: "queue_state \<Rightarrow> int list \<Rightarrow> bool" where
  "bounded_rep s xs \<equiv> queue_rep s xs \<and> q_maxSize (snd s) > 0"

interpretation mp4_q: bounded_fifo bounded_rep "\<lambda>s a. fst s a = None" "\<lambda>s. nat (q_maxSize (snd s))"
    "\<lambda>s. push_blocks (snd s)" "\<lambda>s. pull_blocks (snd s)" queue_push queue_pull
proof (unfold_locales, goal_cases)
  case (1 s xs)
  then show ?case using queue_rep_size [of "fst s" "snd s" xs] by (auto simp: push_blocks_def)
next
  case (2 s xs)
  then show ?case using queue_rep_size [of "fst s" "snd s" xs] by (auto simp: pull_blocks_def)
next
  case (3 s xs)
  then show ?case by (auto simp: queue_rep_def queue_nodes_def)
next
  case (4 s xs a d)
  then show ?case using queue_push_rep [of "fst s" "snd s" xs a d] by auto
next
  case (5 s d xs)
  have "(q_maxSize (snd s) > 0 \<and> int (length xs) = q_maxSize (snd s) - 1)
      \<longleftrightarrow> Suc (length xs) = nat (q_maxSize (snd s))"
    using 5 by auto
  then show ?case using 5 queue_pull_rep [of "fst s" "snd s" d xs] by auto
qed

end
