(* ===== verification/MP4_Queue_Threads.thy ===== *)
theory MP4_Queue_Threads
  imports MP4_Queue
begin

text \<open>
  Threads on the queue of \<^verbatim>\<open>src/MP4/queue.c\<close>: the mutex makes each critical section one step, and a
  thread whose wait condition holds sleeps on the one condition variable that producers and
  consumers share until it is broadcast (or wakes up spuriously) and then tests its condition
  again. A push broadcasts only when the size becomes 1 and a pull only when it becomes one less
  than the capacity; the invariant shows that no wake-up is lost by that.
\<close>

datatype pc = Outside | PushTry int | PushWait int | PullTry | PullWait

record queue_threads =
  shared :: queue_state
  pcs :: "nat \<Rightarrow> pc"
  pushed :: "int list"
  pulled :: "int list"

text \<open>\<^verbatim>\<open>pthread_cond_broadcast\<close>: every waiting thread goes back to its test.\<close>

fun wake :: "pc \<Rightarrow> pc" where
  "wake (PushWait d) = PushTry d"
| "wake PullWait = PullTry"
| "wake p = p"

definition broadcast :: "bool \<Rightarrow> (nat \<Rightarrow> pc) \<Rightarrow> nat \<Rightarrow> pc" where
  "broadcast b ps = (if b then wake \<circ> ps else ps)"

text \<open>
  One turn of a thread at the head of its wait loop: it goes to sleep or completes the operation.
  \<open>nd\<close> is the address of the node that \<^verbatim>\<open>malloc\<close> returned. The two lists record the completed
  operations.
\<close>

definition push_turn :: "nat \<Rightarrow> addr \<Rightarrow> int \<Rightarrow> queue_threads \<Rightarrow> queue_threads result" where
  "push_turn t nd d s =
     (if push_blocks (snd (shared s)) then Inr (s\<lparr>pcs := (pcs s)(t := PushWait d)\<rparr>)
      else bind_r (queue_push nd d (shared s)) (\<lambda>(b, q).
        Inr (s\<lparr>shared := q, pcs := (broadcast b (pcs s))(t := Outside), pushed := pushed s @ [d]\<rparr>)))"

definition pull_turn :: "nat \<Rightarrow> queue_threads \<Rightarrow> queue_threads result" where
  "pull_turn t s =
     (if pull_blocks (snd (shared s)) then Inr (s\<lparr>pcs := (pcs s)(t := PullWait)\<rparr>)
      else bind_r (queue_pull (shared s)) (\<lambda>(d, b, q).
        Inr (s\<lparr>shared := q, pcs := (broadcast b (pcs s))(t := Outside), pulled := pulled s @ [d]\<rparr>)))"

inductive queue_step :: "queue_threads \<Rightarrow> queue_threads \<Rightarrow> bool" where
  q_call_push: "pcs s t = Outside \<Longrightarrow> queue_step s (s\<lparr>pcs := (pcs s)(t := PushTry d)\<rparr>)"
| q_call_pull: "pcs s t = Outside \<Longrightarrow> queue_step s (s\<lparr>pcs := (pcs s)(t := PullTry)\<rparr>)"
| q_push: "pcs s t = PushTry d \<Longrightarrow> fst (shared s) nd = None \<Longrightarrow> push_turn t nd d s = Inr s' \<Longrightarrow>
    queue_step s s'"
| q_pull: "pcs s t = PullTry \<Longrightarrow> pull_turn t s = Inr s' \<Longrightarrow> queue_step s s'"
| q_spurious: "queue_step s (s\<lparr>pcs := (pcs s)(t := wake (pcs s t))\<rparr>)"

inductive_cases queue_stepE: "queue_step s t"

definition threads_start :: "int \<Rightarrow> queue_threads" where
  "threads_start maxSize = \<lparr>shared = (Map.empty, queue_create maxSize), pcs = \<lambda>_. Outside,
     pushed = [], pulled = []\<rparr>"

definition wait_inv :: "int list \<Rightarrow> nat \<Rightarrow> (nat \<Rightarrow> pc) \<Rightarrow> bool" where
  "wait_inv xs m ps \<longleftrightarrow>
     (\<forall>t. (ps t = PullWait \<longrightarrow> xs = []) \<and> (\<forall>d. ps t = PushWait d \<longrightarrow> length xs = m))"

definition threads_inv :: "int \<Rightarrow> queue_threads \<Rightarrow> bool" where
  "threads_inv m s \<longleftrightarrow> q_maxSize (snd (shared s)) = m \<and> m > 0 \<and>
     (\<exists>xs. queue_rep (shared s) xs \<and> pushed s = pulled s @ xs \<and> wait_inv xs (nat m) (pcs s))"

lemma wake_no_wait [simp]: "wake p \<noteq> PullWait" "wake p \<noteq> PushWait d"
  by (cases p; simp)+

lemma wait_inv_upd:
  "wait_inv xs m ps \<Longrightarrow> p \<noteq> PullWait \<Longrightarrow> (\<And>d. p \<noteq> PushWait d) \<Longrightarrow> wait_inv xs m (ps(t := p))"
  by (simp add: wait_inv_def)

lemma wait_inv_broadcast:
  assumes "b \<or> (\<forall>t. ps t \<noteq> PullWait \<and> (\<forall>d. ps t \<noteq> PushWait d))"
  shows "wait_inv ys m (broadcast b ps)"
  using assms by (auto simp: wait_inv_def broadcast_def)

text \<open>
  The central argument: a push into a list that is neither empty nor full finds nobody waiting,
  and so does a pull from one that is neither.
\<close>

lemma threads_inv_push:
  assumes "threads_inv m s" and "fst (shared s) nd = None" and "push_turn t nd d s = Inr s'"
  shows "threads_inv m s'"
proof -
  obtain xs where m: "q_maxSize (snd (shared s)) = m" "m > 0" and r: "queue_rep (shared s) xs"
      and h: "pushed s = pulled s @ xs" and w: "wait_inv xs (nat m) (pcs s)"
    using assms(1) by (auto simp: threads_inv_def)
  have full: "push_blocks (snd (shared s)) \<longleftrightarrow> length xs = nat m"
    using mp4_q.rep_full [of "shared s" xs] r m by simp
  show ?thesis
  proof (cases "push_blocks (snd (shared s))")
    case True
    have "wait_inv xs (nat m) ((pcs s)(t := PushWait d))"
      using w True full by (auto simp: wait_inv_def)
    then show ?thesis using assms(3) True r h m by (auto simp: push_turn_def threads_inv_def)
  next
    case False
    then obtain q where q: "queue_push nd d (shared s) = Inr (xs = [], q)" "queue_rep q (xs @ [d])"
        "q_maxSize (snd q) = m"
      using mp4_q.push_ok [of "shared s" xs nd d] r m assms(2) by auto
    have "wait_inv (xs @ [d]) (nat m) (broadcast (xs = []) (pcs s))"
      using w False full by (intro wait_inv_broadcast) (auto simp: wait_inv_def)
    then have "wait_inv (xs @ [d]) (nat m) ((broadcast (xs = []) (pcs s))(t := Outside))"
      by (rule wait_inv_upd) simp_all
    then show ?thesis using assms(3) False q h m by (auto simp: push_turn_def threads_inv_def)
  qed
qed

lemma threads_inv_pull:
  assumes "threads_inv m s" and "pull_turn t s = Inr s'"
  shows "threads_inv m s'"
proof -
  obtain xs where m: "q_maxSize (snd (shared s)) = m" "m > 0" and r: "queue_rep (shared s) xs"
      and h: "pushed s = pulled s @ xs" and w: "wait_inv xs (nat m) (pcs s)"
    using assms(1) by (auto simp: threads_inv_def)
  have emp: "pull_blocks (snd (shared s)) \<longleftrightarrow> xs = []"
    using mp4_q.rep_empty [of "shared s" xs] r m by simp
  show ?thesis
  proof (cases "pull_blocks (snd (shared s))")
    case True
    have "wait_inv xs (nat m) ((pcs s)(t := PullWait))"
      using w True emp by (auto simp: wait_inv_def)
    then show ?thesis using assms(2) True r h m by (auto simp: pull_turn_def threads_inv_def)
  next
    case False
    then obtain d ys where xs: "xs = d # ys" using emp by (cases xs) auto
    let ?b = "Suc (length ys) = nat m"
    obtain q where q: "queue_pull (shared s) = Inr (d, ?b, q)" "queue_rep q ys" "q_maxSize (snd q) = m"
      using mp4_q.pull_ok [of "shared s" d ys] r m xs by auto
    have "wait_inv ys (nat m) (broadcast ?b (pcs s))"
      using w xs by (intro wait_inv_broadcast) (auto simp: wait_inv_def)
    then have "wait_inv ys (nat m) ((broadcast ?b (pcs s))(t := Outside))"
      by (rule wait_inv_upd) simp_all
    then show ?thesis using assms(2) False q h m xs by (auto simp: pull_turn_def threads_inv_def)
  qed
qed

lemma threads_inv_pcs:
  "threads_inv m s \<Longrightarrow> p \<noteq> PullWait \<Longrightarrow> (\<And>d. p \<noteq> PushWait d) \<Longrightarrow>
   threads_inv m (s\<lparr>pcs := (pcs s)(t := p)\<rparr>)"
  by (auto simp: threads_inv_def intro: wait_inv_upd)

lemma threads_inv_start: "0 < m \<Longrightarrow> c_int m \<Longrightarrow> threads_inv m (threads_start m)"
  using queue_rep_create [of m]
  by (auto simp: threads_inv_def threads_start_def queue_create_def wait_inv_def)

section \<open>Refinement of a bounded buffer\<close>

text \<open>
  The specification knows neither nodes nor waiting threads: a producer appends to what was pushed
  when there is room, a consumer takes the oldest element not yet pulled.
\<close>

inductive buffer_step :: "nat \<Rightarrow> int list \<times> int list \<Rightarrow> int list \<times> int list \<Rightarrow> bool" for m where
  buffer_put: "length ins < length outs + m \<Longrightarrow> buffer_step m (ins, outs) (ins @ [d], outs)"
| buffer_get: "length outs < length ins \<Longrightarrow> buffer_step m (ins, outs) (ins, outs @ [ins ! length outs])"

definition buffer_of :: "queue_threads \<Rightarrow> int list \<times> int list" where
  "buffer_of s = (pushed s, pulled s)"

lemma push_turn_buffer:
  assumes "threads_inv m s" and "fst (shared s) nd = None" and "push_turn t nd d s = Inr s'"
  shows "buffer_of s' = buffer_of s \<or> buffer_step (nat m) (buffer_of s) (buffer_of s')"
proof -
  obtain xs where m: "q_maxSize (snd (shared s)) = m" "m > 0" and r: "queue_rep (shared s) xs"
      and h: "pushed s = pulled s @ xs"
    using assms(1) by (auto simp: threads_inv_def)
  have "length xs < nat m" if "\<not> push_blocks (snd (shared s))"
    using that mp4_q.rep_full [of "shared s" xs] mp4_q.rep_bound [of "shared s" xs] r m by auto
  then show ?thesis
    using assms(3) h buffer_put [of "pulled s @ xs" "pulled s" "nat m" d]
    by (auto simp: push_turn_def buffer_of_def bind_r_def split: if_splits sum.splits)
qed

lemma pull_turn_buffer:
  assumes "threads_inv m s" and "pull_turn t s = Inr s'"
  shows "buffer_of s' = buffer_of s \<or> buffer_step (nat m) (buffer_of s) (buffer_of s')"
proof -
  obtain xs where m: "q_maxSize (snd (shared s)) = m" "m > 0" and r: "queue_rep (shared s) xs"
      and h: "pushed s = pulled s @ xs"
    using assms(1) by (auto simp: threads_inv_def)
  show ?thesis
  proof (cases "pull_blocks (snd (shared s))")
    case False
    then obtain d ys where xs: "xs = d # ys" using mp4_q.rep_empty [of "shared s" xs] r m by (cases xs) auto
    then obtain b q where "queue_pull (shared s) = Inr (d, b, q)"
      using mp4_q.pull_ok [of "shared s" d ys] r m by auto
    then have "buffer_of s' = (pushed s, pulled s @ [d])"
      using assms(2) False by (auto simp: pull_turn_def buffer_of_def)
    then show ?thesis using buffer_get [of "pulled s" "pushed s" "nat m"] by (simp add: buffer_of_def h xs)
  qed (use assms(2) in \<open>auto simp: pull_turn_def buffer_of_def\<close>)
qed

interpretation mp4_threads: refinement "\<lambda>s. 0 < m \<and> c_int m \<and> s = threads_start m"
    queue_step "threads_inv m" buffer_of "buffer_step (nat m)" for m
proof unfold_locales
  show "0 < m \<and> c_int m \<and> s = threads_start m \<Longrightarrow> threads_inv m s" for s
    by (auto intro: threads_inv_start)
  show "threads_inv m s \<Longrightarrow> queue_step s t \<Longrightarrow> threads_inv m t" for s t
    by (erule queue_stepE) (auto intro: threads_inv_push threads_inv_pull threads_inv_pcs)
  show "buffer_of t = buffer_of s \<or> buffer_step (nat m) (buffer_of s) (buffer_of t)"
    if "threads_inv m s" and "queue_step s t" for s t
    using that(2)
  proof cases
    case (q_push u d nd)
    then show ?thesis using push_turn_buffer [OF that(1)] by blast
  next
    case (q_pull u)
    then show ?thesis using pull_turn_buffer [OF that(1)] by blast
  qed (simp_all add: buffer_of_def)
qed

end
