(* ===== verification/MP4_Socket.thy ===== *)
theory MP4_Socket
  imports Prelude
begin

text \<open>
  The socket layer of MP4 (first half of \<^verbatim>\<open>src/MP4/utils.c\<close>): the loops that read or write a given
  number of bytes whatever the kernel delivers at a time, and the four-byte values sent with them.

  A script lists what the calls of \<^verbatim>\<open>read\<close> or \<^verbatim>\<open>write\<close> meet, one event each: up to so many bytes are
  transferred, the call is interrupted (\<^verbatim>\<open>EINTR\<close>), it fails, or the peer has closed the connection.
  A loop that has used up its script is still waiting, which is the value \<^term>\<open>None\<close>.
\<close>

unbundle bit_operations_syntax

section \<open>Bytes\<close>

text \<open>The bytes of 32-bit and 64-bit values in memory on a little-endian host.\<close>

definition le_bytes32 :: "u32 \<Rightarrow> byte list" where
  "le_bytes32 w = [ucast w, ucast (drop_bit 8 w), ucast (drop_bit 16 w), ucast (drop_bit 24 w)]"

fun of_le32 :: "byte list \<Rightarrow> u32" where
  "of_le32 [a, b, c, d] = ucast a OR push_bit 8 (ucast b) OR push_bit 16 (ucast c) OR push_bit 24 (ucast d)"
| "of_le32 _ = 0"

definition le_bytes64 :: "u64 \<Rightarrow> byte list" where
  "le_bytes64 w = le_bytes32 (ucast w) @ le_bytes32 (ucast (drop_bit 32 w))"

definition of_le64 :: "byte list \<Rightarrow> u64" where
  "of_le64 bs = ucast (of_le32 (take 4 bs)) OR push_bit 32 (ucast (of_le32 (drop 4 bs)))"

text \<open>\<^verbatim>\<open>htonl\<close> and \<^verbatim>\<open>ntohl\<close> reverse the bytes.\<close>

definition htonl :: "u32 \<Rightarrow> u32" where
  "htonl w = of_le32 (rev (le_bytes32 w))"

definition ntohl :: "u32 \<Rightarrow> u32" where
  "ntohl w = of_le32 (rev (le_bytes32 w))"

lemma length_le_bytes [simp]: "length (le_bytes32 w) = 4" "length (le_bytes64 v) = 8"
  by (simp_all add: le_bytes32_def le_bytes64_def)

lemma of_le32_le_bytes32 [simp]: "of_le32 (le_bytes32 w) = w"
proof (rule bit_word_eqI)
  fix n assume "n < LENGTH(32)"
  then show "bit (of_le32 (le_bytes32 w)) n \<longleftrightarrow> bit w n"
    by (cases "n < 8"; cases "n < 16"; cases "n < 24") (auto simp: le_bytes32_def bit_simps)
qed

lemma le_bytes32_of_le32 [simp]: "le_bytes32 (of_le32 [a, b, c, d]) = [a, b, c, d]"
  by (simp add: le_bytes32_def) (intro conjI bit_word_eqI; auto simp: bit_simps dest: bit_imp_le_length)

lemma le_bytes32_eq: "le_bytes32 (of_le32 (rev (le_bytes32 w))) = rev (le_bytes32 w)"
  by (subst (2) le_bytes32_def, simp del: of_le32.simps, simp add: le_bytes32_def [of w] del: of_le32.simps)

lemma ntohl_htonl [simp]: "ntohl (htonl w) = w"
  by (simp add: ntohl_def htonl_def le_bytes32_eq)

lemma of_le64_le_bytes64 [simp]: "of_le64 (le_bytes64 w) = w"
  by (rule bit_word_eqI) (auto simp: of_le64_def le_bytes64_def bit_simps)

section \<open>Reading and writing all bytes\<close>

datatype io_event = Chunk nat | Interrupted | Failed | Closed

text \<open>
  \<^verbatim>\<open>read_all_from_socket\<close>: \<open>inp\<close> is what has been sent and not read yet and \<open>acc\<close> what the loop has
  stored in its buffer. \<open>Chunk k\<close> delivers up to \<open>k + 1\<close> bytes; nothing to deliver keeps the call
  waiting; a call for no bytes returns 0. The result is the return value, the bytes stored and the
  bytes left in the connection.
\<close>

function read_all :: "io_event list \<Rightarrow> byte list \<Rightarrow> byte list \<Rightarrow> nat \<Rightarrow> (int \<times> byte list \<times> byte list) option" where
  "read_all [] inp acc cnt = None"
| "read_all (Closed # es) inp acc cnt = Some (0, acc, inp)"
| "read_all (Failed # es) inp acc cnt = Some (- 1, acc, inp)"
| "read_all (Interrupted # es) inp acc cnt =
     (if length acc < cnt then read_all es inp acc cnt else Some (int (length acc), acc, inp))"
| "read_all (Chunk k # es) inp acc cnt =
     (if cnt - length acc = 0 then Some (0, acc, inp)
      else if inp = [] then read_all es inp acc cnt
      else let n = min (Suc k) (min (cnt - length acc) (length inp));
               acc' = acc @ take n inp; inp' = drop n inp
           in if length acc' < cnt then read_all es inp' acc' cnt
              else Some (int (length acc'), acc', inp'))"
  by pat_completeness auto
termination by (relation "measure (\<lambda>(es, _). length es)") simp_all

definition read_all_from_socket ::
  "io_event list \<Rightarrow> byte list \<Rightarrow> nat \<Rightarrow> (int \<times> byte list \<times> byte list) option" where
  "read_all_from_socket es inp cnt = read_all es inp [] cnt"

text \<open>\<^verbatim>\<open>write_all_to_socket\<close>: \<open>todo\<close> is what is left of the buffer and \<open>wire\<close> what was sent.\<close>

function write_all :: "io_event list \<Rightarrow> byte list \<Rightarrow> nat \<Rightarrow> byte list \<Rightarrow> (int \<times> byte list) option" where
  "write_all [] todo tot wire = None"
| "write_all (Closed # es) todo tot wire = Some (0, wire)"
| "write_all (Failed # es) todo tot wire = Some (- 1, wire)"
| "write_all (Interrupted # es) todo tot wire =
     (if todo \<noteq> [] then write_all es todo tot wire else Some (int tot, wire))"
| "write_all (Chunk k # es) todo tot wire =
     (if todo = [] then Some (0, wire)
      else let n = min (Suc k) (length todo); todo' = drop n todo; wire' = wire @ take n todo
           in if todo' \<noteq> [] then write_all es todo' (tot + n) wire'
              else Some (int (tot + n), wire'))"
  by pat_completeness auto
termination by (relation "measure (\<lambda>(es, _). length es)") simp_all

definition write_all_to_socket :: "io_event list \<Rightarrow> byte list \<Rightarrow> byte list \<Rightarrow> (int \<times> byte list) option" where
  "write_all_to_socket es buffer wire = write_all es buffer 0 wire"

text \<open>A script that delivers: no failure, and at least \<open>n\<close> calls that transfer something.\<close>

definition chunks :: "io_event list \<Rightarrow> nat" where
  "chunks es = length (filter (\<lambda>e. case e of Chunk _ \<Rightarrow> True | _ \<Rightarrow> False) es)"

definition delivers :: "io_event list \<Rightarrow> nat \<Rightarrow> bool" where
  "delivers es n \<longleftrightarrow> Failed \<notin> set es \<and> Closed \<notin> set es \<and> n \<le> chunks es"

lemma delivers_Cons [simp]:
  "delivers (Chunk k # es) n \<longleftrightarrow> delivers es (n - 1)"
  "delivers (Interrupted # es) n \<longleftrightarrow> delivers es n"
  "\<not> delivers (Failed # es) n" "\<not> delivers (Closed # es) n"
  by (auto simp: delivers_def chunks_def)

lemma delivers_Nil [simp]: "delivers [] n \<longleftrightarrow> n = 0"
  by (simp add: delivers_def chunks_def)

lemma delivers_mono: "delivers es n \<Longrightarrow> m \<le> n \<Longrightarrow> delivers es m"
  by (simp add: delivers_def)

lemma read_all_delivers:
  "delivers es (cnt - length acc) \<Longrightarrow> length acc < cnt \<Longrightarrow> cnt - length acc \<le> length inp \<Longrightarrow>
   read_all es inp acc cnt =
     Some (int cnt, acc @ take (cnt - length acc) inp, drop (cnt - length acc) inp)"
proof (induction es inp acc cnt rule: read_all.induct)
  case (5 k es inp acc cnt)
  define n where "n = min (Suc k) (min (cnt - length acc) (length inp))"
  have n: "0 < n" "n \<le> cnt - length acc" "n \<le> length inp" using "5.prems" by (auto simp: n_def)
  have ne: "cnt - length acc \<noteq> 0" "inp \<noteq> []" using "5.prems" by auto
  show ?case
  proof (cases "n = cnt - length acc")
    case True
    then show ?thesis unfolding read_all.simps Let_def n_def [symmetric] using "5.prems" ne by simp
  next
    case False
    then have less: "length (acc @ take n inp) < cnt" using n by simp
    have "delivers es (cnt - length (acc @ take n inp))"
      using "5.prems"(1) n by (auto intro: delivers_mono)
    then have "read_all es (drop n inp) (acc @ take n inp) cnt =
        Some (int cnt, (acc @ take n inp) @ take (cnt - length (acc @ take n inp)) (drop n inp),
              drop (cnt - length (acc @ take n inp)) (drop n inp))"
      using "5.IH"(2) [OF ne n_def refl refl less] less "5.prems"(3) n by simp
    moreover have "take n inp @ take (cnt - length acc - n) (drop n inp) = take (cnt - length acc) inp"
      using n by (metis take_add le_add_diff_inverse)
    ultimately show ?thesis using ne less n by (simp add: n_def [symmetric] Let_def)
  qed
qed auto

lemma write_all_delivers:
  "delivers es (length todo) \<Longrightarrow> todo \<noteq> [] \<Longrightarrow>
   write_all es todo tot wire = Some (int (tot + length todo), wire @ todo)"
proof (induction es todo tot wire rule: write_all.induct)
  case (5 k es todo tot wire)
  define n where "n = min (Suc k) (length todo)"
  have n: "0 < n" "n \<le> length todo" using "5.prems" by (auto simp: n_def)
  show ?case
  proof (cases "n = length todo")
    case True
    then show ?thesis using "5.prems" by (simp add: n_def [symmetric] Let_def)
  next
    case False
    then have ne: "drop n todo \<noteq> []" using n by simp
    have "delivers es (length (drop n todo))"
      using "5.prems"(1) n by (auto intro: delivers_mono)
    then have "write_all es (drop n todo) (tot + n) (wire @ take n todo) =
        Some (int (tot + n + length (drop n todo)), (wire @ take n todo) @ drop n todo)"
      using "5.IH" [OF "5.prems"(2) n_def refl refl ne] ne by simp
    then show ?thesis using "5.prems"(2) ne n by (simp add: n_def [symmetric] Let_def)
  qed
qed auto

text \<open>Whatever happens, no byte is lost or reordered, and only a full cnt is reported as one.\<close>

lemma read_all_sound:
  "read_all es inp acc cnt = Some (r, out, rest) \<Longrightarrow> length acc \<le> cnt \<Longrightarrow> 0 < cnt \<Longrightarrow>
   out @ rest = acc @ inp \<and> (r = int cnt \<and> length out = cnt \<or> r = 0 \<or> r = - 1)"
proof (induction es inp acc cnt rule: read_all.induct)
  case (5 k es inp acc cnt)
  then show ?case by (auto simp: Let_def split: if_splits)
qed (auto split: if_splits)

section \<open>Values and messages\<close>

text \<open>
  \<^verbatim>\<open>send_single_value\<close>, \<^verbatim>\<open>get_single_value\<close> and the functions that only call them. A value is an
  \<^verbatim>\<open>int\<close> in network byte order. A read that fails is reported as -2.
\<close>

definition send_single_value :: "io_event list \<Rightarrow> int \<Rightarrow> byte list \<Rightarrow> (int \<times> byte list) option" where
  "send_single_value es v wire = write_all_to_socket es (le_bytes32 (htonl (word_of_int v))) wire"

definition get_single_value :: "io_event list \<Rightarrow> byte list \<Rightarrow> (int \<times> byte list) option" where
  "get_single_value es inp =
     (case read_all_from_socket es inp 4 of
        None \<Rightarrow> None
      | Some (r, bs, rest) \<Rightarrow>
          if r = 0 \<or> r = - 1 then Some (- 2, rest) else Some (sint (ntohl (of_le32 bs)), rest))"

definition write_jobid :: "io_event list \<Rightarrow> int \<Rightarrow> byte list \<Rightarrow> (int \<times> byte list) option" where
  "write_jobid = send_single_value"

definition send_msg_type :: "io_event list \<Rightarrow> int \<Rightarrow> byte list \<Rightarrow> (int \<times> byte list) option" where
  "send_msg_type = send_single_value"

definition get_msg_type :: "io_event list \<Rightarrow> byte list \<Rightarrow> (int \<times> byte list) option" where
  "get_msg_type = get_single_value"

definition get_jobid :: "io_event list \<Rightarrow> byte list \<Rightarrow> (int \<times> byte list) option" where
  "get_jobid = get_single_value"

text \<open>The four bytes of a value on the wire.\<close>

definition be_int :: "int \<Rightarrow> byte list" where
  "be_int v = le_bytes32 (htonl (word_of_int v))"

lemma length_be_int [simp]: "length (be_int v) = 4"
  by (simp add: be_int_def)

lemma sint_word_of_int: "c_int v \<Longrightarrow> sint (word_of_int v :: u32) = v"
  by (simp add: sint_sbintrunc' c_int_def signed_take_bit_int_eq_self)

lemma send_single_value_delivers:
  "delivers es 4 \<Longrightarrow> send_single_value es v wire = Some (4, wire @ be_int v)"
proof -
  assume d: "delivers es 4"
  have "le_bytes32 w \<noteq> []" for w by (simp add: le_bytes32_def)
  then show ?thesis
    using d write_all_delivers [of es "be_int v" 0 wire]
    by (simp add: send_single_value_def write_all_to_socket_def be_int_def)
qed

lemma get_single_value_delivers:
  assumes "delivers es 4" and "c_int v"
  shows "get_single_value es (be_int v @ rest) = Some (v, rest)"
  using read_all_delivers [of es 4 "[]" "be_int v @ rest"] assms
  by (simp add: get_single_value_def read_all_from_socket_def be_int_def sint_word_of_int)

end
