(* ===== verification/MP4_Jobs.thy ===== *)
theory MP4_Jobs
  imports MP4_Socket
begin

text \<open>
  The job array of MP4 and the messages about jobs (second half of \<^verbatim>\<open>src/MP4/utils.c\<close>, and the receiving
  parts of \<^verbatim>\<open>src/MP4/client.c\<close> and \<^verbatim>\<open>src/MP4/server.c\<close>). The array has 1024 jobs of 4096 doubles each; a
  double is its 64-bit pattern, and the addition of the constant to one is a parameter \<open>bump\<close>.
  An index outside the array is a fault.

  A message on the wire is a type (-1 state, 0 data, 2 rebalance) and its fields. The sending
  functions are related to \<open>encode_msg\<close>, and the receiving functions invert it.
\<close>

definition JOB_NUM :: int where "JOB_NUM = 1024"
definition JOB_SIZE :: int where "JOB_SIZE = 4096"
definition ARRAY_SIZE :: nat where "ARRAY_SIZE = 4194304"
definition DIFF_THRESHOLD :: int where "DIFF_THRESHOLD = 5"

definition MSG_TYPE_DATA :: int where "MSG_TYPE_DATA = 0"
definition MSG_TYPE_STATE :: int where "MSG_TYPE_STATE = - 1"
definition MSG_TYPE_REBALANCE :: int where "MSG_TYPE_REBALANCE = 2"

section \<open>The array\<close>

text \<open>The inner loop of \<^verbatim>\<open>compute\<close>: 6000 additions to one entry.\<close>

primrec bump_loop :: "(u64 \<Rightarrow> u64) \<Rightarrow> nat \<Rightarrow> u64 \<Rightarrow> u64" where
  "bump_loop bump 0 x = x"
| "bump_loop bump (Suc j) x = bump_loop bump j (bump x)"

text \<open>The outer loop, for the \<open>n\<close> entries from index \<open>i\<close>.\<close>

primrec compute_loop :: "(u64 \<Rightarrow> u64) \<Rightarrow> nat \<Rightarrow> int \<Rightarrow> u64 list \<Rightarrow> u64 list result" where
  "compute_loop bump 0 i vec = Inr vec"
| "compute_loop bump (Suc n) i vec =
     (if 0 \<le> i \<and> i < int (length vec)
      then compute_loop bump n (i + 1) (vec[nat i := bump_loop bump 6000 (vec ! nat i)])
      else Inl OutOfBounds)"

definition compute :: "(u64 \<Rightarrow> u64) \<Rightarrow> u64 list \<Rightarrow> int \<Rightarrow> u64 list result" where
  "compute bump vec jobID =
     (let lo = s32 (jobID * JOB_SIZE); hi = s32 (s32 (jobID + 1) * JOB_SIZE)
      in compute_loop bump (nat (hi - lo)) lo vec)"

text \<open>The loop of \<^verbatim>\<open>storeLocal\<close>, with the entries still to be copied.\<close>

fun store_loop :: "u64 list \<Rightarrow> int \<Rightarrow> u64 list \<Rightarrow> u64 list result" where
  "store_loop [] k arr = Inr arr"
| "store_loop (x # xs) k arr =
     (if 0 \<le> k \<and> k < int (length arr) then store_loop xs (k + 1) (arr[nat k := x]) else Inl OutOfBounds)"

definition storeLocal :: "int \<Rightarrow> u64 list \<Rightarrow> u64 list \<Rightarrow> u64 list result" where
  "storeLocal jobId d arr =
     (if length d < nat JOB_SIZE then Inl OutOfBounds
      else store_loop (take (nat JOB_SIZE) d) (s32 (4096 * jobId)) arr)"

text \<open>
  \<^verbatim>\<open>create_message\<close> returns a pointer into the array: its index. A job to be moved carries its number
  plus \<^verbatim>\<open>JOB_NUM\<close>; the test does not cover job 0.
\<close>

definition create_message :: "int \<Rightarrow> int" where
  "create_message job_id =
     s32 (JOB_SIZE * (if job_id > JOB_NUM then s32 (job_id - JOB_NUM) else job_id))"

text \<open>The \<^verbatim>\<open>JOB_SIZE\<close> doubles at a pointer, when they are sent.\<close>

definition read_block :: "int \<Rightarrow> u64 list \<Rightarrow> u64 list result" where
  "read_block off arr =
     (if 0 \<le> off \<and> off + JOB_SIZE \<le> int (length arr)
      then Inr (take (nat JOB_SIZE) (drop (nat off) arr)) else Inl OutOfBounds)"

text \<open>The block of a job and its replacement.\<close>

definition block :: "nat \<Rightarrow> u64 list \<Rightarrow> u64 list" where
  "block j arr = take 4096 (drop (4096 * j) arr)"

definition set_block :: "nat \<Rightarrow> u64 list \<Rightarrow> u64 list \<Rightarrow> u64 list" where
  "set_block j b arr = take (4096 * j) arr @ b @ drop (4096 * j + 4096) arr"

lemma array_size: "j < 1024 \<Longrightarrow> length arr = ARRAY_SIZE \<Longrightarrow> 4096 * j + 4096 \<le> length arr"
  by (simp add: ARRAY_SIZE_def)

lemma length_block [simp]: "j < 1024 \<Longrightarrow> length arr = ARRAY_SIZE \<Longrightarrow> length (block j arr) = 4096"
  by (simp add: block_def ARRAY_SIZE_def)

lemma length_set_block [simp]:
  "j < 1024 \<Longrightarrow> length arr = ARRAY_SIZE \<Longrightarrow> length b = 4096 \<Longrightarrow> length (set_block j b arr) = ARRAY_SIZE"
  by (simp add: set_block_def ARRAY_SIZE_def)

lemma block_set_block:
  assumes "j < 1024" and "i < 1024" and "length arr = ARRAY_SIZE" and "length b = 4096"
  shows "block i (set_block j b arr) = (if i = j then b else block i arr)"
proof (rule nth_equalityI)
  have len: "length (set_block j b arr) = ARRAY_SIZE" using assms by simp
  show "length (block i (set_block j b arr)) = length (if i = j then b else block i arr)"
    using assms len by simp
  fix k assume "k < length (block i (set_block j b arr))"
  then have k: "k < 4096" using assms len by simp
  have idx: "4096 * i + k < ARRAY_SIZE" using assms(2) k by (simp add: ARRAY_SIZE_def)
  have eq: "(4096 * i + k < 4096 * j) = (i < j)" "(4096 * i + k < 4096 * j + 4096) = (i \<le> j)"
    using k by auto
  show "block i (set_block j b arr) ! k = (if i = j then b else block i arr) ! k"
    using assms k idx eq by (auto simp: block_def set_block_def nth_append ARRAY_SIZE_def)
qed

lemma blocks_eqI:
  assumes "length a = ARRAY_SIZE" and "length b = ARRAY_SIZE"
    and "\<And>j. j < 1024 \<Longrightarrow> block j a = block j b"
  shows "a = b"
proof (rule nth_equalityI)
  show "length a = length b" using assms by simp
  fix i assume i: "i < length a"
  let ?j = "i div 4096" and ?k = "i mod 4096"
  have j: "?j < 1024" using i assms(1) by (simp add: ARRAY_SIZE_def)
  have "block ?j c ! ?k = c ! i" if "length c = ARRAY_SIZE" for c :: "u64 list"
    using that i assms(1) j by (simp add: block_def)
  then show "a ! i = b ! i" using assms j by metis
qed

lemma compute_loop_eq:
  "i + n \<le> length vec \<Longrightarrow> compute_loop bump n (int i) vec =
     Inr (take i vec @ map (bump_loop bump 6000) (take n (drop i vec)) @ drop (i + n) vec)"
proof (induction n arbitrary: i vec)
  case (Suc n)
  let ?f = "bump_loop bump 6000" and ?v = "vec[i := bump_loop bump 6000 (vec ! i)]"
  have i: "i < length vec" using Suc.prems by simp
  have "compute_loop bump (Suc n) (int i) vec = compute_loop bump n (int (Suc i)) ?v"
    using i by (simp add: add.commute)
  also have "\<dots> = Inr (take (Suc i) ?v @ map ?f (take n (drop (Suc i) ?v)) @ drop (Suc i + n) ?v)"
    using Suc.prems by (intro Suc.IH) simp
  also have "take (Suc i) ?v = take i vec @ [?f (vec ! i)]"
    using i by (simp add: take_Suc_conv_app_nth)
  also have "drop (Suc i) ?v = drop (Suc i) vec" by simp
  also have "drop (Suc i + n) ?v = drop (Suc i + n) vec" by simp
  also have "take (Suc n) (drop i vec) = vec ! i # take n (drop (Suc i) vec)"
    using i by (metis Cons_nth_drop_Suc take_Suc_Cons)
  ultimately show ?case using i by (simp add: Cons_nth_drop_Suc [symmetric])
qed simp

lemma store_loop_eq:
  "k + length xs \<le> length arr \<Longrightarrow>
   store_loop xs (int k) arr = Inr (take k arr @ xs @ drop (k + length xs) arr)"
proof (induction xs arbitrary: k arr)
  case (Cons x xs)
  have k: "k < length arr" using Cons.prems by simp
  have "store_loop (x # xs) (int k) arr = store_loop xs (int (Suc k)) (arr[k := x])"
    using k by (simp add: add.commute)
  also have "\<dots> = Inr (take (Suc k) (arr[k := x]) @ xs @ drop (Suc k + length xs) (arr[k := x]))"
    using Cons.prems by (intro Cons.IH) simp
  also have "take (Suc k) (arr[k := x]) = take k arr @ [x]"
    using k by (simp add: take_Suc_conv_app_nth)
  finally show ?case using k by simp
qed simp

lemma job_index:
  assumes "0 \<le> j" and "j < 1024"
  shows "s32 (j * JOB_SIZE) = int (4096 * nat j)" and "s32 (s32 (j + 1) * JOB_SIZE) = int (4096 * nat j + 4096)"
    and "s32 (4096 * j) = int (4096 * nat j)"
  using assms by (simp_all add: JOB_SIZE_def s32_id c_int_def)

lemma compute_block:
  assumes "0 \<le> j" and "j < 1024" and "length arr = ARRAY_SIZE"
  shows "compute bump arr j =
    Inr (set_block (nat j) (map (bump_loop bump 6000) (block (nat j) arr)) arr)"
proof -
  have "nat j < 1024" using assms(1,2) by simp
  then have "4096 * nat j + 4096 \<le> length arr" using assms(3) by (rule array_size)
  from compute_loop_eq [OF this, of bump] show ?thesis
    using job_index [OF assms(1,2)] by (simp add: compute_def set_block_def block_def Let_def)
qed

lemma storeLocal_block:
  assumes "0 \<le> j" and "j < 1024" and "length arr = ARRAY_SIZE" and "length b = 4096"
  shows "storeLocal j b arr = Inr (set_block (nat j) b arr)"
proof -
  have "nat j < 1024" using assms(1,2) by simp
  then have "4096 * nat j + length b \<le> length arr" using array_size [of "nat j" arr] assms(3,4) by simp
  from store_loop_eq [OF this] show ?thesis
    using job_index(3) [OF assms(1,2)] assms(4) by (simp add: storeLocal_def set_block_def JOB_SIZE_def)
qed

lemma read_block_job:
  assumes "0 \<le> j" and "j < 1024" and "length arr = ARRAY_SIZE"
  shows "read_block (create_message j) arr = Inr (block (nat j) arr)"
    and "0 < j \<Longrightarrow> read_block (create_message (JOB_NUM + j)) arr = Inr (block (nat j) arr)"
  using assms by (simp_all add: read_block_def create_message_def JOB_NUM_def JOB_SIZE_def block_def
      s32_id c_int_def ARRAY_SIZE_def nat_mult_distrib)

text \<open>Job 0 to be moved is number 1024, which is taken for the block after the last one.\<close>

lemma read_block_job_0:
  "length arr = ARRAY_SIZE \<Longrightarrow> read_block (create_message (JOB_NUM + 0)) arr = Inl OutOfBounds"
  by (simp add: read_block_def create_message_def JOB_NUM_def JOB_SIZE_def ARRAY_SIZE_def s32_id c_int_def)

lemma storeLocal_1024:
  "length arr = ARRAY_SIZE \<Longrightarrow> length b = 4096 \<Longrightarrow> storeLocal JOB_NUM b arr = Inl OutOfBounds"
  by (cases b) (auto simp: storeLocal_def JOB_NUM_def JOB_SIZE_def ARRAY_SIZE_def s32_id c_int_def)

section \<open>Messages\<close>

text \<open>
  A message: the state of the sender (number of jobs, throttle, CPU use, the last two as bit
  patterns), the data of a job under its number, the end of the work, a request to rebalance.
\<close>

datatype msg = StateMsg int u32 u64 | DataMsg int "u64 list" | EndMsg | RebalanceMsg

definition payload :: "u64 list \<Rightarrow> byte list" where
  "payload xs = concat (map le_bytes64 xs)"

fun encode_msg :: "msg \<Rightarrow> byte list" where
  "encode_msg (StateMsg n th cpu) = be_int MSG_TYPE_STATE @ le_bytes32 (word_of_int n) @ le_bytes32 th @ le_bytes64 cpu"
| "encode_msg (DataMsg j xs) = be_int MSG_TYPE_DATA @ be_int j @ payload xs"
| "encode_msg EndMsg = be_int MSG_TYPE_DATA @ be_int (- 1)"
| "encode_msg RebalanceMsg = be_int MSG_TYPE_REBALANCE"

text \<open>
  \<^verbatim>\<open>send_state\<close>: the result of the first write is not tested. The scripts are those of the two writes.
\<close>

definition send_state ::
  "io_event list \<Rightarrow> io_event list \<Rightarrow> int \<Rightarrow> u32 \<Rightarrow> u64 \<Rightarrow> byte list \<Rightarrow> (int \<times> byte list) option" where
  "send_state e1 e2 num_jobs thr cpu wire =
     (case send_msg_type e1 MSG_TYPE_STATE wire of
        None \<Rightarrow> None
      | Some (_, w1) \<Rightarrow>
          (case write_all_to_socket e2 (le_bytes32 (word_of_int num_jobs) @ le_bytes32 thr @ le_bytes64 cpu) w1 of
             None \<Rightarrow> None
           | Some (r, w2) \<Rightarrow> Some (if r \<noteq> 16 then - 1 else 0, w2)))"

text \<open>\<^verbatim>\<open>transfer\<close>: the type, the number and, unless it is -1, the block; always returns 0.\<close>

definition transfer ::
  "io_event list \<Rightarrow> io_event list \<Rightarrow> io_event list \<Rightarrow> int \<Rightarrow> u64 list \<Rightarrow> byte list \<Rightarrow> byte list result option" where
  "transfer e1 e2 e3 jobID job_array wire =
     (case send_msg_type e1 MSG_TYPE_DATA wire of
        None \<Rightarrow> None
      | Some (_, w1) \<Rightarrow>
          let msg = create_message jobID in
          (case write_jobid e2 jobID w1 of
             None \<Rightarrow> None
           | Some (retval, w2) \<Rightarrow>
               if jobID = - 1 then Some (Inr w2)
               else if retval > 0
               then (case read_block msg job_array of
                       Inl e \<Rightarrow> Some (Inl e)
                     | Inr b \<Rightarrow>
                         (case write_all_to_socket e3 (payload b) w2 of
                            None \<Rightarrow> None | Some (_, w3) \<Rightarrow> Some (Inr w3)))
               else Some (Inr w2)))"

text \<open>
  Receiving a block: a zeroed buffer of \<^verbatim>\<open>JOB_SIZE\<close> doubles filled by one \<^verbatim>\<open>read_all_from_socket\<close>, whose
  result is not tested.
\<close>

fun doubles :: "nat \<Rightarrow> byte list \<Rightarrow> u64 list" where
  "doubles 0 bs = []"
| "doubles (Suc n) bs = of_le64 (take 8 bs) # doubles n (drop 8 bs)"

definition recv_block :: "io_event list \<Rightarrow> byte list \<Rightarrow> (u64 list \<times> byte list) option" where
  "recv_block es inp =
     (case read_all_from_socket es inp (8 * nat JOB_SIZE) of
        None \<Rightarrow> None
      | Some (r, bs, rest) \<Rightarrow>
          Some (doubles (nat JOB_SIZE) (bs @ replicate (8 * nat JOB_SIZE - length bs) 0), rest))"

text \<open>
  The reading half of \<^verbatim>\<open>state_handle\<close>: sixteen bytes, or nothing is done. The throttle is sent as the
  bits of a \<^verbatim>\<open>float\<close> and read as an \<^verbatim>\<open>int\<close>.
\<close>

definition recv_state :: "io_event list \<Rightarrow> byte list \<Rightarrow> (msg option \<times> byte list) option" where
  "recv_state es inp =
     (case read_all_from_socket es inp 16 of
        None \<Rightarrow> None
      | Some (r, bs, rest) \<Rightarrow>
          if r \<noteq> 16 then Some (None, rest)
          else Some (Some (StateMsg (sint (of_le32 (take 4 bs))) (of_le32 (take 4 (drop 4 bs)))
                             (of_le64 (drop 8 bs))), rest))"

text \<open>
  The reading half of the server's loop (\<^verbatim>\<open>process_client\<close> and \<^verbatim>\<open>transfer_handler\<close>): no message for a type
  it does not know or a job number below -1.
\<close>

definition server_recv ::
  "io_event list \<Rightarrow> io_event list \<Rightarrow> io_event list \<Rightarrow> byte list \<Rightarrow> (msg option \<times> byte list) option" where
  "server_recv e1 e2 e3 inp =
     (case get_msg_type e1 inp of
        None \<Rightarrow> None
      | Some (msg_type, i1) \<Rightarrow>
          if msg_type = 0 then
            (case get_jobid e2 i1 of
               None \<Rightarrow> None
             | Some (jobID, i2) \<Rightarrow>
                 if jobID = - 1 then Some (Some EndMsg, i2)
                 else if jobID > - 1 then
                   (case recv_block e3 i2 of
                      None \<Rightarrow> None | Some (b, i3) \<Rightarrow> Some (Some (DataMsg jobID b), i3))
                 else Some (None, i2))
          else if msg_type = - 1 then recv_state e2 i1
          else if msg_type = 2 then Some (Some RebalanceMsg, i1)
          else Some (None, i1))"

text \<open>The reading half of the client's loop (\<^verbatim>\<open>read_from_server\<close>), which reads a block after any number.\<close>

definition client_recv ::
  "io_event list \<Rightarrow> io_event list \<Rightarrow> io_event list \<Rightarrow> byte list \<Rightarrow> (msg option \<times> byte list) option" where
  "client_recv e1 e2 e3 inp =
     (case get_msg_type e1 inp of
        None \<Rightarrow> None
      | Some (msg_type, i1) \<Rightarrow>
          if msg_type = - 1 then recv_state e2 i1
          else if msg_type = 0 then
            (case get_jobid e2 i1 of
               None \<Rightarrow> None
             | Some (jobID, i2) \<Rightarrow>
                 (case recv_block e3 i2 of
                    None \<Rightarrow> None
                  | Some (b, i3) \<Rightarrow> Some (if jobID > - 1 then Some (DataMsg jobID b) else None, i3)))
          else if msg_type = 2 then Some (Some RebalanceMsg, i1)
          else Some (None, i1))"

subsection \<open>Round trips\<close>

lemma length_payload [simp]: "length (payload xs) = 8 * length xs"
  by (induction xs) (simp_all add: payload_def)

lemma doubles_payload: "doubles (length xs) (payload xs @ rest) = xs"
  by (induction xs) (simp_all add: payload_def)

lemma recv_block_payload:
  assumes "delivers es 32768" and "length xs = 4096"
  shows "recv_block es (payload xs @ rest) = Some (xs, rest)"
  using read_all_delivers [of es 32768 "[]" "payload xs @ rest"] assms doubles_payload [of xs "[]"]
  by (simp add: recv_block_def read_all_from_socket_def JOB_SIZE_def)

text \<open>A message that fits its fields.\<close>

fun msg_ok :: "msg \<Rightarrow> bool" where
  "msg_ok (StateMsg n th cpu) \<longleftrightarrow> c_int n"
| "msg_ok (DataMsg j xs) \<longleftrightarrow> 0 \<le> j \<and> c_int j \<and> length xs = 4096"
| "msg_ok _ \<longleftrightarrow> True"

lemma length_doubles [simp]: "length (doubles n bs) = n"
  by (induction n arbitrary: bs) simp_all

lemma c_int_sint [simp]: "c_int (sint (w :: u32))"
  using sint_greater_eq [of w] sint_less [of w] by (simp add: c_int_def)

lemma get_single_value_c_int: "get_single_value es inp = Some (v, rest) \<Longrightarrow> c_int v"
  by (auto simp: get_single_value_def c_int_def [of "- 2"] split: option.splits if_splits)

text \<open>Whatever bytes arrive, and however they arrive, a received message fits its fields.\<close>

lemma recv_msg_ok:
  "server_recv e1 e2 e3 inp = Some (Some m, rest) \<Longrightarrow> msg_ok m"
  "client_recv e1 e2 e3 inp = Some (Some m, rest) \<Longrightarrow> msg_ok m \<and> m \<noteq> EndMsg"
  by (auto simp: server_recv_def client_recv_def recv_state_def recv_block_def get_jobid_def JOB_SIZE_def
      split: option.splits if_splits)
     (drule get_single_value_c_int, assumption)+

lemma recv_state_encoded:
  assumes "delivers es 16" and "c_int n"
  shows "recv_state es (le_bytes32 (word_of_int n) @ le_bytes32 th @ le_bytes64 cpu @ rest) =
    Some (Some (StateMsg n th cpu), rest)"
  using read_all_delivers [of es 16 "[]" "le_bytes32 (word_of_int n) @ le_bytes32 th @ le_bytes64 cpu @ rest"]
    assms by (simp add: recv_state_def read_all_from_socket_def sint_word_of_int)

lemma msg_type_ints [simp]: "c_int MSG_TYPE_DATA" "c_int MSG_TYPE_STATE" "c_int MSG_TYPE_REBALANCE" "c_int (- 1)"
  by (simp_all add: MSG_TYPE_DATA_def MSG_TYPE_STATE_def MSG_TYPE_REBALANCE_def c_int_def)

lemma server_recv_encoded:
  assumes "delivers e1 4" and "delivers e2 16" and "delivers e3 32768" and "msg_ok m"
  shows "server_recv e1 e2 e3 (encode_msg m @ rest) = Some (Some m, rest)"
proof -
  have e2: "delivers e2 4" using assms(2) by (rule delivers_mono) simp
  show ?thesis
    using assms get_single_value_delivers [OF assms(1)] get_single_value_delivers [OF e2]
      recv_block_payload [OF assms(3)] recv_state_encoded [OF assms(2)]
    by (cases m) (simp_all add: server_recv_def get_msg_type_def get_jobid_def MSG_TYPE_DATA_def
        MSG_TYPE_STATE_def MSG_TYPE_REBALANCE_def c_int_def)
qed

lemma client_recv_encoded:
  assumes "delivers e1 4" and "delivers e2 16" and "delivers e3 32768" and "msg_ok m" and "m \<noteq> EndMsg"
  shows "client_recv e1 e2 e3 (encode_msg m @ rest) = Some (Some m, rest)"
proof -
  have e2: "delivers e2 4" using assms(2) by (rule delivers_mono) simp
  show ?thesis
    using assms get_single_value_delivers [OF assms(1)] get_single_value_delivers [OF e2]
      recv_block_payload [OF assms(3)] recv_state_encoded [OF assms(2)]
    by (cases m) (simp_all add: client_recv_def get_msg_type_def get_jobid_def MSG_TYPE_DATA_def
        MSG_TYPE_STATE_def MSG_TYPE_REBALANCE_def c_int_def)
qed

text \<open>The client takes the end mark for the number of a job and reads a block after it.\<close>

lemma client_recv_end:
  assumes "delivers e1 4" and "delivers e2 16" and "delivers e3 32768" and "length bs = 32768"
  shows "client_recv e1 e2 e3 (encode_msg EndMsg @ bs @ rest) = Some (None, rest)"
proof -
  have e2: "delivers e2 4" using assms(2) by (rule delivers_mono) simp
  have "\<exists>b. recv_block e3 (bs @ rest) = Some (b, rest)"
    using read_all_delivers [of e3 32768 "[]" "bs @ rest"] assms(3,4)
    by (simp add: recv_block_def read_all_from_socket_def JOB_SIZE_def)
  then show ?thesis
    using get_single_value_delivers [OF assms(1)] get_single_value_delivers [OF e2]
    by (auto simp: client_recv_def get_msg_type_def get_jobid_def MSG_TYPE_DATA_def c_int_def)
qed

lemma payload_nonempty: "length xs = 4096 \<Longrightarrow> payload xs \<noteq> []"
  using length_payload [of xs] by (cases "payload xs") auto

lemma transfer_encodes:
  assumes "delivers e1 4" and "delivers e2 4" and "delivers e3 32768"
    and "read_block (create_message j) arr = Inr b" and "length b = 4096" and "j \<noteq> - 1"
  shows "transfer e1 e2 e3 j arr wire = Some (Inr (wire @ encode_msg (DataMsg j b)))"
  using assms send_single_value_delivers [OF assms(1)] send_single_value_delivers [OF assms(2)]
    write_all_delivers [of e3 "payload b" 0] payload_nonempty [OF assms(5)]
  by (simp add: transfer_def send_msg_type_def write_jobid_def write_all_to_socket_def)

lemma transfer_end:
  assumes "delivers e1 4" and "delivers e2 4"
  shows "transfer e1 e2 e3 (- 1) arr wire = Some (Inr (wire @ encode_msg EndMsg))"
  using send_single_value_delivers [OF assms(1)] send_single_value_delivers [OF assms(2)]
  by (simp add: transfer_def send_msg_type_def write_jobid_def)

lemma send_state_encodes:
  assumes "delivers e1 4" and "delivers e2 16"
  shows "send_state e1 e2 n th cpu wire = Some (0, wire @ encode_msg (StateMsg n th cpu))"
proof -
  have "le_bytes32 (word_of_int n) @ le_bytes32 th @ le_bytes64 cpu \<noteq> []"
    by (simp add: le_bytes32_def)
  then show ?thesis
    using send_single_value_delivers [OF assms(1)] assms(2)
      write_all_delivers [of e2 "le_bytes32 (word_of_int n) @ le_bytes32 th @ le_bytes64 cpu" 0]
    by (simp add: send_state_def send_msg_type_def write_all_to_socket_def)
qed

section \<open>The throttled computation\<close>

text \<open>
  \<^verbatim>\<open>compute_with_throttle\<close>: the time before and after as seconds and microseconds, and the argument of
  \<^verbatim>\<open>nanosleep\<close> as seconds and nanoseconds. The parameter \<open>scale\<close> is the product with \<^verbatim>\<open>1 - throttle\<close> in
  floating point, converted back to an integer.
\<close>

definition throttle_sleep :: "(int \<Rightarrow> int) \<Rightarrow> int \<times> int \<Rightarrow> int \<times> int \<Rightarrow> int \<times> int" where
  "throttle_sleep scale = (\<lambda>(start_sec, start_usec) (end_sec, end_usec).
     let seconds = end_sec - start_sec;
         usec = end_usec - start_usec;
         sleepTime = scale (seconds * 1000000 + usec);
         seconds = signed_divide sleepTime 1000000;
         usec = sleepTime - seconds * 1000000
     in (seconds, usec * 1000))"

definition compute_with_throttle ::
  "(u64 \<Rightarrow> u64) \<Rightarrow> (int \<Rightarrow> int) \<Rightarrow> int \<times> int \<Rightarrow> int \<times> int \<Rightarrow> u64 list \<Rightarrow> int \<Rightarrow> (u64 list \<times> int \<times> int) result" where
  "compute_with_throttle bump scale start_time end_time vec i =
     bind_r (compute bump vec i) (\<lambda>vec'. Inr (vec', throttle_sleep scale start_time end_time))"

text \<open>\<^verbatim>\<open>nanosleep\<close> accepts a time that is not negative and has less than a second of nanoseconds.\<close>

definition timespec_ok :: "int \<times> int \<Rightarrow> bool" where
  "timespec_ok = (\<lambda>(sec, nsec). 0 \<le> sec \<and> 0 \<le> nsec \<and> nsec < 1000000000)"

lemma throttle_sleep_ok:
  assumes "0 \<le> scale ((s1 - s0) * 1000000 + (u1 - u0))"
  shows "timespec_ok (throttle_sleep scale (s0, u0) (s1, u1))"
    and "fst (throttle_sleep scale (s0, u0) (s1, u1)) * 1000000000 + snd (throttle_sleep scale (s0, u0) (s1, u1))
       = scale ((s1 - s0) * 1000000 + (u1 - u0)) * 1000"
proof -
  let ?t = "scale ((s1 - s0) * 1000000 + (u1 - u0))"
  have "throttle_sleep scale (s0, u0) (s1, u1)
      = (signed_divide ?t 1000000, (?t - signed_divide ?t 1000000 * 1000000) * 1000)"
    by (simp only: throttle_sleep_def Let_def prod.case)
  then have t: "throttle_sleep scale (s0, u0) (s1, u1) = (?t div 1000000, ?t mod 1000000 * 1000)"
    by (simp only: signed_divide_nonneg [OF assms] minus_div_mult_eq_mod zero_less_numeral)
  have "?t mod 1000000 < 1000000" by simp
  then show "timespec_ok (throttle_sleep scale (s0, u0) (s1, u1))"
    using assms by (simp add: t timespec_ok_def pos_imp_zdiv_nonneg_iff)
  have "x div 1000000 * 1000000000 + x mod 1000000 * 1000 = x * 1000" for x :: int
    by presburger
  then show "fst (throttle_sleep scale (s0, u0) (s1, u1)) * 1000000000 + snd (throttle_sleep scale (s0, u0) (s1, u1))
       = ?t * 1000" by (simp only: t fst_conv snd_conv)
qed

lemma throttle_sleep_negative:
  assumes "scale ((s1 - s0) * 1000000 + (u1 - u0)) < 0"
  shows "\<not> timespec_ok (throttle_sleep scale (s0, u0) (s1, u1))"
proof -
  let ?t = "scale ((s1 - s0) * 1000000 + (u1 - u0))"
  have "signed_divide ?t 1000000 = - ((- ?t) div 1000000)"
    using assms by (simp add: signed_divide_int_def)
  moreover have "(- ?t) div 1000000 * 1000000 + (- ?t) mod 1000000 = - ?t" by simp
  moreover have "0 \<le> (- ?t) div 1000000" "0 \<le> (- ?t) mod 1000000"
    using assms by (simp_all add: pos_imp_zdiv_nonneg_iff)
  ultimately show ?thesis using assms by (auto simp: throttle_sleep_def Let_def timespec_ok_def)
qed

end
