(* ===== verification/MP4_Peers.thy ===== *)
theory MP4_Peers
  imports MP4_Jobs MP4_Queue
begin

text \<open>
  The two processes of MP4, client (\<^verbatim>\<open>src/MP4/client.c\<close>) and server (\<^verbatim>\<open>src/MP4/server.c\<close>), and the load
  balancer they share (\<^verbatim>\<open>adaptor\<close> in \<^verbatim>\<open>src/MP4/utils.c\<close>), as handlers on the state of a process. Messages
  are those of \<open>MP4_Jobs\<close>, and a queue is the list that the pointer queue of \<open>MP4_Queue\<close> represents;
  the lemma \<open>queue_refines\<close> connects the two.

  The outcome of a handler is \<^term>\<open>None\<close> when it blocks on a queue, a fault, or a new state with
  the messages sent. The conversion of an \<^verbatim>\<open>int\<close> to \<^verbatim>\<open>float\<close> is a parameter.
\<close>

section \<open>State\<close>

record peer =
  job_todo :: "int list"
  job_tosend :: "int list"
  job_array :: "u64 list"
  peer_num_jobs :: int
  peer_throttle_value :: u32
  peer_cpu_usage :: u64
  transfer_policy :: int
  rebalance_requested :: bool
  job_sent :: int

record client =
  c_peer :: peer
  job_finished :: int
  job_server_done :: int

type_synonym 'a outcome = "'a result option"

text \<open>
  Where a thread is in its loop: before the test of the loop condition, past it and about to take
  its turn, computing a job, inside the loop of the balancer with a number of jobs left to move, or
  ended.
\<close>

datatype thread = Check | Turn | Computing int | Moving nat | Ended

definition moving :: "thread \<Rightarrow> nat \<Rightarrow> thread" where
  "moving rest n = (if n = 0 then rest else Moving n)"

definition qpush :: "int \<Rightarrow> int list \<Rightarrow> int list option" where
  "qpush x q = (if length q = nat JOB_NUM then None else Some (q @ [x]))"

fun qpull :: "int list \<Rightarrow> (int \<times> int list) option" where
  "qpull [] = None"
| "qpull (x # q) = Some (x, q)"

lemma queue_refines:
  assumes "queue_rep s q" and "q_maxSize (snd s) = JOB_NUM" and "fst s nd = None"
  shows "case qpush x q of None \<Rightarrow> push_blocks (snd s)
         | Some q' \<Rightarrow> \<not> push_blocks (snd s) \<and> (\<exists>b t. queue_push nd x s = Inr (b, t) \<and> queue_rep t q')"
    and "case qpull q of None \<Rightarrow> pull_blocks (snd s)
         | Some (y, q') \<Rightarrow> \<not> pull_blocks (snd s) \<and> (\<exists>b t. queue_pull s = Inr (y, b, t) \<and> queue_rep t q')"
proof -
  have pos: "q_maxSize (snd s) > 0" using assms(2) by (simp add: JOB_NUM_def)
  have full: "push_blocks (snd s) \<longleftrightarrow> length q = nat JOB_NUM"
    using mp4_q.rep_full [of s q] assms(1,2) pos by simp
  show "case qpush x q of None \<Rightarrow> push_blocks (snd s)
         | Some q' \<Rightarrow> \<not> push_blocks (snd s) \<and> (\<exists>b t. queue_push nd x s = Inr (b, t) \<and> queue_rep t q')"
    using full mp4_q.push_ok [of s q nd x] assms pos by (auto simp: qpush_def)
  show "case qpull q of None \<Rightarrow> pull_blocks (snd s)
         | Some (y, q') \<Rightarrow> \<not> pull_blocks (snd s) \<and> (\<exists>b t. queue_pull s = Inr (y, b, t) \<and> queue_rep t q')"
    using mp4_q.rep_empty [of s q] mp4_q.pull_ok [of s "hd q" "tl q"] assms(1) pos by (cases q) auto
qed

section \<open>The load balancer\<close>

text \<open>The message that \<^verbatim>\<open>transfer\<close> puts on the wire.\<close>

definition transfer_msg :: "int \<Rightarrow> u64 list \<Rightarrow> msg result" where
  "transfer_msg jobID arr =
     (if jobID = - 1 then Inr EndMsg
      else bind_r (read_block (create_message jobID) arr) (\<lambda>b. Inr (DataMsg jobID b)))"

text \<open>
  \<^verbatim>\<open>adaptor\<close>: the part before its loop, which asks the peer to rebalance and says how many jobs are to
  be moved; one pass of the loop, where a negative entry ends it (the flag is \<^term>\<open>False\<close> then); and the
  whole call.
\<close>

definition adaptor_begin :: "peer \<Rightarrow> (nat \<times> msg list) result" where
  "adaptor_begin p =
     (let diff = s32 (int (length (job_todo p)) - peer_num_jobs p) in
      bind_r (c_div diff 2) (\<lambda>to_transfer.
        let ask = (if transfer_policy p > 0 \<and> diff < DIFF_THRESHOLD then [RebalanceMsg] else []) in
        if diff > DIFF_THRESHOLD \<and> peer_num_jobs p \<noteq> - 1
           \<and> (transfer_policy p = 0 \<or> transfer_policy p = 2 \<or> rebalance_requested p)
        then Inr (nat to_transfer, ask) else Inr (0, ask)))"

definition move_turn :: "peer \<Rightarrow> (bool \<times> peer \<times> msg list) outcome" where
  "move_turn p =
     (case qpull (job_todo p) of
        None \<Rightarrow> None
      | Some (jobID, q) \<Rightarrow>
          Some (if jobID > - 1
                then bind_r (transfer_msg (JOB_NUM + jobID) (job_array p)) (\<lambda>m.
                       Inr (True, p\<lparr>job_todo := q, job_sent := s32 (job_sent p + 1)\<rparr>, [m]))
                else Inr (False, p\<lparr>job_todo := q\<rparr>, [])))"

fun move_loop :: "nat \<Rightarrow> peer \<Rightarrow> msg list \<Rightarrow> (peer \<times> msg list) outcome" where
  "move_loop 0 p sent = Some (Inr (p, sent))"
| "move_loop (Suc n) p sent =
     (case move_turn p of
        None \<Rightarrow> None
      | Some (Inl e) \<Rightarrow> Some (Inl e)
      | Some (Inr (go, p', out)) \<Rightarrow>
          if go then move_loop n p' (sent @ out) else Some (Inr (p', sent @ out)))"

definition adaptor :: "peer \<Rightarrow> (peer \<times> msg list) outcome" where
  "adaptor p =
     (case adaptor_begin p of Inl e \<Rightarrow> Some (Inl e) | Inr (n, ask) \<Rightarrow> move_loop n p ask)"

text \<open>
  The acting half of \<^verbatim>\<open>state_handle\<close> up to the loop of the balancer. A first state with no jobs is
  ignored. \<open>state_handle\<close> is the whole call when no other thread of the process runs meanwhile.
\<close>

definition state_begin :: "(int \<Rightarrow> u32) \<Rightarrow> int \<Rightarrow> u32 \<Rightarrow> u64 \<Rightarrow> peer \<Rightarrow> (nat \<times> peer \<times> msg list) result" where
  "state_begin float_of_int n th cpu p =
     (if peer_num_jobs p = - 1 \<and> n = 0 then Inr (0, p, [])
      else let p' = p\<lparr>peer_num_jobs := n, peer_throttle_value := float_of_int (sint th), peer_cpu_usage := cpu\<rparr>
           in bind_r (adaptor_begin p') (\<lambda>(k, ask). Inr (k, p', ask)))"

definition state_handle :: "(int \<Rightarrow> u32) \<Rightarrow> int \<Rightarrow> u32 \<Rightarrow> u64 \<Rightarrow> peer \<Rightarrow> (peer \<times> msg list) outcome" where
  "state_handle float_of_int n th cpu p =
     (if peer_num_jobs p = - 1 \<and> n = 0 then Some (Inr (p, []))
      else adaptor (p\<lparr>peer_num_jobs := n, peer_throttle_value := float_of_int (sint th), peer_cpu_usage := cpu\<rparr>))"

section \<open>The server\<close>

text \<open>
  The acting half of \<^verbatim>\<open>process_client\<close> and \<^verbatim>\<open>transfer_handler\<close>. A job that was moved has \<^verbatim>\<open>JOB_NUM\<close> added
  to its number; the test does not cover job 0. The number in the outcome is that of the jobs the
  balancer still has to move.
\<close>

fun server_handle :: "(int \<Rightarrow> u32) \<Rightarrow> msg \<Rightarrow> peer \<Rightarrow> (nat \<times> peer \<times> msg list) outcome" where
  "server_handle fi (DataMsg jid b) p =
     (let jobID = (if jid > JOB_NUM then jid - JOB_NUM else jid) in
      case storeLocal jobID b (job_array p) of
        Inl e \<Rightarrow> Some (Inl e)
      | Inr arr \<Rightarrow>
          (case qpush jobID (job_todo p) of
             None \<Rightarrow> None
           | Some q \<Rightarrow> Some (Inr (0, p\<lparr>job_array := arr, job_todo := q\<rparr>, []))))"
| "server_handle fi EndMsg p =
     (case qpush (- 1) (job_tosend p) of
        None \<Rightarrow> None | Some q \<Rightarrow> Some (Inr (0, p\<lparr>job_tosend := q\<rparr>, [])))"
| "server_handle fi (StateMsg n th cpu) p = Some (state_begin fi n th cpu p)"
| "server_handle fi RebalanceMsg p = Some (Inr (0, p\<lparr>rebalance_requested := True\<rparr>, []))"

text \<open>
  \<^verbatim>\<open>compute_worker\<close>: takes a job, computes it and queues the result; \<^verbatim>\<open>compute_with_throttle\<close> also
  sleeps, which changes no state. The job between the two queues is the value of the first part.
\<close>

definition worker_take :: "peer \<Rightarrow> (int \<times> peer) option" where
  "worker_take p = (case qpull (job_todo p) of None \<Rightarrow> None | Some (j, q) \<Rightarrow> Some (j, p\<lparr>job_todo := q\<rparr>))"

definition worker_finish :: "(u64 \<Rightarrow> u64) \<Rightarrow> int \<Rightarrow> peer \<Rightarrow> peer outcome" where
  "worker_finish bump jobID p =
     (case compute bump (job_array p) jobID of
        Inl e \<Rightarrow> Some (Inl e)
      | Inr arr \<Rightarrow>
          (case qpush jobID (job_tosend p) of
             None \<Rightarrow> None | Some q \<Rightarrow> Some (Inr (p\<lparr>job_array := arr, job_tosend := q\<rparr>))))"

text \<open>One turn of \<^verbatim>\<open>write_to_clients\<close>, and of \<^verbatim>\<open>write_to_server\<close>: the oldest entry is transferred.\<close>

definition writer_turn :: "peer \<Rightarrow> (peer \<times> msg) outcome" where
  "writer_turn p =
     (case qpull (job_tosend p) of
        None \<Rightarrow> None
      | Some (j, q) \<Rightarrow> Some (bind_r (transfer_msg j (job_array p)) (\<lambda>m. Inr (p\<lparr>job_tosend := q\<rparr>, m))))"

section \<open>The client\<close>

text \<open>\<^verbatim>\<open>bootstrap\<close>: the first half of the jobs is done locally, the second half is sent.\<close>

fun bootstrap_loop :: "nat \<Rightarrow> int \<Rightarrow> peer \<Rightarrow> peer outcome" where
  "bootstrap_loop 0 i p = Some (Inr p)"
| "bootstrap_loop (Suc n) i p =
     (case qpush i (job_todo p) of
        None \<Rightarrow> None
      | Some q1 \<Rightarrow>
          (case qpush (i + JOB_NUM div 2) (job_tosend p) of
             None \<Rightarrow> None
           | Some q2 \<Rightarrow> bootstrap_loop n (i + 1) (p\<lparr>job_todo := q1, job_tosend := q2\<rparr>)))"

definition bootstrap :: "peer \<Rightarrow> peer outcome" where
  "bootstrap p = bootstrap_loop (nat (JOB_NUM div 2)) 0 p"

text \<open>
  How the processes start: the globals of \<^verbatim>\<open>utils.c\<close> with an array, the loop that fills the array, and
  \<^verbatim>\<open>run_client\<close> and \<^verbatim>\<open>run_server\<close> up to their threads. The constant 1.111111 is \<open>v\<close>.
\<close>

definition peer_globals :: "u64 list \<Rightarrow> peer" where
  "peer_globals arr = \<lparr>job_todo = [], job_tosend = [], job_array = arr,
     peer_num_jobs = - 1, peer_throttle_value = 0, peer_cpu_usage = 0, transfer_policy = 1,
     rebalance_requested = False, job_sent = 0\<rparr>"

fun fill_loop :: "nat \<Rightarrow> nat \<Rightarrow> u64 \<Rightarrow> u64 list \<Rightarrow> u64 list result" where
  "fill_loop 0 i v arr = Inr arr"
| "fill_loop (Suc n) i v arr =
     (if i < length arr then fill_loop n (Suc i) v (arr[i := v]) else Inl OutOfBounds)"

definition client_init :: "u64 \<Rightarrow> u64 list \<Rightarrow> client outcome" where
  "client_init v arr =
     (case fill_loop ARRAY_SIZE 0 v arr of
        Inl e \<Rightarrow> Some (Inl e)
      | Inr arr' \<Rightarrow>
          (case bootstrap (peer_globals arr') of
             None \<Rightarrow> None
           | Some r \<Rightarrow> Some (bind_r r (\<lambda>p. Inr \<lparr>c_peer = p, job_finished = 0, job_server_done = 0\<rparr>))))"

definition server_init :: "u64 \<Rightarrow> u64 list \<Rightarrow> peer result" where
  "server_init v arr = bind_r (fill_loop ARRAY_SIZE 0 v arr) (\<lambda>arr'. Inr (peer_globals arr'))"

definition peer_start :: "u64 \<Rightarrow> peer" where
  "peer_start v = peer_globals (replicate ARRAY_SIZE v)"

lemma fill_loop_eq:
  "i + n = length arr \<Longrightarrow> fill_loop n i v arr = Inr (take i arr @ replicate n v)"
proof (induction n arbitrary: i arr)
  case (Suc n)
  then have "fill_loop n (Suc i) v (arr[i := v]) = Inr (take (Suc i) (arr[i := v]) @ replicate n v)"
    by (intro Suc.IH) simp
  then show ?case using Suc.prems by (simp add: take_Suc_conv_app_nth)
qed simp

lemma fill_array: "length arr = ARRAY_SIZE \<Longrightarrow> fill_loop ARRAY_SIZE 0 v arr = Inr (replicate ARRAY_SIZE v)"
  using fill_loop_eq [of 0 ARRAY_SIZE arr v] by simp

lemma server_init_eq: "length arr = ARRAY_SIZE \<Longrightarrow> server_init v arr = Inr (peer_start v)"
  by (simp add: server_init_def fill_array peer_start_def)

text \<open>
  The acting half of \<^verbatim>\<open>read_from_server\<close>. The end message makes the client wait for a block that
  does not come.
\<close>

fun client_handle :: "(int \<Rightarrow> u32) \<Rightarrow> msg \<Rightarrow> client \<Rightarrow> (nat \<times> client \<times> msg list) outcome" where
  "client_handle fi (DataMsg jid b) c =
     (let p = c_peer c in
      if jid > - 1 \<and> jid < JOB_NUM
      then (case storeLocal jid b (job_array p) of
              Inl e \<Rightarrow> Some (Inl e)
            | Inr arr \<Rightarrow> Some (Inr (0, c\<lparr>c_peer := p\<lparr>job_array := arr\<rparr>, job_finished := s32 (job_finished c + 1),
                                     job_server_done := s32 (job_server_done c + 1)\<rparr>, [])))
      else if jid \<ge> JOB_NUM
      then (case qpush (jid - JOB_NUM) (job_todo p) of
              None \<Rightarrow> None | Some q \<Rightarrow> Some (Inr (0, c\<lparr>c_peer := p\<lparr>job_todo := q\<rparr>\<rparr>, [])))
      else Some (Inr (0, c, [])))"
| "client_handle fi EndMsg c = None"
| "client_handle fi (StateMsg n th cpu) c =
     Some (bind_r (state_begin fi n th cpu (c_peer c)) (\<lambda>(k, p, out). Inr (k, c\<lparr>c_peer := p\<rparr>, out)))"
| "client_handle fi RebalanceMsg c =
     Some (Inr (0, c\<lparr>c_peer := (c_peer c)\<lparr>rebalance_requested := True\<rparr>\<rparr>, []))"

text \<open>
  The loop conditions of the three threads of the client. The main loop of \<^verbatim>\<open>run_client\<close> queues the mark
  -1 for the writer when it ends, the reader queues it for the main loop.
\<close>

definition main_check :: "client \<Rightarrow> (thread \<times> client) option" where
  "main_check c =
     (if job_finished c < JOB_NUM then Some (Turn, c)
      else case qpush (- 1) (job_tosend (c_peer c)) of
             None \<Rightarrow> None | Some q \<Rightarrow> Some (Ended, c\<lparr>c_peer := (c_peer c)\<lparr>job_tosend := q\<rparr>\<rparr>))"

definition writer_check :: "client \<Rightarrow> thread" where
  "writer_check c = (if job_finished c = JOB_NUM then Ended else Turn)"

definition reader_check :: "client \<Rightarrow> (thread \<times> client) option" where
  "reader_check c =
     (if job_finished c = JOB_NUM
      then case qpush (- 1) (job_todo (c_peer c)) of
             None \<Rightarrow> None | Some q \<Rightarrow> Some (Ended, c\<lparr>c_peer := (c_peer c)\<lparr>job_todo := q\<rparr>\<rparr>)
      else Some (Turn, c))"

text \<open>
  The two halves of a turn of the main loop: taking a job, where the mark -1 only leads back to the
  loop condition, and computing it.
\<close>

definition main_take :: "client \<Rightarrow> (thread \<times> client) option" where
  "main_take c =
     (case worker_take (c_peer c) of
        None \<Rightarrow> None
      | Some (j, p) \<Rightarrow> Some (if j = - 1 then Check else Computing j, c\<lparr>c_peer := p\<rparr>))"

definition main_finish :: "(u64 \<Rightarrow> u64) \<Rightarrow> int \<Rightarrow> client \<Rightarrow> client result" where
  "main_finish bump jobID c =
     bind_r (compute bump (job_array (c_peer c)) jobID) (\<lambda>arr.
       Inr (c\<lparr>c_peer := (c_peer c)\<lparr>job_array := arr\<rparr>, job_finished := s32 (job_finished c + 1)\<rparr>))"

text \<open>
  The end of \<^verbatim>\<open>run_client\<close>: the file \<^verbatim>\<open>mp4_output.txt\<close>, one entry of the array per line. The format \<^verbatim>\<open>%f\<close> is the
  parameter \<open>fmt\<close>.
\<close>

fun output_loop :: "(u64 \<Rightarrow> string) \<Rightarrow> nat \<Rightarrow> nat \<Rightarrow> u64 list \<Rightarrow> string \<Rightarrow> string result" where
  "output_loop fmt 0 i arr out = Inr out"
| "output_loop fmt (Suc n) i arr out =
     (if i < length arr then output_loop fmt n (Suc i) arr (out @ fmt (arr ! i) @ [CHR 0x0A]) else Inl OutOfBounds)"

definition client_output :: "(u64 \<Rightarrow> string) \<Rightarrow> client \<Rightarrow> string result" where
  "client_output fmt c = output_loop fmt ARRAY_SIZE 0 (job_array (c_peer c)) []"

lemma output_loop_eq:
  "i + n = length arr \<Longrightarrow> output_loop fmt n i arr out = Inr (out @ concat (map (\<lambda>x. fmt x @ [CHR 0x0A]) (drop i arr)))"
proof (induction n arbitrary: i out)
  case (Suc n)
  then have "drop i arr = arr ! i # drop (Suc i) arr" by (intro Cons_nth_drop_Suc [symmetric]) simp
  then show ?case using Suc by simp
qed simp

section \<open>What the balancer moves\<close>

text \<open>
  The entries of a queue that are jobs, and a job that the code can move: not the mark -1, and
  not job 0.
\<close>

definition real_jobs :: "int list \<Rightarrow> int list" where
  "real_jobs q = filter (\<lambda>j. j \<noteq> - 1) q"

definition movable :: "int list \<Rightarrow> bool" where
  "movable q \<longleftrightarrow> (\<forall>j \<in> set (real_jobs q). 0 < j \<and> j < JOB_NUM)"

definition moved :: "u64 list \<Rightarrow> int \<Rightarrow> msg" where
  "moved arr j = DataMsg (JOB_NUM + j) (block (nat j) arr)"

lemma real_jobs_simps [simp]:
  "real_jobs [] = []" "real_jobs (j # q) = (if j = - 1 then real_jobs q else j # real_jobs q)"
  "real_jobs (q @ r) = real_jobs q @ real_jobs r"
  by (simp_all add: real_jobs_def)

lemma movable_Cons [simp]: "movable (j # q) \<longleftrightarrow> (j = - 1 \<or> 0 < j \<and> j < JOB_NUM) \<and> movable q"
  by (auto simp: movable_def)

lemma transfer_msg_job:
  assumes "0 \<le> j" and "j < JOB_NUM" and "length arr = ARRAY_SIZE"
  shows "transfer_msg j arr = Inr (DataMsg j (block (nat j) arr))"
    and "0 < j \<Longrightarrow> transfer_msg (JOB_NUM + j) arr = Inr (moved arr j)"
  using assms read_block_job [of j arr] by (auto simp: transfer_msg_def moved_def JOB_NUM_def)

text \<open>What one pass of the loop does to a queue of movable jobs.\<close>

lemma move_turn_cases:
  assumes "movable (job_todo p)" and "length (job_array p) = ARRAY_SIZE" and "job_todo p = j # q"
  shows "move_turn p = Some (Inr
     (if j = - 1 then (False, p\<lparr>job_todo := q\<rparr>, [])
      else (True, p\<lparr>job_todo := q, job_sent := s32 (job_sent p + 1)\<rparr>, [moved (job_array p) j])))"
  using assms transfer_msg_job(2) [of j "job_array p"] by (auto simp: move_turn_def)

text \<open>With enough jobs and no mark in the way the loop moves exactly as many as asked.\<close>

lemma move_loop_exact:
  "n \<le> length (job_todo p) \<Longrightarrow> (\<And>j. j \<in> set (job_todo p) \<Longrightarrow> 0 < j \<and> j < JOB_NUM) \<Longrightarrow>
   length (job_array p) = ARRAY_SIZE \<Longrightarrow>
   \<exists>k. move_loop n p sent = Some (Inr (p\<lparr>job_todo := drop n (job_todo p), job_sent := k\<rparr>,
     sent @ map (moved (job_array p)) (take n (job_todo p))))"
proof (induction n arbitrary: p sent)
  case 0
  have "move_loop 0 p sent = Some (Inr (p\<lparr>job_todo := drop 0 (job_todo p), job_sent := job_sent p\<rparr>,
     sent @ map (moved (job_array p)) (take 0 (job_todo p))))" by simp
  then show ?case by blast
next
  case (Suc n)
  then obtain j q where q: "job_todo p = j # q" by (cases "job_todo p") auto
  then have j: "0 < j" "j < JOB_NUM" using Suc.prems(2) by auto
  let ?p = "p\<lparr>job_todo := q, job_sent := s32 (job_sent p + 1)\<rparr>" and ?m = "moved (job_array p) j"
  have "move_loop (Suc n) p sent = move_loop n ?p (sent @ [?m])"
    using q j transfer_msg_job(2) [of j "job_array p"] Suc.prems(3) by (simp add: move_turn_def)
  then show ?case using Suc.IH [of ?p "sent @ [?m]"] Suc.prems q by simp
qed

lemma bootstrap_loop_eq:
  "length (job_todo p) + n \<le> 1024 \<Longrightarrow> length (job_tosend p) + n \<le> 1024 \<Longrightarrow>
   bootstrap_loop n i p = Some (Inr (p\<lparr>job_todo := job_todo p @ map (\<lambda>k. i + int k) [0..<n],
     job_tosend := job_tosend p @ map (\<lambda>k. i + int k + 512) [0..<n]\<rparr>))"
proof (induction n arbitrary: i p)
  case (Suc n)
  have up: "[0..<Suc n] = 0 # map Suc [0..<n]" by (simp add: map_Suc_upt upt_conv_Cons del: upt_Suc)
  show ?case using Suc.prems
    by (simp add: Suc.IH qpush_def JOB_NUM_def up comp_def add.assoc del: upt_Suc)
qed simp

end
