(* ===== verification/MP4_System.thy ===== *)
theory MP4_System
  imports MP4_Peers
begin

text \<open>
  Client and server of MP4 together: two processes, each with its threads, and a channel of
  messages in each direction. A step is one turn of a thread: the client's main loop, writer,
  reader and state thread, and the server's reader, worker, writer and state thread. A turn that
  blocks or faults takes no step; that none faults is shown separately.

  The invariant accounts for every job: it is in exactly one queue, message or thread, or it is
  finished, and the array of the client holds its start value until it is finished and the
  computed value from then on.
\<close>

section \<open>Steps\<close>

record system =
  cl :: client
  sv :: peer
  cs :: "msg list"
  sc :: "msg list"
  cl_main :: thread
  cl_writer :: thread
  cl_reader :: thread
  sv_reader :: thread
  sv_worker :: thread
  sv_writer :: thread
  session_end :: bool

text \<open>
  The bytes that the sending functions write for a message: a type, then a job number and the block
  of a job, a job number alone, the four words of a state, or nothing.
\<close>

fun wire_size :: "msg \<Rightarrow> nat" where
  "wire_size (DataMsg jid b) = 4 + 4 + 8 * nat JOB_SIZE"
| "wire_size EndMsg = 4 + 4"
| "wire_size (StateMsg n th cpu) = 4 + 16"
| "wire_size RebalanceMsg = 4"

text \<open>
  The last rules end the session. The writer of the server sleeps two seconds after it has sent the
  number -1 and then raises SIGINT, which closes the connection; until then the other threads of the
  server go on. The client's reader waits for a block behind the number -1. When the connection
  is closed before the block is complete its calls of \<^verbatim>\<open>read\<close> fail, the number -1 or the message
  type is not acted on, and it tests its loop condition again.
\<close>

inductive sys_turn :: "(u64 \<Rightarrow> u64) \<Rightarrow> (int \<Rightarrow> u32) \<Rightarrow> system \<Rightarrow> system \<Rightarrow> bool"
  for bump :: "u64 \<Rightarrow> u64" and fi :: "int \<Rightarrow> u32" where
  sys_main_check: "cl_main s = Check \<Longrightarrow> main_check (cl s) = Some (th, c) \<Longrightarrow>
    sys_turn bump fi s (s\<lparr>cl := c, cl_main := th\<rparr>)"
| sys_main_take: "cl_main s = Turn \<Longrightarrow> main_take (cl s) = Some (th, c) \<Longrightarrow>
    sys_turn bump fi s (s\<lparr>cl := c, cl_main := th\<rparr>)"
| sys_main_finish: "cl_main s = Computing j \<Longrightarrow> main_finish bump j (cl s) = Inr c \<Longrightarrow>
    sys_turn bump fi s (s\<lparr>cl := c, cl_main := Check\<rparr>)"
| sys_writer_check: "cl_writer s = Check \<Longrightarrow>
    sys_turn bump fi s (s\<lparr>cl_writer := writer_check (cl s)\<rparr>)"
| sys_client_write: "cl_writer s = Turn \<Longrightarrow> writer_turn (c_peer (cl s)) = Some (Inr (p, m)) \<Longrightarrow>
    sys_turn bump fi s (s\<lparr>cl := (cl s)\<lparr>c_peer := p\<rparr>, cs := cs s @ [m], cl_writer := Check\<rparr>)"
| sys_reader_check: "cl_reader s = Check \<Longrightarrow> reader_check (cl s) = Some (th, c) \<Longrightarrow>
    sys_turn bump fi s (s\<lparr>cl := c, cl_reader := th\<rparr>)"
| sys_client_read: "cl_reader s = Turn \<Longrightarrow> sc s = m # ms \<Longrightarrow>
    client_handle fi m (cl s) = Some (Inr (k, c, out)) \<Longrightarrow>
    sys_turn bump fi s (s\<lparr>cl := c, sc := ms, cs := cs s @ out, cl_reader := moving Check k\<rparr>)"
| sys_client_move: "cl_reader s = Moving (Suc k) \<Longrightarrow> move_turn (c_peer (cl s)) = Some (Inr (go, p, out)) \<Longrightarrow>
    sys_turn bump fi s (s\<lparr>cl := (cl s)\<lparr>c_peer := p\<rparr>, cs := cs s @ out,
      cl_reader := (if go then moving Check k else Check)\<rparr>)"
| sys_server_read: "\<not> session_end s \<Longrightarrow> sv_reader s = Turn \<Longrightarrow> cs s = m # ms \<Longrightarrow>
    server_handle fi m (sv s) = Some (Inr (k, p, out)) \<Longrightarrow>
    sys_turn bump fi s (s\<lparr>sv := p, cs := ms, sc := sc s @ out, sv_reader := moving Turn k\<rparr>)"
| sys_server_move: "\<not> session_end s \<Longrightarrow> sv_reader s = Moving (Suc k) \<Longrightarrow>
    move_turn (sv s) = Some (Inr (go, p, out)) \<Longrightarrow>
    sys_turn bump fi s (s\<lparr>sv := p, sc := sc s @ out, sv_reader := (if go then moving Turn k else Turn)\<rparr>)"
| sys_worker_take: "\<not> session_end s \<Longrightarrow> sv_worker s = Turn \<Longrightarrow> worker_take (sv s) = Some (j, p) \<Longrightarrow>
    sys_turn bump fi s (s\<lparr>sv := p, sv_worker := (if j > - 1 then Computing j else Ended)\<rparr>)"
| sys_worker_finish: "\<not> session_end s \<Longrightarrow> sv_worker s = Computing j \<Longrightarrow>
    worker_finish bump j (sv s) = Some (Inr p) \<Longrightarrow>
    sys_turn bump fi s (s\<lparr>sv := p, sv_worker := Turn\<rparr>)"
| sys_server_write: "\<not> session_end s \<Longrightarrow> sv_writer s = Turn \<Longrightarrow> writer_turn (sv s) = Some (Inr (p, m)) \<Longrightarrow>
    sys_turn bump fi s (s\<lparr>sv := p, sc := sc s @ [m], sv_writer := (if m = EndMsg then Ended else Turn)\<rparr>)"
| sys_server_signal: "\<not> session_end s \<Longrightarrow> sv_writer s = Ended \<Longrightarrow>
    sys_turn bump fi s (s\<lparr>session_end := True\<rparr>)"
| sys_client_end: "cl_reader s = Turn \<Longrightarrow> session_end s \<Longrightarrow> sc s = EndMsg # ms \<Longrightarrow>
    sum_list (map wire_size ms) < 8 * nat JOB_SIZE \<Longrightarrow>
    sys_turn bump fi s (s\<lparr>sc := [], cl_reader := Check\<rparr>)"
| sys_client_closed: "cl_reader s = Turn \<Longrightarrow> session_end s \<Longrightarrow> sc s = [] \<Longrightarrow>
    sys_turn bump fi s (s\<lparr>cl_reader := Check\<rparr>)"

text \<open>A step is a turn or a state message of either side, which may come at any time.\<close>

definition client_state_manager :: "peer \<Rightarrow> u32 \<Rightarrow> u64 \<Rightarrow> msg" where
  "client_state_manager p throttle monitor_utilization =
     StateMsg (int (length (job_todo p))) throttle monitor_utilization"

definition server_state_manager :: "peer \<Rightarrow> u32 \<Rightarrow> u64 \<Rightarrow> msg" where
  "server_state_manager p throttle monitor_utilization =
     StateMsg (int (length (job_todo p))) throttle monitor_utilization"

inductive sys_step :: "(u64 \<Rightarrow> u64) \<Rightarrow> (int \<Rightarrow> u32) \<Rightarrow> system \<Rightarrow> system \<Rightarrow> bool"
  for bump :: "u64 \<Rightarrow> u64" and fi :: "int \<Rightarrow> u32" where
  sys_turn: "sys_turn bump fi s t \<Longrightarrow> sys_step bump fi s t"
| sys_client_state: "sys_step bump fi s (s\<lparr>cs := cs s @ [client_state_manager (c_peer (cl s)) thr cpu]\<rparr>)"
| sys_server_state: "\<not> session_end s \<Longrightarrow>
    sys_step bump fi s (s\<lparr>sc := sc s @ [server_state_manager (sv s) thr cpu]\<rparr>)"

text \<open>
  The threads as \<^verbatim>\<open>run_client\<close> and \<^verbatim>\<open>run_server\<close> create them, with the main loop of the client at \<open>th\<close>.
\<close>

definition sys_boot :: "client \<Rightarrow> thread \<Rightarrow> peer \<Rightarrow> system" where
  "sys_boot c th q = \<lparr>cl = c, sv = q, cs = [], sc = [], cl_main = th, cl_writer = Check, cl_reader = Check,
     sv_reader = Turn, sv_worker = Turn, sv_writer = Turn, session_end = False\<rparr>"

text \<open>
  The start: the client after \<^verbatim>\<open>bootstrap\<close>, when the main loop has taken its first job, number 0;
  the server with empty queues. Both arrays are filled with \<open>v\<close>.
\<close>

definition sys_start :: "u64 \<Rightarrow> system" where
  "sys_start v =
     (let p = (peer_start v)\<lparr>job_todo := map int [1..<512], job_tosend := map int [512..<1024]\<rparr>
      in \<lparr>cl = \<lparr>c_peer = p, job_finished = 0, job_server_done = 0\<rparr>,
          sv = peer_start v, cs = [], sc = [], cl_main = Computing 0, cl_writer = Check,
          cl_reader = Check, sv_reader = Turn, sv_worker = Turn, sv_writer = Turn, session_end = False\<rparr>)"

section \<open>The invariant\<close>

fun msg_job :: "msg \<Rightarrow> int list" where
  "msg_job (DataMsg jid b) = [if jid > JOB_NUM then jid - JOB_NUM else jid]"
| "msg_job _ = []"

definition msgs_jobs :: "msg list \<Rightarrow> int list" where
  "msgs_jobs ms = concat (map msg_job ms)"

fun cur_job :: "thread \<Rightarrow> int list" where
  "cur_job (Computing j) = [j]"
| "cur_job _ = []"

text \<open>All unfinished jobs but the one the client's main loop works on.\<close>

definition held :: "system \<Rightarrow> int list" where
  "held s = real_jobs (job_todo (c_peer (cl s))) @ real_jobs (job_tosend (c_peer (cl s))) @ msgs_jobs (cs s)
     @ real_jobs (job_todo (sv s)) @ cur_job (sv_worker s) @ real_jobs (job_tosend (sv s)) @ msgs_jobs (sc s)"

definition inflight :: "system \<Rightarrow> int list" where
  "inflight s = cur_job (cl_main s) @ held s"

definition start_block :: "u64 \<Rightarrow> u64 list" where
  "start_block v = replicate 4096 v"

definition final_block :: "(u64 \<Rightarrow> u64) \<Rightarrow> u64 \<Rightarrow> u64 list" where
  "final_block bump v = replicate 4096 (bump_loop bump 6000 v)"

text \<open>Where the jobs are.\<close>

definition place_inv :: "system \<Rightarrow> bool" where
  "place_inv s \<longleftrightarrow> distinct (inflight s) \<and> set (inflight s) \<subseteq> {0..<JOB_NUM} \<and> 0 \<notin> set (held s)
     \<and> int (length (inflight s)) + job_finished (cl s) = JOB_NUM"

text \<open>What the arrays and the messages hold.\<close>

definition data_inv :: "(u64 \<Rightarrow> u64) \<Rightarrow> u64 \<Rightarrow> system \<Rightarrow> bool" where
  "data_inv bump v s \<longleftrightarrow>
     length (job_array (c_peer (cl s))) = ARRAY_SIZE \<and> length (job_array (sv s)) = ARRAY_SIZE
     \<and> (\<forall>j<1024. block j (job_array (c_peer (cl s))) =
          (if int j \<in> set (inflight s) then start_block v else final_block bump v))
     \<and> (\<forall>j \<in> set (real_jobs (job_todo (sv s)) @ cur_job (sv_worker s)). block (nat j) (job_array (sv s)) = start_block v)
     \<and> (\<forall>j \<in> set (real_jobs (job_tosend (sv s))). block (nat j) (job_array (sv s)) = final_block bump v)
     \<and> (\<forall>jid b. DataMsg jid b \<in> set (cs s) \<longrightarrow> b = start_block v)
     \<and> (\<forall>jid b. DataMsg jid b \<in> set (sc s) \<longrightarrow> jid < JOB_NUM \<longrightarrow> b = final_block bump v)"

definition sys_inv :: "(u64 \<Rightarrow> u64) \<Rightarrow> u64 \<Rightarrow> system \<Rightarrow> bool" where
  "sys_inv bump v s \<longleftrightarrow> place_inv s \<and> data_inv bump v s"

lemma msgs_jobs_simps [simp]:
  "msgs_jobs [] = []" "msgs_jobs (m # ms) = msg_job m @ msgs_jobs ms"
  "msgs_jobs (ms @ ns) = msgs_jobs ms @ msgs_jobs ns"
  by (simp_all add: msgs_jobs_def)

lemma in_cur_job [simp]: "i \<in> set (cur_job x) \<longleftrightarrow> x = Computing i"
  by (cases x) auto

lemma msgs_jobs_moved [simp]:
  "(\<And>j. j \<in> set js \<Longrightarrow> 0 < j) \<Longrightarrow> msgs_jobs (map (moved arr) js) = js"
  by (induction js) (auto simp: moved_def)

lemma msgs_jobs_ask [simp]: "set ask \<subseteq> {RebalanceMsg} \<Longrightarrow> msgs_jobs ask = []"
  by (induction ask) auto

lemma length_blocks [simp]: "length (start_block v) = 4096" "length (final_block bump v) = 4096"
  by (simp_all add: start_block_def final_block_def)

lemma final_start: "map (bump_loop bump 6000) (start_block v) = final_block bump v"
  by (simp add: start_block_def final_block_def)

text \<open>
  Most steps only move jobs: the unfinished jobs are the same up to their order, and the number
  of finished ones does not change.
\<close>

lemma place_inv_move:
  assumes "place_inv s" and "mset (inflight t) = mset (inflight s)"
    and "set (held t) \<subseteq> set (held s)" and "job_finished (cl t) = job_finished (cl s)"
  shows "place_inv t"
proof -
  have "set (inflight t) = set (inflight s)" using assms(2) by (metis set_mset_mset)
  moreover have "length (inflight t) = length (inflight s)" using assms(2) by (metis size_mset)
  moreover have "distinct (inflight t) = distinct (inflight s)"
    using assms(2) by (metis mset_eq_imp_distinct_iff)
  ultimately show ?thesis using assms by (auto simp: place_inv_def)
qed

lemma place_invD:
  assumes "place_inv s"
  shows "0 \<le> job_finished (cl s)" and "job_finished (cl s) \<le> JOB_NUM"
    and "j \<in> set (held s) \<Longrightarrow> 0 < j \<and> j < JOB_NUM"
proof -
  have "card (set (inflight s)) \<le> card {0..<JOB_NUM}"
    using assms by (intro card_mono) (auto simp: place_inv_def)
  then have "int (length (inflight s)) \<le> JOB_NUM"
    using assms by (simp add: place_inv_def distinct_card JOB_NUM_def)
  then show "0 \<le> job_finished (cl s)" using assms by (simp add: place_inv_def)
  show "job_finished (cl s) \<le> JOB_NUM" using assms by (simp add: place_inv_def)
  show "0 < j \<and> j < JOB_NUM" if "j \<in> set (held s)"
  proof -
    have "j \<in> {0..<JOB_NUM}" using that assms by (auto simp: place_inv_def inflight_def)
    moreover have "j \<noteq> 0" using that assms by (auto simp: place_inv_def)
    ultimately show ?thesis by auto
  qed
qed

lemma held_movable:
  assumes "place_inv s"
  shows "movable (job_todo (c_peer (cl s)))" and "movable (job_todo (sv s))"
    and "movable (job_tosend (c_peer (cl s)))" and "movable (job_tosend (sv s))"
  using place_invD(3) [OF assms] by (auto simp: movable_def held_def)

lemma data_invD:
  assumes "data_inv bump v s"
  shows "length (job_array (c_peer (cl s))) = ARRAY_SIZE" and "length (job_array (sv s)) = ARRAY_SIZE"
    and "j < 1024 \<Longrightarrow> block j (job_array (c_peer (cl s))) =
          (if int j \<in> set (inflight s) then start_block v else final_block bump v)"
    and "i \<in> set (real_jobs (job_todo (sv s))) \<Longrightarrow> block (nat i) (job_array (sv s)) = start_block v"
    and "sv_worker s = Computing i \<Longrightarrow> block (nat i) (job_array (sv s)) = start_block v"
    and "i \<in> set (real_jobs (job_tosend (sv s))) \<Longrightarrow> block (nat i) (job_array (sv s)) = final_block bump v"
    and "DataMsg jid b \<in> set (cs s) \<Longrightarrow> b = start_block v"
    and "DataMsg jid b \<in> set (sc s) \<Longrightarrow> jid < JOB_NUM \<Longrightarrow> b = final_block bump v"
  using assms by (auto simp: data_inv_def)

lemma client_block:
  assumes "sys_inv bump v s" and "j \<in> set (inflight s)"
  shows "block (nat j) (job_array (c_peer (cl s))) = start_block v"
proof -
  have "0 \<le> j" "j < JOB_NUM" using assms by (auto simp: sys_inv_def place_inv_def)
  then show ?thesis using assms data_invD(3) [of bump v s "nat j"] by (simp add: sys_inv_def JOB_NUM_def)
qed

text \<open>A step that moves jobs and changes no array.\<close>

lemma sys_inv_move:
  assumes "sys_inv bump v s" and "mset (inflight t) = mset (inflight s)"
    and "set (held t) \<subseteq> set (held s)" and "job_finished (cl t) = job_finished (cl s)"
    and "job_array (c_peer (cl t)) = job_array (c_peer (cl s))" and "job_array (sv t) = job_array (sv s)"
    and "set (real_jobs (job_todo (sv t)) @ cur_job (sv_worker t)) \<subseteq> set (real_jobs (job_todo (sv s)) @ cur_job (sv_worker s))"
    and "set (real_jobs (job_tosend (sv t))) \<subseteq> set (real_jobs (job_tosend (sv s)))"
    and "\<And>jid b. DataMsg jid b \<in> set (cs t) \<Longrightarrow> b = start_block v"
    and "\<And>jid b. DataMsg jid b \<in> set (sc t) \<Longrightarrow> jid < JOB_NUM \<Longrightarrow> b = final_block bump v"
  shows "sys_inv bump v t"
proof -
  have "place_inv t" using assms(1-4) place_inv_move by (auto simp: sys_inv_def)
  moreover have "set (inflight t) = set (inflight s)" using assms(2) by (metis set_mset_mset)
  then have "data_inv bump v t" using assms(1,5-10) by (auto simp: sys_inv_def data_inv_def)
  ultimately show ?thesis by (simp add: sys_inv_def)
qed

lemmas place_simps = inflight_def held_def

lemma inv_main_check:
  assumes "sys_inv bump v s" and "cl_main s = Check" and "main_check (cl s) = Some (th, c)"
  shows "sys_inv bump v (s\<lparr>cl := c, cl_main := th\<rparr>)"
proof -
  have c: "th = Turn \<and> c = cl s \<or>
      th = Ended \<and> c = (cl s)\<lparr>c_peer := (c_peer (cl s))\<lparr>job_tosend := job_tosend (c_peer (cl s)) @ [- 1]\<rparr>\<rparr>"
    using assms(3) by (auto simp: main_check_def qpush_def split: if_splits)
  have d: "data_inv bump v s" using assms(1) by (simp add: sys_inv_def)
  show ?thesis
    by (rule sys_inv_move [OF assms(1)]) (use c assms(2) data_invD [OF d] in \<open>auto simp: place_simps\<close>)
qed

lemma inv_main_take:
  assumes "sys_inv bump v s" and "cl_main s = Turn" and "main_take (cl s) = Some (th, c)"
  shows "sys_inv bump v (s\<lparr>cl := c, cl_main := th\<rparr>)"
proof -
  obtain j q where q: "job_todo (c_peer (cl s)) = j # q" "th = (if j = - 1 then Check else Computing j)"
      "c = (cl s)\<lparr>c_peer := (c_peer (cl s))\<lparr>job_todo := q\<rparr>\<rparr>"
    using assms(3) by (cases "job_todo (c_peer (cl s))") (auto simp: main_take_def worker_take_def)
  have d: "data_inv bump v s" using assms(1) by (simp add: sys_inv_def)
  show ?thesis
    by (rule sys_inv_move [OF assms(1)])
       (use q assms(2) data_invD [OF d] in \<open>auto simp: place_simps\<close>)
qed

lemma inv_reader_check:
  assumes "sys_inv bump v s" and "reader_check (cl s) = Some (th, c)"
  shows "sys_inv bump v (s\<lparr>cl := c, cl_reader := th\<rparr>)"
proof -
  have c: "c = cl s \<or> c = (cl s)\<lparr>c_peer := (c_peer (cl s))\<lparr>job_todo := job_todo (c_peer (cl s)) @ [- 1]\<rparr>\<rparr>"
    using assms(2) by (auto simp: reader_check_def qpush_def split: if_splits)
  have d: "data_inv bump v s" using assms(1) by (simp add: sys_inv_def)
  show ?thesis
    by (rule sys_inv_move [OF assms(1)]) (use c data_invD [OF d] in \<open>auto simp: place_simps\<close>)
qed

text \<open>Where the writer and the readers are, and whether the session has ended, does not matter.\<close>

lemma inv_frame [simp]:
  "sys_inv bump v (s\<lparr>cl_writer := th\<rparr>) = sys_inv bump v s"
  "sys_inv bump v (s\<lparr>cl_reader := th\<rparr>) = sys_inv bump v s"
  "sys_inv bump v (s\<lparr>sv_reader := th\<rparr>) = sys_inv bump v s"
  "sys_inv bump v (s\<lparr>sv_writer := th\<rparr>) = sys_inv bump v s"
  "sys_inv bump v (s\<lparr>session_end := b\<rparr>) = sys_inv bump v s"
  by (simp_all add: sys_inv_def place_inv_def data_inv_def place_simps)

lemma inv_states:
  assumes "sys_inv bump v s"
  shows "sys_inv bump v (s\<lparr>cs := cs s @ [StateMsg n th cpu]\<rparr>)"
    and "sys_inv bump v (s\<lparr>sc := sc s @ [StateMsg n th cpu]\<rparr>)"
  using assms by (auto simp: sys_inv_def place_inv_def data_inv_def place_simps)

lemma writer_turn_cases:
  assumes "writer_turn p = Some (Inr (p', m))" and "movable (job_tosend p)" and "length (job_array p) = ARRAY_SIZE"
  shows "\<exists>j q. job_tosend p = j # q \<and> p' = p\<lparr>job_tosend := q\<rparr>
     \<and> (j = - 1 \<and> m = EndMsg \<or> 0 < j \<and> j < JOB_NUM \<and> m = DataMsg j (block (nat j) (job_array p)))"
proof -
  obtain j q where q: "job_tosend p = j # q" using assms(1) by (cases "job_tosend p") (auto simp: writer_turn_def)
  show ?thesis
  proof (cases "j = - 1")
    case True
    then show ?thesis using assms(1) q by (simp add: writer_turn_def transfer_msg_def)
  next
    case False
    then have "0 < j" "j < JOB_NUM" using assms(2) q by auto
    then show ?thesis using assms(1,3) q transfer_msg_job(1) [of j "job_array p"]
      by (simp add: writer_turn_def)
  qed
qed

lemma inv_client_write:
  assumes "sys_inv bump v s" and "writer_turn (c_peer (cl s)) = Some (Inr (p, m))"
  shows "sys_inv bump v (s\<lparr>cl := (cl s)\<lparr>c_peer := p\<rparr>, cs := cs s @ [m], cl_writer := th\<rparr>)"
proof -
  have d: "data_inv bump v s" and pl: "place_inv s" using assms(1) by (simp_all add: sys_inv_def)
  obtain j q where q: "job_tosend (c_peer (cl s)) = j # q" "p = (c_peer (cl s))\<lparr>job_tosend := q\<rparr>"
    and m: "j = - 1 \<and> m = EndMsg \<or>
        0 < j \<and> j < JOB_NUM \<and> m = DataMsg j (block (nat j) (job_array (c_peer (cl s))))"
    using writer_turn_cases [OF assms(2) held_movable(3) [OF pl] data_invD(1) [OF d]] by blast
  have "j \<noteq> - 1 \<Longrightarrow> block (nat j) (job_array (c_peer (cl s))) = start_block v"
    using client_block [OF assms(1), of j] q by (simp add: place_simps)
  then show ?thesis
    by (intro sys_inv_move [OF assms(1)]) (use q m data_invD [OF d] in \<open>auto simp: place_simps\<close>)
qed

lemma inv_server_write:
  assumes "sys_inv bump v s" and "writer_turn (sv s) = Some (Inr (p, m))"
  shows "sys_inv bump v (s\<lparr>sv := p, sc := sc s @ [m], sv_writer := th\<rparr>)"
proof -
  have d: "data_inv bump v s" and pl: "place_inv s" using assms(1) by (simp_all add: sys_inv_def)
  obtain j q where q: "job_tosend (sv s) = j # q" "p = (sv s)\<lparr>job_tosend := q\<rparr>"
    and m: "j = - 1 \<and> m = EndMsg \<or>
        0 < j \<and> j < JOB_NUM \<and> m = DataMsg j (block (nat j) (job_array (sv s)))"
    using writer_turn_cases [OF assms(2) held_movable(4) [OF pl] data_invD(2) [OF d]] by blast
  have "j \<noteq> - 1 \<Longrightarrow> block (nat j) (job_array (sv s)) = final_block bump v"
    using data_invD(6) [OF d, of j] q by simp
  then show ?thesis
    by (intro sys_inv_move [OF assms(1)]) (use q m data_invD [OF d] in \<open>auto simp: place_simps\<close>)
qed

lemma inv_worker_take:
  assumes "sys_inv bump v s" and "sv_worker s = Turn" and "worker_take (sv s) = Some (j, p)"
  shows "sys_inv bump v (s\<lparr>sv := p, sv_worker := (if j > - 1 then Computing j else Ended)\<rparr>)"
proof -
  have d: "data_inv bump v s" using assms(1) by (simp add: sys_inv_def)
  obtain q where q: "job_todo (sv s) = j # q" "p = (sv s)\<lparr>job_todo := q\<rparr>"
    using assms(3) by (cases "job_todo (sv s)") (auto simp: worker_take_def)
  have pl: "place_inv s" using assms(1) by (simp add: sys_inv_def)
  have "j = - 1 \<or> 0 < j" using held_movable(2) [OF pl] q by auto
  then have th: "cur_job (if j > - 1 then Computing j else Ended) = real_jobs [j]" by auto
  show ?thesis
    by (rule sys_inv_move [OF assms(1)])
       (use q th assms(2) data_invD [OF d] in \<open>auto simp: place_simps simp del: in_cur_job\<close>)
qed

text \<open>A step that finishes a job at the client.\<close>

lemma sys_inv_finish:
  assumes "sys_inv bump v s" and ms: "mset (inflight s) = add_mset j (mset (inflight t))"
    and "set (held t) \<subseteq> set (held s)" and fin: "job_finished (cl t) = s32 (job_finished (cl s) + 1)"
    and arr: "job_array (c_peer (cl t)) = set_block (nat j) (final_block bump v) (job_array (c_peer (cl s)))"
    and "sv t = sv s" and "sv_worker t = sv_worker s" and "cs t = cs s" and "set (sc t) \<subseteq> set (sc s)"
  shows "sys_inv bump v t"
proof -
  have pl: "place_inv s" and d: "data_inv bump v s" using assms(1) by (simp_all add: sys_inv_def)
  have set: "set (inflight s) = insert j (set (inflight t))"
    using ms by (metis set_mset_add_mset_insert set_mset_mset)
  have dist: "distinct (j # inflight t)"
    using ms pl by (metis mset.simps(2) mset_eq_imp_distinct_iff place_inv_def)
  have len: "length (inflight s) = Suc (length (inflight t))" using ms by (metis size_add_mset size_mset)
  have j: "0 \<le> j" "j < JOB_NUM" using pl set by (auto simp: place_inv_def)
  have "job_finished (cl t) = job_finished (cl s) + 1"
    using fin place_invD(1,2) [OF pl] by (simp add: JOB_NUM_def s32_id c_int_def)
  then have "place_inv t" using pl set dist len assms(3) by (auto simp: place_inv_def)
  moreover have "data_inv bump v t"
  proof -
    have "block i (job_array (c_peer (cl t))) =
        (if int i \<in> set (inflight t) then start_block v else final_block bump v)" if "i < 1024" for i
      using that j dist set data_invD(1,3) [OF d]
      by (auto simp: arr block_set_block JOB_NUM_def)
    moreover have "length (job_array (c_peer (cl t))) = ARRAY_SIZE"
      using arr j data_invD(1) [OF d] by (simp add: JOB_NUM_def)
    ultimately show ?thesis using d assms(6-9) by (auto simp: data_inv_def)
  qed
  ultimately show ?thesis by (simp add: sys_inv_def)
qed

lemma inv_main_finish:
  assumes "sys_inv bump v s" and "cl_main s = Computing j" and "main_finish bump j (cl s) = Inr c"
  shows "sys_inv bump v (s\<lparr>cl := c, cl_main := Check\<rparr>)"
proof -
  have pl: "place_inv s" and d: "data_inv bump v s" using assms(1) by (simp_all add: sys_inv_def)
  have j: "0 \<le> j" "j < 1024" using pl assms(2) by (auto simp: place_inv_def place_simps JOB_NUM_def)
  have "block (nat j) (job_array (c_peer (cl s))) = start_block v"
    using client_block [OF assms(1), of j] assms(2) by (simp add: place_simps)
  then have c: "c = (cl s)\<lparr>c_peer := (c_peer (cl s))\<lparr>job_array :=
        set_block (nat j) (final_block bump v) (job_array (c_peer (cl s)))\<rparr>,
      job_finished := s32 (job_finished (cl s) + 1)\<rparr>"
    using assms(3) compute_block [OF j data_invD(1) [OF d], of bump] by (simp add: main_finish_def final_start)
  show ?thesis
    by (rule sys_inv_finish [OF assms(1), of j]) (use assms(2) in \<open>auto simp: c place_simps\<close>)
qed

lemma sc_job:
  assumes "place_inv s" and "sc s = DataMsg jid b # ms"
  shows "0 < jid" and "jid \<noteq> JOB_NUM" and "jid < 2 * JOB_NUM"
proof -
  have "(if jid > JOB_NUM then jid - JOB_NUM else jid) \<in> set (held s)" using assms(2) by (simp add: held_def)
  from place_invD(3) [OF assms(1) this] show "0 < jid" "jid \<noteq> JOB_NUM" "jid < 2 * JOB_NUM"
    by (auto simp: JOB_NUM_def split: if_splits)
qed

lemma cs_job:
  assumes "place_inv s" and "cs s = DataMsg jid b # ms"
  shows "0 < (if jid > JOB_NUM then jid - JOB_NUM else jid)"
    and "(if jid > JOB_NUM then jid - JOB_NUM else jid) < JOB_NUM"
proof -
  have "(if jid > JOB_NUM then jid - JOB_NUM else jid) \<in> set (held s)" using assms(2) by (simp add: held_def)
  from place_invD(3) [OF assms(1) this] show "0 < (if jid > JOB_NUM then jid - JOB_NUM else jid)"
    "(if jid > JOB_NUM then jid - JOB_NUM else jid) < JOB_NUM" by blast+
qed

lemma inv_client_data:
  assumes "sys_inv bump v s" and "sc s = DataMsg jid b # ms"
    and "client_handle fi (DataMsg jid b) (cl s) = Some (Inr (k, c, out))"
  shows "sys_inv bump v (s\<lparr>cl := c, sc := ms, cs := cs s @ out, cl_reader := th'\<rparr>)"
proof -
  have pl: "place_inv s" and d: "data_inv bump v s" using assms(1) by (simp_all add: sys_inv_def)
  note jid = sc_job [OF pl assms(2)]
  show ?thesis
  proof (cases "jid < JOB_NUM")
    case True
    then have b: "b = final_block bump v" using data_invD(8) [OF d, of jid b] assms(2) by simp
    have j: "0 \<le> jid" "jid < 1024" using True jid by (simp_all add: JOB_NUM_def)
    have c: "c = (cl s)\<lparr>c_peer := (c_peer (cl s))\<lparr>job_array :=
          set_block (nat jid) b (job_array (c_peer (cl s)))\<rparr>,
        job_finished := s32 (job_finished (cl s) + 1), job_server_done := s32 (job_server_done (cl s) + 1)\<rparr>"
        and out: "out = []"
      using assms(3) True jid(1) b storeLocal_block [OF j data_invD(1) [OF d], of b] by (auto simp: Let_def)
    show ?thesis
      by (rule sys_inv_finish [OF assms(1), of jid]) (use assms(2) True in \<open>auto simp: c out b place_simps\<close>)
  next
    case False
    then have gt: "jid > JOB_NUM" using jid(2) by simp
    then obtain q where q: "qpush (jid - JOB_NUM) (job_todo (c_peer (cl s))) = Some q"
        and c: "c = (cl s)\<lparr>c_peer := (c_peer (cl s))\<lparr>job_todo := q\<rparr>\<rparr>" and out: "out = []"
      using assms(3) False by (auto simp: Let_def split: option.splits)
    have r: "real_jobs q = real_jobs (job_todo (c_peer (cl s))) @ [jid - JOB_NUM]"
      using q gt by (auto simp: qpush_def split: if_splits)
    show ?thesis
      by (rule sys_inv_move [OF assms(1)])
         (use assms(2) gt r data_invD [OF d] in \<open>auto simp: c out place_simps\<close>)
  qed
qed

text \<open>The balancer, on either side: the state message asks, and each pass of the loop moves one job.\<close>

lemma state_begin_asks:
  assumes "state_begin fi n th cpu p = Inr (k, p', out)"
  shows "set out \<subseteq> {RebalanceMsg}" and "job_todo p' = job_todo p" and "job_tosend p' = job_tosend p"
    and "job_array p' = job_array p" and "msgs_jobs out = []"
    and "DataMsg jid b \<notin> set out"
proof -
  show out: "set out \<subseteq> {RebalanceMsg}" and "job_todo p' = job_todo p" "job_tosend p' = job_tosend p"
    "job_array p' = job_array p"
    using assms by (auto simp: state_begin_def adaptor_begin_def Let_def bind_r_Inr_iff split: if_splits)
  show "msgs_jobs out = []" "DataMsg jid b \<notin> set out" using out by auto
qed

lemma inv_client_statemsg:
  assumes "sys_inv bump v s" and "sc s = StateMsg n th cpu # ms"
    and "client_handle fi (StateMsg n th cpu) (cl s) = Some (Inr (k, c, out))"
  shows "sys_inv bump v (s\<lparr>cl := c, sc := ms, cs := cs s @ out, cl_reader := th'\<rparr>)"
proof -
  have d: "data_inv bump v s" using assms(1) by (simp add: sys_inv_def)
  obtain p where p: "state_begin fi n th cpu (c_peer (cl s)) = Inr (k, p, out)" and c: "c = (cl s)\<lparr>c_peer := p\<rparr>"
    using assms(3) by (auto simp: bind_r_Inr_iff)
  show ?thesis
    by (rule sys_inv_move [OF assms(1)])
       (use assms(2) state_begin_asks [OF p] data_invD [OF d] in \<open>auto simp: c place_simps\<close>)
qed

lemma move_turn_take:
  assumes "move_turn p = Some (Inr (go, p', out))" and "movable (job_todo p)" and "length (job_array p) = ARRAY_SIZE"
  shows "\<exists>j q k. job_todo p = j # q \<and> p' = p\<lparr>job_todo := q, job_sent := k\<rparr>
     \<and> (j = - 1 \<and> \<not> go \<and> out = [] \<or> 0 < j \<and> j < JOB_NUM \<and> go \<and> out = [moved (job_array p) j])"
proof -
  obtain j q where q: "job_todo p = j # q" using assms(1) by (cases "job_todo p") (auto simp: move_turn_def)
  moreover have "j = - 1 \<or> 0 < j \<and> j < JOB_NUM" using assms(2) q by simp
  moreover have "p' = p\<lparr>job_todo := q, job_sent := (if j = - 1 then job_sent p else s32 (job_sent p + 1))\<rparr>"
    using assms(1) move_turn_cases [OF assms(2,3) q] by (auto split: if_splits)
  moreover have "if j = - 1 then \<not> go \<and> out = [] else go \<and> out = [moved (job_array p) j]"
    using assms(1) move_turn_cases [OF assms(2,3) q] by (auto split: if_splits)
  ultimately show ?thesis by (metis (full_types))
qed

lemma inv_client_move:
  assumes "sys_inv bump v s" and "move_turn (c_peer (cl s)) = Some (Inr (go, p, out))"
  shows "sys_inv bump v (s\<lparr>cl := (cl s)\<lparr>c_peer := p\<rparr>, cs := cs s @ out, cl_reader := th'\<rparr>)"
proof -
  have pl: "place_inv s" and d: "data_inv bump v s" using assms(1) by (simp_all add: sys_inv_def)
  obtain j q k where q: "job_todo (c_peer (cl s)) = j # q" "p = (c_peer (cl s))\<lparr>job_todo := q, job_sent := k\<rparr>"
      and out: "j = - 1 \<and> out = [] \<or> 0 < j \<and> out = [moved (job_array (c_peer (cl s))) j]"
    using move_turn_take [OF assms(2) held_movable(1) [OF pl] data_invD(1) [OF d]] by blast
  have "j \<noteq> - 1 \<Longrightarrow> block (nat j) (job_array (c_peer (cl s))) = start_block v"
    using client_block [OF assms(1), of j] q by (simp add: place_simps)
  then show ?thesis
    by (intro sys_inv_move [OF assms(1)])
       (use q out data_invD [OF d] in \<open>auto simp: place_simps moved_def\<close>)
qed

lemma inv_server_move:
  assumes "sys_inv bump v s" and "move_turn (sv s) = Some (Inr (go, p, out))"
  shows "sys_inv bump v (s\<lparr>sv := p, sc := sc s @ out, sv_reader := th'\<rparr>)"
proof -
  have pl: "place_inv s" and d: "data_inv bump v s" using assms(1) by (simp_all add: sys_inv_def)
  obtain j q k where q: "job_todo (sv s) = j # q" "p = (sv s)\<lparr>job_todo := q, job_sent := k\<rparr>"
      and out: "j = - 1 \<and> out = [] \<or> 0 < j \<and> out = [moved (job_array (sv s)) j]"
    using move_turn_take [OF assms(2) held_movable(2) [OF pl] data_invD(2) [OF d]] by blast
  show ?thesis
    by (rule sys_inv_move [OF assms(1)])
       (use q out data_invD [OF d] in \<open>auto simp: place_simps moved_def\<close>)
qed

lemma inv_client_read:
  assumes "sys_inv bump v s" and "sc s = m # ms" and "client_handle fi m (cl s) = Some (Inr (k, c, out))"
  shows "sys_inv bump v (s\<lparr>cl := c, sc := ms, cs := cs s @ out, cl_reader := th'\<rparr>)"
proof (cases m)
  case RebalanceMsg
  have d: "data_inv bump v s" using assms(1) by (simp add: sys_inv_def)
  show ?thesis
    by (rule sys_inv_move [OF assms(1)])
       (use assms(2,3) RebalanceMsg data_invD [OF d] in \<open>auto simp: place_simps\<close>)
qed (use assms inv_client_data inv_client_statemsg in auto)

text \<open>The server stores the block of a job it receives, and overwrites it with the computed one.\<close>

lemma sys_inv_server:
  assumes "sys_inv bump v s" and "mset (inflight t) = mset (inflight s)"
    and "set (held t) \<subseteq> set (held s)" and "cl t = cl s" and "0 \<le> j" and "j < JOB_NUM"
    and arr: "job_array (sv t) = set_block (nat j) b (job_array (sv s))" and b: "length b = 4096"
    and todo: "\<And>i. i \<in> set (real_jobs (job_todo (sv t)) @ cur_job (sv_worker t)) \<Longrightarrow>
          i = j \<and> b = start_block v \<or>
          i \<noteq> j \<and> i \<in> set (real_jobs (job_todo (sv s)) @ cur_job (sv_worker s))"
    and send: "\<And>i. i \<in> set (real_jobs (job_tosend (sv t))) \<Longrightarrow>
          i = j \<and> b = final_block bump v \<or> i \<noteq> j \<and> i \<in> set (real_jobs (job_tosend (sv s)))"
    and "set (cs t) \<subseteq> set (cs s)" and "sc t = sc s"
  shows "sys_inv bump v t"
proof -
  have pl: "place_inv s" and d: "data_inv bump v s" using assms(1) by (simp_all add: sys_inv_def)
  have "place_inv t" using place_inv_move [OF pl assms(2,3)] assms(4) by simp
  moreover have "data_inv bump v t"
  proof -
    have blk: "block (nat i) (job_array (sv t)) = (if i = j then b else block (nat i) (job_array (sv s)))"
      if "i \<in> set (held s)" for i
      using place_invD(3) [OF pl that] data_invD(2) [OF d] assms(5,6) b
      by (auto simp: arr block_set_block JOB_NUM_def)
    have "block (nat i) (job_array (sv t)) = start_block v"
      if "i \<in> set (real_jobs (job_todo (sv t)) @ cur_job (sv_worker t))" for i
    proof -
      have "i \<in> set (held s)" using that assms(3) by (auto simp: held_def)
      from blk [OF this] show ?thesis using todo [OF that] data_invD(4,5) [OF d]
        by auto
    qed
    moreover have "block (nat i) (job_array (sv t)) = final_block bump v"
      if "i \<in> set (real_jobs (job_tosend (sv t)))" for i
    proof -
      have "i \<in> set (held s)" using that assms(3) by (auto simp: held_def)
      from blk [OF this] show ?thesis using send [OF that] data_invD(6) [OF d] by auto
    qed
    moreover have "length (job_array (sv t)) = ARRAY_SIZE"
      using arr b assms(5,6) data_invD(2) [OF d] by (simp add: JOB_NUM_def)
    moreover have "set (inflight t) = set (inflight s)" using assms(2) by (metis set_mset_mset)
    ultimately show ?thesis using d assms(4,11,12) by (auto simp: data_inv_def)
  qed
  ultimately show ?thesis by (simp add: sys_inv_def)
qed

lemma inv_worker_finish:
  assumes "sys_inv bump v s" and "sv_worker s = Computing j" and "worker_finish bump j (sv s) = Some (Inr p)"
  shows "sys_inv bump v (s\<lparr>sv := p, sv_worker := Turn\<rparr>)"
proof -
  have pl: "place_inv s" and d: "data_inv bump v s" using assms(1) by (simp_all add: sys_inv_def)
  have "j \<in> set (held s)" using assms(2) by (simp add: held_def)
  from place_invD(3) [OF pl this] have j: "0 \<le> j" "j < 1024" by (simp_all add: JOB_NUM_def)
  obtain q where q: "qpush j (job_tosend (sv s)) = Some q"
      and p: "p = (sv s)\<lparr>job_array := set_block (nat j) (final_block bump v) (job_array (sv s)), job_tosend := q\<rparr>"
    using assms(3) compute_block [OF j data_invD(2) [OF d], of bump] data_invD(5) [OF d assms(2)]
    by (auto simp: worker_finish_def final_start split: option.splits)
  have r: "real_jobs q = real_jobs (job_tosend (sv s)) @ [j]"
    using q j by (auto simp: qpush_def split: if_splits)
  have "distinct (held s)" using pl by (simp add: place_inv_def inflight_def)
  then have fresh: "j \<notin> set (real_jobs (job_todo (sv s)))" "j \<notin> set (real_jobs (job_tosend (sv s)))"
    using assms(2) by (auto simp: held_def)
  show ?thesis
    by (rule sys_inv_server [OF assms(1), of _ j "final_block bump v"])
       (use assms(2) j r fresh in \<open>auto simp: p place_simps JOB_NUM_def\<close>)
qed

lemma inv_server_data:
  assumes "sys_inv bump v s" and "cs s = DataMsg jid b # ms"
    and "server_handle fi (DataMsg jid b) (sv s) = Some (Inr (k, p, out))"
  shows "sys_inv bump v (s\<lparr>sv := p, cs := ms, sc := sc s @ out, sv_reader := th'\<rparr>)"
proof -
  have pl: "place_inv s" and d: "data_inv bump v s" using assms(1) by (simp_all add: sys_inv_def)
  define j where "j = (if jid > JOB_NUM then jid - JOB_NUM else jid)"
  have j: "0 \<le> j" "j < 1024" using cs_job [OF pl assms(2)] by (simp_all add: j_def JOB_NUM_def)
  have b: "b = start_block v" using data_invD(7) [OF d, of jid b] assms(2) by simp
  obtain q where q: "qpush j (job_todo (sv s)) = Some q" and out: "out = []"
      and p: "p = (sv s)\<lparr>job_array := set_block (nat j) b (job_array (sv s)), job_todo := q\<rparr>"
    using assms(3) storeLocal_block [OF j data_invD(2) [OF d], of b] b
    by (auto simp: Let_def j_def [symmetric] split: option.splits)
  have r: "real_jobs q = real_jobs (job_todo (sv s)) @ [j]"
    using q j by (auto simp: qpush_def split: if_splits)
  have mj: "msg_job (DataMsg jid b) = [j]" by (simp add: j_def)
  have "distinct (held s)" using pl by (simp add: place_inv_def inflight_def)
  then have fresh: "j \<notin> set (real_jobs (job_todo (sv s)))" "j \<notin> set (real_jobs (job_tosend (sv s)))"
      "j \<notin> set (cur_job (sv_worker s))"
    using assms(2) mj by (auto simp: held_def simp del: msg_job.simps)
  show ?thesis
    by (rule sys_inv_server [OF assms(1), of _ j b])
       (use assms(2) j b r fresh mj in \<open>auto simp: p out place_simps JOB_NUM_def simp del: msg_job.simps\<close>)
qed

lemma inv_server_statemsg:
  assumes "sys_inv bump v s" and "cs s = StateMsg n th cpu # ms"
    and "server_handle fi (StateMsg n th cpu) (sv s) = Some (Inr (k, p, out))"
  shows "sys_inv bump v (s\<lparr>sv := p, cs := ms, sc := sc s @ out, sv_reader := th'\<rparr>)"
proof -
  have d: "data_inv bump v s" using assms(1) by (simp add: sys_inv_def)
  have p: "state_begin fi n th cpu (sv s) = Inr (k, p, out)" using assms(3) by simp
  show ?thesis
    by (rule sys_inv_move [OF assms(1)])
       (use assms(2) state_begin_asks [OF p] data_invD [OF d] in \<open>auto simp: place_simps\<close>)
qed

lemma inv_server_read:
  assumes "sys_inv bump v s" and "cs s = m # ms" and "server_handle fi m (sv s) = Some (Inr (k, p, out))"
  shows "sys_inv bump v (s\<lparr>sv := p, cs := ms, sc := sc s @ out, sv_reader := th'\<rparr>)"
proof (cases m)
  case RebalanceMsg
  have d: "data_inv bump v s" using assms(1) by (simp add: sys_inv_def)
  show ?thesis
    by (rule sys_inv_move [OF assms(1)])
       (use assms(2,3) RebalanceMsg data_invD [OF d] in \<open>auto simp: place_simps\<close>)
next
  case EndMsg
  have d: "data_inv bump v s" using assms(1) by (simp add: sys_inv_def)
  have p: "p = (sv s)\<lparr>job_tosend := job_tosend (sv s) @ [- 1]\<rparr>" "out = []"
    using assms(3) EndMsg by (auto simp: qpush_def split: option.splits if_splits)
  show ?thesis
    by (rule sys_inv_move [OF assms(1)])
       (use assms(2) EndMsg data_invD [OF d] in \<open>auto simp: p place_simps\<close>)
qed (use assms inv_server_data inv_server_statemsg in auto)

text \<open>Fewer bytes than a block hold no message with a job.\<close>

lemma short_no_jobs: "sum_list (map wire_size ms) < 8 * nat JOB_SIZE \<Longrightarrow> msgs_jobs ms = []"
proof (induction ms)
  case (Cons m ms)
  then show ?case by (cases m) auto
qed simp

lemma inv_client_end:
  assumes "sys_inv bump v s" and "sc s = EndMsg # ms" and "sum_list (map wire_size ms) < 8 * nat JOB_SIZE"
  shows "sys_inv bump v (s\<lparr>sc := [], cl_reader := th'\<rparr>)"
proof -
  have d: "data_inv bump v s" using assms(1) by (simp add: sys_inv_def)
  show ?thesis
    by (rule sys_inv_move [OF assms(1)])
       (use assms(2) short_no_jobs [OF assms(3)] data_invD [OF d] in \<open>auto simp: place_simps\<close>)
qed

section \<open>Reachable states\<close>

lemma sys_inv_turn: "sys_inv bump v s \<Longrightarrow> sys_turn bump fi s t \<Longrightarrow> sys_inv bump v t"
  by (erule sys_turn.cases; hypsubst)
     (blast intro: inv_main_check inv_main_take inv_main_finish inv_frame [THEN iffD2] inv_client_end inv_client_write
        inv_client_read inv_client_move inv_reader_check inv_server_read inv_server_move inv_worker_take inv_worker_finish inv_server_write)+

lemma sys_inv_step: "sys_inv bump v s \<Longrightarrow> sys_step bump fi s t \<Longrightarrow> sys_inv bump v t"
  by (erule sys_step.cases)
     (auto intro: sys_inv_turn inv_states simp: client_state_manager_def server_state_manager_def)

lemma block_start: "j < 1024 \<Longrightarrow> block j (replicate ARRAY_SIZE v) = start_block v"
  by (simp add: block_def start_block_def ARRAY_SIZE_def)

lemma real_jobs_int [simp]: "real_jobs (map int xs) = map int xs"
  by (simp add: real_jobs_def filter_id_conv)

lemma inflight_start: "inflight (sys_start v) = map int [0..<1024]"
proof -
  have "[0..<1024] = 0 # [1..<512] @ [512..<1024]"
    using upt_add_eq_append [of 1 512 512] upt_conv_Cons [of 0 1024] by simp
  then show ?thesis by (simp add: place_simps sys_start_def peer_start_def peer_globals_def Let_def)
qed

lemma sys_inv_start: "sys_inv bump v (sys_start v)"
proof -
  have "0 \<notin> set (held (sys_start v))"
    by (auto simp: held_def sys_start_def peer_start_def peer_globals_def Let_def)
  then have "place_inv (sys_start v)"
    by (auto simp: place_inv_def inflight_start JOB_NUM_def distinct_map)
       (simp add: sys_start_def Let_def)
  moreover have "data_inv bump v (sys_start v)"
  proof -
    have "int j \<in> set (inflight (sys_start v))" if "j < 1024" for j
      using that by (simp add: inflight_start)
    then show ?thesis
      by (auto simp: data_inv_def block_start) (auto simp: sys_start_def peer_start_def peer_globals_def Let_def block_start)
  qed
  ultimately show ?thesis by (simp add: sys_inv_def)
qed

interpretation mp4_sys: transition_system "\<lambda>s. s = sys_start v" "sys_step bump fi" "sys_inv bump v" for bump fi v
  by unfold_locales (auto intro: sys_inv_start sys_inv_step)

text \<open>No turn of a thread faults in a state that satisfies the invariant.\<close>

lemma state_begin_no_fault [simp]: "state_begin fi n th cpu p \<noteq> Inl e"
proof -
  have "c_div d 2 \<noteq> Inl e" for d by (simp add: c_div_def)
  then show ?thesis by (auto simp: state_begin_def adaptor_begin_def Let_def bind_r_Inl_iff)
qed

lemma state_begin_stores:
  assumes "\<not> (peer_num_jobs p = - 1 \<and> n = 0)"
  shows "\<exists>k out. state_begin fi n th cpu p =
    Inr (k, p\<lparr>peer_num_jobs := n, peer_throttle_value := fi (sint th), peer_cpu_usage := cpu\<rparr>, out)"
proof (cases "state_begin fi n th cpu p")
  case (Inr r)
  then show ?thesis using assms
    by (cases r) (auto simp: state_begin_def Let_def bind_r_Inr_iff)
qed simp

lemma move_turn_no_fault:
  assumes "movable (job_todo p)" and "length (job_array p) = ARRAY_SIZE"
  shows "move_turn p \<noteq> Some (Inl e)"
  using move_turn_cases [OF assms] by (cases "job_todo p") (auto simp: move_turn_def split: if_splits)

lemma writer_no_fault:
  assumes "movable (job_tosend p)" and "length (job_array p) = ARRAY_SIZE"
  shows "writer_turn p \<noteq> Some (Inl e)"
proof (cases "job_tosend p")
  case (Cons j q)
  then show ?thesis using assms transfer_msg_job(1) [of j "job_array p"]
    by (cases "j = - 1") (auto simp: writer_turn_def transfer_msg_def [of "- 1"])
qed (simp add: writer_turn_def)

lemma client_no_fault:
  assumes "sys_inv bump v s" and "sc s = m # ms"
  shows "client_handle fi m (cl s) \<noteq> Some (Inl e)"
proof (cases m)
  case (DataMsg jid b)
  have pl: "place_inv s" and d: "data_inv bump v s" using assms(1) by (simp_all add: sys_inv_def)
  have "storeLocal jid b (job_array (c_peer (cl s))) =
      Inr (set_block (nat jid) b (job_array (c_peer (cl s))))" if "jid < JOB_NUM"
    using that sc_job(1) [OF pl] assms(2) DataMsg data_invD(1) [OF d] data_invD(8) [OF d, of jid b]
    by (intro storeLocal_block) (auto simp: JOB_NUM_def)
  then show ?thesis using DataMsg by (auto simp: Let_def split: option.splits)
qed (auto simp: bind_r_Inl_iff)

lemma server_no_fault:
  assumes "sys_inv bump v s" and "cs s = m # ms"
  shows "server_handle fi m (sv s) \<noteq> Some (Inl e)"
proof (cases m)
  case (DataMsg jid b)
  have pl: "place_inv s" and d: "data_inv bump v s" using assms(1) by (simp_all add: sys_inv_def)
  let ?j = "if jid > JOB_NUM then jid - JOB_NUM else jid"
  have "cs s = DataMsg jid b # ms" using assms(2) DataMsg by simp
  from cs_job [OF pl this] have "0 \<le> ?j" "?j < 1024" by (simp_all add: JOB_NUM_def)
  moreover have "length b = 4096" using data_invD(7) [OF d, of jid b] assms(2) DataMsg by simp
  ultimately have "storeLocal ?j b (job_array (sv s)) = Inr (set_block (nat ?j) b (job_array (sv s)))"
    using data_invD(2) [OF d] by (intro storeLocal_block)
  then show ?thesis using DataMsg by (simp add: Let_def split: option.splits)
qed (simp_all split: option.splits)

lemma compute_no_fault:
  assumes "sys_inv bump v s"
  shows "cl_main s = Computing j \<Longrightarrow> \<exists>c. main_finish bump j (cl s) = Inr c"
    and "sv_worker s = Computing i \<Longrightarrow> worker_finish bump i (sv s) \<noteq> Some (Inl e)"
proof -
  have pl: "place_inv s" and d: "data_inv bump v s" using assms(1) by (simp_all add: sys_inv_def)
  show "\<exists>c. main_finish bump j (cl s) = Inr c" if "cl_main s = Computing j"
  proof -
    have "0 \<le> j" "j < 1024" using pl that by (auto simp: place_inv_def place_simps JOB_NUM_def)
    from compute_block [OF this data_invD(1) [OF d]] show ?thesis by (simp add: main_finish_def)
  qed
  show "worker_finish bump i (sv s) \<noteq> Some (Inl e)" if "sv_worker s = Computing i"
  proof -
    have "i \<in> set (held s)" using that by (simp add: held_def)
    from place_invD(3) [OF pl this] have "0 \<le> i" "i < 1024" by (simp_all add: JOB_NUM_def)
    from compute_block [OF this data_invD(2) [OF d]] show ?thesis
      by (simp add: worker_finish_def split: option.splits)
  qed
qed

section \<open>The balancer without interference\<close>

lemma state_handle_split:
  "state_handle fi n th cpu p =
     (case state_begin fi n th cpu p of Inl e \<Rightarrow> Some (Inl e) | Inr (k, p', ask) \<Rightarrow> move_loop k p' ask)"
  by (auto simp: state_handle_def state_begin_def adaptor_def Let_def bind_r_def split: sum.splits)

lemma reader_runs_move_loop:
  assumes "cl_reader s = moving Check n" and "move_loop n (c_peer (cl s)) sent = Some (Inr (p', sent'))"
  shows "\<exists>out. sent' = sent @ out \<and> (sys_turn bump fi)\<^sup>*\<^sup>* s
    (s\<lparr>cl := (cl s)\<lparr>c_peer := p'\<rparr>, cs := cs s @ out, cl_reader := Check\<rparr>)"
  using assms
proof (induction n arbitrary: s sent)
  case 0
  then have "s\<lparr>cl := (cl s)\<lparr>c_peer := p'\<rparr>, cs := cs s @ [], cl_reader := Check\<rparr> = s" "sent' = sent @ []"
    by (simp_all add: moving_def)
  then show ?case by (metis rtranclp.rtrancl_refl)
next
  case (Suc n)
  obtain go q out where mt: "move_turn (c_peer (cl s)) = Some (Inr (go, q, out))"
      and rest: "if go then move_loop n q (sent @ out) = Some (Inr (p', sent'))
        else p' = q \<and> sent' = sent @ out"
    using Suc.prems(2) by (auto split: option.splits sum.splits if_splits)
  let ?u = "s\<lparr>cl := (cl s)\<lparr>c_peer := q\<rparr>, cs := cs s @ out, cl_reader := (if go then moving Check n else Check)\<rparr>"
  have step: "sys_turn bump fi s ?u"
    using Suc.prems(1) mt by (intro sys_client_move) (simp_all add: moving_def)
  show ?case
  proof (cases go)
    case True
    then obtain out' where "sent' = (sent @ out) @ out'"
        "(sys_turn bump fi)\<^sup>*\<^sup>* ?u (?u\<lparr>cl := (cl ?u)\<lparr>c_peer := p'\<rparr>, cs := cs ?u @ out', cl_reader := Check\<rparr>)"
      using Suc.IH [of ?u "sent @ out"] rest by auto
    then show ?thesis using True step by (intro exI [of _ "out @ out'"]) (simp add: converse_rtranclp_into_rtranclp)
  next
    case False
    then show ?thesis using rest step by (intro exI [of _ out]) auto
  qed
qed

end
