(* ===== verification/MP4_Progress.thy ===== *)
theory MP4_Progress
  imports MP4_System
begin

text \<open>
  Progress of client and server. While jobs are unfinished no thread has ended and no end mark is
  on its way (\<open>sys_live\<close>); every turn then lowers a rank, and a turn can be taken unless a reader waits
  inside the balancer for a queue that other threads have emptied meanwhile. So between two state
  messages there are finitely many turns, and they lead to the last job or to such a wait.
\<close>

section \<open>While jobs are unfinished\<close>

definition balancer_waits :: "system \<Rightarrow> bool" where
  "balancer_waits s \<longleftrightarrow>
     (case cl_reader s of Moving k \<Rightarrow> job_todo (c_peer (cl s)) = [] | _ \<Rightarrow> False)
     \<or> (case sv_reader s of Moving k \<Rightarrow> job_todo (sv s) = [] | _ \<Rightarrow> False)"

fun state_ok :: "msg \<Rightarrow> bool" where
  "state_ok (StateMsg n th cpu) = (0 \<le> n \<and> n \<le> 1024)"
| "state_ok EndMsg = False"
| "state_ok _ = True"

fun looping :: "thread \<Rightarrow> bool" where
  "looping Ended = False"
| "looping (Moving k) = (k \<noteq> 0)"
| "looping (Computing j) = False"
| "looping _ = True"

definition sys_live :: "system \<Rightarrow> bool" where
  "sys_live s \<longleftrightarrow> \<not> session_end s \<and> sv_writer s = Turn
     \<and> - 1 \<notin> set (job_todo (c_peer (cl s))) \<and> - 1 \<notin> set (job_tosend (c_peer (cl s)))
     \<and> - 1 \<notin> set (job_todo (sv s)) \<and> - 1 \<notin> set (job_tosend (sv s))
     \<and> (\<forall>m \<in> set (cs s). state_ok m) \<and> (\<forall>m \<in> set (sc s). state_ok m)
     \<and> cl_main s \<noteq> Ended \<and> (\<forall>k. cl_main s \<noteq> Moving k) \<and> cl_writer s \<in> {Check, Turn}
     \<and> looping (cl_reader s) \<and> looping (sv_reader s) \<and> sv_reader s \<noteq> Check
     \<and> sv_worker s \<notin> {Check, Ended} \<and> (\<forall>k. sv_worker s \<noteq> Moving k)"

definition sys_live_inv :: "(u64 \<Rightarrow> u64) \<Rightarrow> u64 \<Rightarrow> system \<Rightarrow> bool" where
  "sys_live_inv bump v s \<longleftrightarrow> sys_inv bump v s \<and> (job_finished (cl s) < JOB_NUM \<longrightarrow> sys_live s)"

section \<open>The rank\<close>

text \<open>
  A job goes down in rank on its way to the server and back; a state message is worth more than
  all the jobs it can make the balancer move.
\<close>

fun cs_rank :: "msg \<Rightarrow> nat" where
  "cs_rank (StateMsg n th cpu) = 20000"
| "cs_rank (DataMsg jid b) = 15"
| "cs_rank _ = 3"

fun sc_rank :: "msg \<Rightarrow> nat" where
  "sc_rank (StateMsg n th cpu) = 20000"
| "sc_rank (DataMsg jid b) = (if jid < JOB_NUM then 3 else 9)"
| "sc_rank _ = 3"

fun thread_rank :: "nat \<Rightarrow> thread \<Rightarrow> nat" where
  "thread_rank w Check = 1"
| "thread_rank w (Computing j) = w"
| "thread_rank w (Moving k) = 12 * k"
| "thread_rank w _ = 0"

definition sys_rank :: "system \<Rightarrow> nat" where
  "sys_rank s = 6 * length (job_todo (c_peer (cl s))) + 18 * length (job_tosend (c_peer (cl s)))
     + 12 * length (job_todo (sv s)) + 6 * length (job_tosend (sv s))
     + sum_list (map cs_rank (cs s)) + sum_list (map sc_rank (sc s))
     + thread_rank 3 (cl_main s) + thread_rank 0 (cl_writer s) + thread_rank 0 (cl_reader s)
     + thread_rank 0 (sv_reader s) + thread_rank 9 (sv_worker s)"

lemma moving_simps [simp]:
  "looping (moving rest k) = (k \<noteq> 0 \<or> looping rest)" "moving Turn k \<noteq> Check"
  "thread_rank w (moving rest k) \<le> thread_rank w rest + 12 * k"
  by (auto simp: moving_def)

lemma real_jobs_id: "- 1 \<notin> set q \<Longrightarrow> real_jobs q = q"
  by (auto simp: real_jobs_def filter_id_conv)

text \<open>How many jobs a state message can make the balancer move, and what it sends at once.\<close>

lemma state_begin_bounds:
  assumes "state_begin fi n th cpu p = Inr (k, p', out)" and "0 \<le> n" and "n \<le> 1024" and "length (job_todo p) \<le> 1024"
  shows "k \<le> 512" and "out = [] \<or> out = [RebalanceMsg]"
proof -
  have d: "s32 (int (length (job_todo p)) - n) = int (length (job_todo p)) - n"
    using assms(2-4) by (intro s32_id) (simp add: c_int_def)
  have "nat q \<le> 512" if "c_div (int (length (job_todo p)) - n) 2 = Inr q" "DIFF_THRESHOLD < int (length (job_todo p)) - n" for q
    using that c_div_pos [of "int (length (job_todo p)) - n" 2] assms(2,4) by (simp add: DIFF_THRESHOLD_def)
  then show "k \<le> 512"
    using assms(1) by (auto simp: state_begin_def adaptor_begin_def Let_def bind_r_Inr_iff d split: if_splits)
  show "out = [] \<or> out = [RebalanceMsg]"
    using assms(1) by (auto simp: state_begin_def adaptor_begin_def Let_def bind_r_Inr_iff split: if_splits)
qed

text \<open>The queues never overflow: every entry is one of the 1024 jobs.\<close>

lemma sys_live_lengths:
  assumes "sys_inv bump v s" and "sys_live s"
  shows "length (job_todo (c_peer (cl s))) + length (job_tosend (c_peer (cl s))) + length (msgs_jobs (cs s))
    + length (job_todo (sv s)) + length (cur_job (sv_worker s)) + length (job_tosend (sv s)) + length (msgs_jobs (sc s)) \<le> 1024"
proof -
  have "0 \<le> job_finished (cl s)" "int (length (inflight s)) + job_finished (cl s) = 1024"
    using assms(1) place_invD(1) by (auto simp: sys_inv_def place_inv_def JOB_NUM_def)
  then show ?thesis using assms(2) by (auto simp: place_simps sys_live_def real_jobs_id)
qed
section \<open>Every turn lowers the rank\<close>

definition lower :: "system \<Rightarrow> system \<Rightarrow> bool" where
  "lower s t \<longleftrightarrow> sys_live t \<and> sys_rank t < sys_rank s"

lemma lower_main_check:
  assumes "sys_live s" and "job_finished (cl s) < JOB_NUM" and "cl_main s = Check" and "main_check (cl s) = Some (th, c)"
  shows "lower s (s\<lparr>cl := c, cl_main := th\<rparr>)"
  using assms by (auto simp: lower_def sys_live_def sys_rank_def main_check_def)

lemma lower_main_take:
  assumes "sys_live s" and "cl_main s = Turn" and "main_take (cl s) = Some (th, c)"
  shows "lower s (s\<lparr>cl := c, cl_main := th\<rparr>)"
proof -
  obtain j q where "job_todo (c_peer (cl s)) = j # q" "th = (if j = - 1 then Check else Computing j)"
      "c = (cl s)\<lparr>c_peer := (c_peer (cl s))\<lparr>job_todo := q\<rparr>\<rparr>"
    using assms(3) by (cases "job_todo (c_peer (cl s))") (auto simp: main_take_def worker_take_def)
  then show ?thesis using assms(1,2) by (auto simp: lower_def sys_live_def sys_rank_def)
qed

lemma lower_main_finish:
  assumes "sys_live s" and "cl_main s = Computing j" and "main_finish bump j (cl s) = Inr c"
  shows "lower s (s\<lparr>cl := c, cl_main := Check\<rparr>)"
  using assms by (auto simp: lower_def sys_live_def sys_rank_def main_finish_def bind_r_Inr_iff)

lemma lower_writer_check:
  assumes "sys_live s" and "job_finished (cl s) < JOB_NUM" and "cl_writer s = Check"
  shows "lower s (s\<lparr>cl_writer := writer_check (cl s)\<rparr>)"
  using assms by (auto simp: lower_def sys_live_def sys_rank_def writer_check_def)

lemma lower_client_write:
  assumes "sys_inv bump v s" and "sys_live s" and "cl_writer s = Turn" and "writer_turn (c_peer (cl s)) = Some (Inr (p, m))"
  shows "lower s (s\<lparr>cl := (cl s)\<lparr>c_peer := p\<rparr>, cs := cs s @ [m], cl_writer := Check\<rparr>)"
proof -
  have "movable (job_tosend (c_peer (cl s)))" "length (job_array (c_peer (cl s))) = ARRAY_SIZE"
    using assms(1) held_movable(3) data_invD(1) by (auto simp: sys_inv_def)
  from writer_turn_cases [OF assms(4) this] show ?thesis using assms(2,3)
    by (auto simp: lower_def sys_live_def sys_rank_def)
qed

lemma lower_reader_check:
  assumes "sys_live s" and "job_finished (cl s) < JOB_NUM" and "cl_reader s = Check" and "reader_check (cl s) = Some (th, c)"
  shows "lower s (s\<lparr>cl := c, cl_reader := th\<rparr>)"
  using assms by (auto simp: lower_def sys_live_def sys_rank_def reader_check_def)

lemma lower_client_read:
  assumes "sys_inv bump v s" and "sys_live s" and "cl_reader s = Turn" and "sc s = m # ms"
    and "client_handle fi m (cl s) = Some (Inr (k, c, out))"
  shows "lower s (s\<lparr>cl := c, sc := ms, cs := cs s @ out, cl_reader := moving Check k\<rparr>)"
proof (cases m)
  case (StateMsg n th cpu)
  obtain p where p: "state_begin fi n th cpu (c_peer (cl s)) = Inr (k, p, out)" and c: "c = (cl s)\<lparr>c_peer := p\<rparr>"
    using assms(5) StateMsg by (auto simp: bind_r_Inr_iff)
  have "0 \<le> n" "n \<le> 1024" using assms(2,4) StateMsg by (auto simp: sys_live_def)
  moreover have "length (job_todo (c_peer (cl s))) \<le> 1024" using sys_live_lengths [OF assms(1,2)] by simp
  ultimately have k: "k \<le> 512" and out: "out = [] \<or> out = [RebalanceMsg]"
    using state_begin_bounds [OF p] by blast+
  have "thread_rank 0 (moving Check k) \<le> 1 + 12 * 512" using moving_simps(3) [of 0 Check k] k by simp
  then have "sys_rank (s\<lparr>cl := c, sc := ms, cs := cs s @ out, cl_reader := moving Check k\<rparr>) < sys_rank s"
    using assms(3,4) StateMsg out state_begin_asks(2,3) [OF p] by (auto simp: sys_rank_def c)
  moreover have "sys_live (s\<lparr>cl := c, sc := ms, cs := cs s @ out, cl_reader := moving Check k\<rparr>)"
    using assms(2,4) out state_begin_asks(2,3) [OF p] by (auto simp: sys_live_def c)
  ultimately show ?thesis by (simp add: lower_def)
next
  case (DataMsg jid b)
  have "place_inv s" using assms(1) by (simp add: sys_inv_def)
  with DataMsg assms(4) have "0 < jid" "jid \<noteq> JOB_NUM" using sc_job(1,2) by blast+
  then show ?thesis using assms(2-5) DataMsg
    by (auto simp: lower_def sys_live_def sys_rank_def Let_def qpush_def moving_def split: if_splits sum.splits option.splits)
qed (use assms in \<open>auto simp: lower_def sys_live_def sys_rank_def moving_def\<close>)

lemma lower_client_move:
  assumes "sys_inv bump v s" and "sys_live s" and "cl_reader s = Moving (Suc k)"
    and "move_turn (c_peer (cl s)) = Some (Inr (go, p, out))"
  shows "lower s (s\<lparr>cl := (cl s)\<lparr>c_peer := p\<rparr>, cs := cs s @ out, cl_reader := (if go then moving Check k else Check)\<rparr>)"
proof -
  have "movable (job_todo (c_peer (cl s)))" "length (job_array (c_peer (cl s))) = ARRAY_SIZE"
    using assms(1) held_movable(1) data_invD(1) by (auto simp: sys_inv_def)
  from move_turn_take [OF assms(4) this] show ?thesis using assms(2,3) moving_simps(3) [of 0 Check k]
    by (auto simp: lower_def sys_live_def sys_rank_def moved_def)
qed

lemma lower_server_read:
  assumes "sys_inv bump v s" and "sys_live s" and "sv_reader s = Turn" and "cs s = m # ms"
    and "server_handle fi m (sv s) = Some (Inr (k, p, out))"
  shows "lower s (s\<lparr>sv := p, cs := ms, sc := sc s @ out, sv_reader := moving Turn k\<rparr>)"
proof (cases m)
  case (StateMsg n th cpu)
  have p: "state_begin fi n th cpu (sv s) = Inr (k, p, out)" using assms(5) StateMsg by simp
  have "0 \<le> n" "n \<le> 1024" using assms(2,4) StateMsg by (auto simp: sys_live_def)
  moreover have "length (job_todo (sv s)) \<le> 1024" using sys_live_lengths [OF assms(1,2)] by simp
  ultimately have k: "k \<le> 512" and out: "out = [] \<or> out = [RebalanceMsg]"
    using state_begin_bounds [OF p] by blast+
  have "thread_rank 0 (moving Turn k) \<le> 12 * 512" using moving_simps(3) [of 0 Turn k] k by simp
  then have "sys_rank (s\<lparr>sv := p, cs := ms, sc := sc s @ out, sv_reader := moving Turn k\<rparr>) < sys_rank s"
    using assms(3,4) StateMsg out state_begin_asks(2,3) [OF p] by (auto simp: sys_rank_def)
  moreover have "sys_live (s\<lparr>sv := p, cs := ms, sc := sc s @ out, sv_reader := moving Turn k\<rparr>)"
    using assms(2,4) out state_begin_asks(2,3) [OF p] by (auto simp: sys_live_def)
  ultimately show ?thesis by (simp add: lower_def)
next
  case (DataMsg jid b)
  have "place_inv s" using assms(1) by (simp add: sys_inv_def)
  with DataMsg assms(4) have "0 < (if jid > JOB_NUM then jid - JOB_NUM else jid)" using cs_job(1) by blast
  then show ?thesis using assms(2-5) DataMsg
    by (auto simp: lower_def sys_live_def sys_rank_def Let_def qpush_def moving_def split: if_splits sum.splits option.splits)
qed (use assms in \<open>auto simp: lower_def sys_live_def sys_rank_def moving_def\<close>)

lemma lower_server_move:
  assumes "sys_inv bump v s" and "sys_live s" and "sv_reader s = Moving (Suc k)"
    and "move_turn (sv s) = Some (Inr (go, p, out))"
  shows "lower s (s\<lparr>sv := p, sc := sc s @ out, sv_reader := (if go then moving Turn k else Turn)\<rparr>)"
proof -
  have "movable (job_todo (sv s))" "length (job_array (sv s)) = ARRAY_SIZE"
    using assms(1) held_movable(2) data_invD(2) by (auto simp: sys_inv_def)
  from move_turn_take [OF assms(4) this] show ?thesis using assms(2,3) moving_simps(3) [of 0 Turn k]
    by (auto simp: lower_def sys_live_def sys_rank_def moved_def)
qed

lemma lower_worker_take:
  assumes "sys_inv bump v s" and "sys_live s" and "sv_worker s = Turn" and "worker_take (sv s) = Some (j, p)"
  shows "lower s (s\<lparr>sv := p, sv_worker := (if j > - 1 then Computing j else Ended)\<rparr>)"
proof -
  obtain q where q: "job_todo (sv s) = j # q" "p = (sv s)\<lparr>job_todo := q\<rparr>"
    using assms(4) by (cases "job_todo (sv s)") (auto simp: worker_take_def)
  have "movable (job_todo (sv s))" using assms(1) held_movable(2) by (auto simp: sys_inv_def)
  then have "0 < j" using q assms(2) by (auto simp: sys_live_def)
  then show ?thesis using assms(2,3) q by (auto simp: lower_def sys_live_def sys_rank_def)
qed

lemma lower_worker_finish:
  assumes "sys_inv bump v s" and "sys_live s" and "sv_worker s = Computing j" and "worker_finish bump j (sv s) = Some (Inr p)"
  shows "lower s (s\<lparr>sv := p, sv_worker := Turn\<rparr>)"
proof -
  have "j \<in> set (held s)" using assms(3) by (simp add: held_def)
  then have "0 < j" using place_invD(3) [of s j] assms(1) by (simp add: sys_inv_def)
  then show ?thesis using assms(2-4)
    by (auto simp: lower_def sys_live_def sys_rank_def worker_finish_def qpush_def split: sum.splits option.splits if_splits)
qed

lemma lower_server_write:
  assumes "sys_inv bump v s" and "sys_live s" and "writer_turn (sv s) = Some (Inr (p, m))"
  shows "lower s (s\<lparr>sv := p, sc := sc s @ [m], sv_writer := (if m = EndMsg then Ended else Turn)\<rparr>)"
proof -
  have "movable (job_tosend (sv s))" "length (job_array (sv s)) = ARRAY_SIZE"
    using assms(1) held_movable(4) data_invD(2) by (auto simp: sys_inv_def)
  from writer_turn_cases [OF assms(3) this] show ?thesis using assms(2)
    by (auto simp: lower_def sys_live_def sys_rank_def)
qed

lemma lower_ending:
  "sys_live s \<Longrightarrow> sv_writer s = Ended \<Longrightarrow> lower s t" "sys_live s \<Longrightarrow> session_end s \<Longrightarrow> lower s t"
  by (simp_all add: sys_live_def)

lemma turn_lowers:
  "sys_turn bump fi s t \<Longrightarrow> sys_inv bump v s \<Longrightarrow> sys_live s \<Longrightarrow> job_finished (cl s) < JOB_NUM \<Longrightarrow> lower s t"
  by (erule sys_turn.cases; hypsubst)
     (blast intro: lower_main_check lower_main_take lower_main_finish lower_writer_check lower_client_write
        lower_reader_check lower_client_read lower_client_move lower_server_read lower_server_move
        lower_worker_take lower_worker_finish lower_server_write lower_ending)+

section \<open>The invariant\<close>

lemma s32_finished:
  assumes "sys_inv bump v s"
  shows "s32 (job_finished (cl s) + 1) = job_finished (cl s) + 1"
  using assms place_invD(1,2) [of s] by (intro s32_id) (auto simp: sys_inv_def c_int_def JOB_NUM_def)

lemma finished_handle:
  assumes "sys_inv bump v s" and "client_handle fi m (cl s) = Some (Inr (k, c, out))"
  shows "job_finished (cl s) \<le> job_finished c"
  using assms(2) s32_finished [OF assms(1)]
  by (cases m) (auto simp: Let_def bind_r_Inr_iff split: if_splits sum.splits option.splits)

lemma finished_turn:
  assumes "sys_turn bump fi s t" and "sys_inv bump v s"
  shows "job_finished (cl s) \<le> job_finished (cl t)"
  using assms(1)
  by cases (use s32_finished [OF assms(2)] finished_handle [OF assms(2)] in
      \<open>auto simp: main_check_def main_take_def main_finish_def reader_check_def bind_r_Inr_iff
         split: if_splits option.splits\<close>)

lemma sys_live_state:
  assumes "sys_inv bump v s" and "sys_live s"
  shows "sys_live (s\<lparr>cs := cs s @ [client_state_manager (c_peer (cl s)) thr cpu]\<rparr>)"
    and "sys_live (s\<lparr>sc := sc s @ [server_state_manager (sv s) thr cpu]\<rparr>)"
  using assms(2) sys_live_lengths [OF assms]
  by (auto simp: sys_live_def client_state_manager_def server_state_manager_def)

lemma sys_live_inv_step:
  assumes "sys_live_inv bump v s" and "sys_step bump fi s t"
  shows "sys_live_inv bump v t"
proof -
  have inv: "sys_inv bump v s" using assms(1) by (simp add: sys_live_inv_def)
  have "sys_live t" if "job_finished (cl t) < JOB_NUM"
    using assms(2)
  proof cases
    case sys_turn
    then have fin: "job_finished (cl s) < JOB_NUM" using finished_turn [OF sys_turn inv] that by simp
    then have "sys_live s" using assms(1) by (simp add: sys_live_inv_def)
    from turn_lowers [OF sys_turn inv this fin] show ?thesis by (simp add: lower_def)
  qed (use assms(1) inv that sys_live_state in \<open>auto simp: sys_live_inv_def\<close>)
  then show ?thesis using sys_inv_step [OF inv assms(2)] by (simp add: sys_live_inv_def)
qed

lemma sys_live_start: "sys_live_inv bump v (sys_start v)"
  using sys_inv_start [of bump v] by (auto simp: sys_live_inv_def sys_live_def sys_start_def peer_start_def peer_globals_def Let_def)

section \<open>A turn can be taken\<close>

lemma qpush_room: "length q < 1024 \<Longrightarrow> qpush x q = Some (q @ [x])"
  by (simp add: qpush_def JOB_NUM_def)

lemma client_handle_enabled:
  assumes "sys_inv bump v s" and "sys_live s" and "sc s = m # ms"
  shows "\<exists>k c out. client_handle fi m (cl s) = Some (Inr (k, c, out))"
proof -
  have "client_handle fi m (cl s) \<noteq> None"
  proof (cases m)
    case (DataMsg jid b)
    have "length (job_todo (c_peer (cl s))) < 1024"
      using sys_live_lengths [OF assms(1,2)] assms(3) DataMsg by auto
    then show ?thesis using DataMsg by (auto simp: Let_def qpush_room split: sum.splits)
  qed (use assms(2,3) in \<open>auto simp: sys_live_def\<close>)
  then show ?thesis using client_no_fault [OF assms(1,3), of fi]
    by (cases "client_handle fi m (cl s)") (auto, metis (no_types) obj_sumE prod_cases3)
qed

lemma server_handle_enabled:
  assumes "sys_inv bump v s" and "sys_live s" and "cs s = m # ms"
  shows "\<exists>k p out. server_handle fi m (sv s) = Some (Inr (k, p, out))"
proof -
  have "server_handle fi m (sv s) \<noteq> None"
  proof (cases m)
    case (DataMsg jid b)
    have "length (job_todo (sv s)) < 1024"
      using sys_live_lengths [OF assms(1,2)] assms(3) DataMsg by auto
    then show ?thesis using DataMsg by (auto simp: Let_def qpush_room split: sum.splits)
  qed (use assms(2,3) in \<open>auto simp: sys_live_def\<close>)
  then show ?thesis using server_no_fault [OF assms(1,3), of fi]
    by (cases "server_handle fi m (sv s)") (auto, metis (no_types) obj_sumE prod_cases3)
qed

text \<open>The threads that can take no turn have nothing to do.\<close>

lemma move_enabled:
  assumes "movable (job_todo p)" and "length (job_array p) = ARRAY_SIZE" and "job_todo p \<noteq> []"
  shows "\<exists>go p' out. move_turn p = Some (Inr (go, p', out))"
  using move_turn_cases [OF assms(1,2)] assms(3) by (cases "job_todo p") auto

lemma writer_enabled:
  assumes "movable (job_tosend p)" and "length (job_array p) = ARRAY_SIZE" and "job_tosend p \<noteq> []"
  shows "\<exists>p' m. writer_turn p = Some (Inr (p', m))"
proof -
  obtain j q where q: "job_tosend p = j # q" using assms(3) by (cases "job_tosend p") auto
  then have "j = - 1 \<or> 0 < j \<and> j < JOB_NUM" using assms(1) by simp
  then show ?thesis using q assms(2) transfer_msg_job(1) [of j "job_array p"]
    by (auto simp: writer_turn_def transfer_msg_def [of "- 1"])
qed

text \<open>
  What is left when no turn can be taken. A turn of the client's writer that only finds its queue
  empty may be left out.
\<close>

definition idle_writer :: "system \<Rightarrow> bool" where
  "idle_writer s \<longleftrightarrow> cl_writer s = Check \<and> job_tosend (c_peer (cl s)) = []"

definition working_turn :: "(u64 \<Rightarrow> u64) \<Rightarrow> (int \<Rightarrow> u32) \<Rightarrow> system \<Rightarrow> system \<Rightarrow> bool" where
  "working_turn bump fi s t \<longleftrightarrow> sys_turn bump fi s t \<and> (idle_writer s \<longrightarrow> cl_writer t = Check)"

lemma working_turnI: "sys_turn bump fi s t \<Longrightarrow> cl_writer t = cl_writer s \<Longrightarrow> working_turn bump fi s t"
  by (simp add: working_turn_def idle_writer_def)

lemmas other_turns = sys_main_check sys_main_take sys_main_finish sys_reader_check sys_client_read sys_client_move
  sys_server_read sys_server_move sys_worker_take sys_worker_finish sys_server_write

lemmas working_turns = other_turns [THEN working_turnI]

lemma stuck_client:
  assumes "sys_inv bump v s" and "sys_live s" and "job_finished (cl s) < JOB_NUM" and "\<not> balancer_waits s"
    and stuck: "\<And>t. \<not> working_turn bump fi s t"
  shows "cl_main s = Turn" and "job_todo (c_peer (cl s)) = []" and "job_tosend (c_peer (cl s)) = []" and "sc s = []"
proof -
  have mv: "movable (job_todo (c_peer (cl s)))" "movable (job_tosend (c_peer (cl s)))"
    "length (job_array (c_peer (cl s))) = ARRAY_SIZE"
    using assms(1) held_movable(1,3) data_invD(1) by (auto simp: sys_inv_def)
  have "cl_main s \<noteq> Check" using stuck working_turns(1) [of s] assms(3) by (auto simp: main_check_def)
  moreover have "cl_main s \<noteq> Computing j" for j
    using stuck working_turns(3) [of s j bump] compute_no_fault(1) [OF assms(1), of j] by auto
  ultimately show main: "cl_main s = Turn" using assms(2) by (cases "cl_main s") (auto simp: sys_live_def)
  show "job_todo (c_peer (cl s)) = []"
    using stuck working_turns(2) [OF main, of _ _ bump fi]
    by (cases "job_todo (c_peer (cl s))") (auto simp: main_take_def worker_take_def)
  show "job_tosend (c_peer (cl s)) = []"
  proof (rule ccontr)
    assume ne: "job_tosend (c_peer (cl s)) \<noteq> []"
    then have "cl_writer s \<noteq> Check"
      using stuck sys_writer_check [of s bump fi] by (auto simp: working_turn_def idle_writer_def)
    then have "cl_writer s = Turn" using assms(2) by (auto simp: sys_live_def)
    then show False
      using stuck sys_client_write [of s _ _ bump fi] writer_enabled [OF mv(2,3) ne]
      by (auto simp: working_turn_def idle_writer_def)
  qed
  have "cl_reader s \<noteq> Check" using stuck working_turns(4) [of s] assms(3) by (auto simp: reader_check_def)
  moreover have "cl_reader s \<noteq> Moving k" for k
  proof (cases k)
    case (Suc i)
    then show ?thesis using stuck working_turns(6) [of s i _ _ _ bump fi] move_enabled [OF mv(1,3)] assms(4)
      by (auto simp: balancer_waits_def)
  qed (use assms(2) in \<open>auto simp: sys_live_def\<close>)
  ultimately have "cl_reader s = Turn" using assms(2) by (cases "cl_reader s") (auto simp: sys_live_def)
  then show "sc s = []"
    using stuck working_turns(5) [of s _ _ fi _ _ _ bump] client_handle_enabled [OF assms(1,2), of _ _ fi]
    by (cases "sc s") (auto, blast)
qed

lemma stuck_server:
  assumes "sys_inv bump v s" and "sys_live s" and "\<not> balancer_waits s" and stuck: "\<And>t. \<not> working_turn bump fi s t"
  shows "sv_worker s = Turn" and "job_todo (sv s) = []" and "job_tosend (sv s) = []" and "cs s = []"
proof -
  have mv: "movable (job_todo (sv s))" "movable (job_tosend (sv s))" "length (job_array (sv s)) = ARRAY_SIZE"
    using assms(1) held_movable(2,4) data_invD(2) by (auto simp: sys_inv_def)
  have open_s: "\<not> session_end s" and w_s: "sv_writer s = Turn" using assms(2) by (simp_all add: sys_live_def)
  have "sv_worker s \<noteq> Computing j" for j
  proof
    assume w: "sv_worker s = Computing j"
    then have "length (job_tosend (sv s)) < 1024" using sys_live_lengths [OF assms(1,2)] by simp
    then have "worker_finish bump j (sv s) \<noteq> None" by (auto simp: worker_finish_def qpush_room split: sum.splits)
    moreover have "worker_finish bump j (sv s) \<noteq> Some (Inl e)" for e using compute_no_fault(2) [OF assms(1) w] .
    ultimately obtain p where "worker_finish bump j (sv s) = Some (Inr p)" by (metis not_None_eq obj_sumE)
    then show False using stuck working_turns(10) [OF open_s w, of _ _ fi] by auto
  qed
  then show w: "sv_worker s = Turn" using assms(2) by (cases "sv_worker s") (auto simp: sys_live_def)
  show "job_todo (sv s) = []"
    using stuck working_turns(9) [OF open_s w, of _ _ bump fi]
    by (cases "job_todo (sv s)") (auto simp: worker_take_def)
  show "job_tosend (sv s) = []"
    using stuck working_turns(11) [OF open_s w_s, of _ _ bump fi] writer_enabled [OF mv(2,3)] by auto
  have "sv_reader s \<noteq> Moving k" for k
  proof (cases k)
    case (Suc i)
    then show ?thesis using stuck working_turns(8) [OF open_s, of i _ _ _ bump fi] move_enabled [OF mv(1,3)] assms(3)
      by (auto simp: balancer_waits_def)
  qed (use assms(2) in \<open>auto simp: sys_live_def\<close>)
  then have "sv_reader s = Turn" using assms(2) by (cases "sv_reader s") (auto simp: sys_live_def)
  then show "cs s = []"
    using stuck working_turns(7) [OF open_s, of _ _ fi _ _ _ bump] server_handle_enabled [OF assms(1,2), of _ _ fi]
    by (cases "cs s") (auto, blast)
qed

lemma working_turn_exists:
  assumes "sys_live_inv bump v s" and "job_finished (cl s) < JOB_NUM" and "\<not> balancer_waits s"
  shows "\<exists>t. working_turn bump fi s t"
proof (rule ccontr)
  assume "\<nexists>t. working_turn bump fi s t"
  then have stuck: "\<not> working_turn bump fi s t" for t by blast
  have inv: "sys_inv bump v s" and l: "sys_live s" using assms(1,2) by (auto simp: sys_live_inv_def)
  have "inflight s = []"
    using stuck_client [OF inv l assms(2,3) stuck] stuck_server [OF inv l assms(3) stuck]
    by (simp add: place_simps)
  then show False using inv assms(2) by (simp add: sys_inv_def place_inv_def)
qed

lemma turn_exists:
  assumes "sys_live_inv bump v s" and "job_finished (cl s) < JOB_NUM" and "\<not> balancer_waits s"
  shows "\<exists>t. sys_turn bump fi s t"
  using working_turn_exists [OF assms] by (auto simp: working_turn_def)

text \<open>The goal of the system: all jobs are finished, or a balancer waits for an emptied queue.\<close>

interpretation mp4_run: progress_system "\<lambda>s. s = sys_start v" "sys_step bump fi" "sys_live_inv bump v"
    "sys_turn bump fi" "\<lambda>s. JOB_NUM \<le> job_finished (cl s) \<or> balancer_waits s" sys_rank for bump fi v
proof unfold_locales
  fix s t
  show "sys_live_inv bump v s" if "s = sys_start v" using that sys_live_start by simp
  show "sys_live_inv bump v t" if "sys_live_inv bump v s" "sys_step bump fi s t" using that sys_live_inv_step by blast
  show "sys_step bump fi s t" if "sys_turn bump fi s t" using that by (rule sys_turn)
  assume g: "sys_live_inv bump v s" "\<not> (JOB_NUM \<le> job_finished (cl s) \<or> balancer_waits s)"
  then show "\<exists>t. sys_turn bump fi s t" using turn_exists by auto
  show "sys_rank t < sys_rank s" if "sys_turn bump fi s t"
    using turn_lowers [OF that] g by (auto simp: sys_live_inv_def lower_def)
qed

section \<open>Without state messages\<close>

text \<open>As long as no state message is on its way the balancer has nothing to do.\<close>

fun is_state :: "msg \<Rightarrow> bool" where
  "is_state (StateMsg n th cpu) = True"
| "is_state _ = False"

definition quiet :: "system \<Rightarrow> bool" where
  "quiet s \<longleftrightarrow> (\<forall>m \<in> set (cs s) \<union> set (sc s). \<not> is_state m)
     \<and> (\<forall>k. cl_reader s \<noteq> Moving k \<and> sv_reader s \<noteq> Moving k)"

lemma quiet_writer: "writer_turn p = Some (Inr (p', m)) \<Longrightarrow> \<not> is_state m"
  by (auto simp: writer_turn_def transfer_msg_def bind_r_Inr_iff split: option.splits if_splits)

lemma quiet_handle:
  "server_handle fi m p = Some (Inr (k, p', out)) \<Longrightarrow> \<not> is_state m \<Longrightarrow> k = 0 \<and> out = []"
  "client_handle fi m c = Some (Inr (k, c', out)) \<Longrightarrow> \<not> is_state m \<Longrightarrow> k = 0 \<and> out = []"
  by (cases m; auto simp: Let_def split: sum.splits option.splits if_splits)+

lemma quiet_turn: "sys_turn bump fi s t \<Longrightarrow> quiet s \<Longrightarrow> quiet t"
  by (erule sys_turn.cases)
     (auto simp: quiet_def moving_def reader_check_def dest: quiet_writer quiet_handle split: if_splits option.splits)

lemma quiet_not_waiting: "quiet s \<Longrightarrow> \<not> balancer_waits s"
  by (auto simp: quiet_def balancer_waits_def split: thread.splits)

interpretation mp4_quiet: progress_system "\<lambda>s. s = sys_start v" "sys_turn bump fi" "\<lambda>s. sys_live_inv bump v s \<and> quiet s"
    "sys_turn bump fi" "\<lambda>s. JOB_NUM \<le> job_finished (cl s)" sys_rank for bump fi v
proof unfold_locales
  fix s t
  show "sys_live_inv bump v s \<and> quiet s" if "s = sys_start v"
    using that sys_live_start [of bump v] by (simp add: quiet_def sys_start_def Let_def)
  show "sys_live_inv bump v t \<and> quiet t" if "sys_live_inv bump v s \<and> quiet s" "sys_turn bump fi s t"
    using that sys_live_inv_step [OF _ sys_turn] quiet_turn by blast
  assume g: "sys_live_inv bump v s \<and> quiet s" "\<not> JOB_NUM \<le> job_finished (cl s)"
  then show "\<exists>t. sys_turn bump fi s t" using turn_exists quiet_not_waiting by auto
  show "sys_rank t < sys_rank s" if "sys_turn bump fi s t"
    using mp4_run.turn_rank [OF _ _ that] g quiet_not_waiting by blast
qed

lemma sys_rank_start: "sys_rank (sys_start v) = 12287"
  by (simp add: sys_rank_def sys_start_def peer_start_def peer_globals_def Let_def)

section \<open>A reader that waits for ever\<close>

text \<open>
  The reader of the client is the only thread that adds jobs to \<^verbatim>\<open>job_todo\<close>. When it waits inside the
  balancer while that queue is empty, it waits for ever, and no result of the server is counted.
\<close>

definition reader_stuck :: "nat \<Rightarrow> system \<Rightarrow> bool" where
  "reader_stuck k s \<longleftrightarrow> cl_reader s = Moving k \<and> job_todo (c_peer (cl s)) = []
     \<and> job_finished (cl s) + int (length (cur_job (cl_main s))) < JOB_NUM"

lemma reader_stuck_turn:
  assumes "sys_turn bump fi s t" and "sys_inv bump v s" and "reader_stuck k s"
  shows "reader_stuck k t"
  using assms(1)
proof cases
  case (sys_client_write p m)
  then show ?thesis using assms(3)
    by (auto simp: reader_stuck_def writer_turn_def bind_r_Inr_iff split: option.splits)
next
  case (sys_client_move j go p out)
  then show ?thesis using assms(3) by (simp add: reader_stuck_def move_turn_def)
qed (use assms(3) s32_finished [OF assms(2)] in
     \<open>auto simp: reader_stuck_def main_check_def main_take_def worker_take_def main_finish_def bind_r_Inr_iff
       split: if_splits option.splits\<close>)

lemma reader_stuck_step:
  assumes "sys_step bump fi s t" and "sys_inv bump v s" and "reader_stuck k s"
  shows "reader_stuck k t"
  using assms(1)
proof cases
  case sys_turn
  then show ?thesis using reader_stuck_turn assms(2,3) by blast
qed (use assms(3) in \<open>auto simp: reader_stuck_def\<close>)

lemma reader_stuck_steps:
  assumes "(sys_step bump fi)\<^sup>*\<^sup>* s t" and "sys_inv bump v s" and "reader_stuck k s"
  shows "reader_stuck k t"
proof -
  have "sys_inv bump v t \<and> reader_stuck k t"
    using assms by (induction rule: rtranclp_induct) (blast intro: sys_inv_step reader_stuck_step)+
  then show ?thesis by simp
qed

text \<open>The main loop of the client can empty its queue while the other threads do nothing.\<close>

lemma main_turn_exists:
  assumes "sys_inv bump v s" and "sys_live s" and "job_finished (cl s) < JOB_NUM" and "job_todo (c_peer (cl s)) \<noteq> []"
  shows "\<exists>t. sys_turn bump fi s t \<and> sv t = sv s \<and> cl_reader t = cl_reader s"
proof (cases "cl_main s")
  case Check
  then show ?thesis using sys_main_check [of s Turn "cl s" bump fi] assms(3)
    by (intro exI [of _ "s\<lparr>cl := cl s, cl_main := Turn\<rparr>"]) (simp add: main_check_def)
next
  case Turn
  obtain th c where "main_take (cl s) = Some (th, c)"
    using assms(4) by (cases "job_todo (c_peer (cl s))") (auto simp: main_take_def worker_take_def)
  then show ?thesis using sys_main_take [OF Turn, of th c bump fi]
    by (intro exI [of _ "s\<lparr>cl := c, cl_main := th\<rparr>"]) simp
next
  case (Computing j)
  then obtain c where "main_finish bump j (cl s) = Inr c" using compute_no_fault(1) [OF assms(1)] by blast
  then show ?thesis using sys_main_finish [OF Computing, of bump c fi]
    by (intro exI [of _ "s\<lparr>cl := c, cl_main := Check\<rparr>"]) simp
qed (use assms(2) in \<open>auto simp: sys_live_def\<close>)

lemma place_unfinished:
  assumes "sys_inv bump v s" and "real_jobs (job_todo (sv s)) \<noteq> []"
  shows "job_finished (cl s) + int (length (cur_job (cl_main s))) < JOB_NUM"
  using assms by (auto simp: sys_inv_def place_inv_def place_simps length_greater_0_conv [symmetric] simp del: length_greater_0_conv)

lemma main_drains:
  "sys_inv bump v s \<Longrightarrow> sys_live s \<Longrightarrow> real_jobs (job_todo (sv s)) \<noteq> [] \<Longrightarrow>
   \<exists>t. (sys_turn bump fi)\<^sup>*\<^sup>* s t \<and> sys_inv bump v t \<and> sv t = sv s \<and> cl_reader t = cl_reader s
     \<and> job_todo (c_peer (cl t)) = []"
proof (induction "sys_rank s" arbitrary: s rule: less_induct)
  case less
  show ?case
  proof (cases "job_todo (c_peer (cl s)) = []")
    case False
    have fin: "job_finished (cl s) < JOB_NUM" using place_unfinished [OF less.prems(1,3)] by simp
    obtain u where u: "sys_turn bump fi s u" "sv u = sv s" "cl_reader u = cl_reader s"
      using main_turn_exists [OF less.prems(1,2) fin False, of fi] by blast
    have "sys_inv bump v u" "sys_live u" "sys_rank u < sys_rank s"
      using sys_inv_turn [OF less.prems(1) u(1)] turn_lowers [OF u(1) less.prems(1,2) fin] by (auto simp: lower_def)
    then show ?thesis using less.hyps [of u] less.prems(3) u by (auto intro: converse_rtranclp_into_rtranclp)
  qed (use less.prems in blast)
qed

text \<open>The job lists are not to be written out entry by entry.\<close>

declare upt_rec_numeral [simp del]

text \<open>
  A run to such a state: the server asks for jobs, gets one, reports it, and the client's reader is
  about to move 255 jobs when the main loop empties the queue.
\<close>

text \<open>States in which no job is finished yet, and the steps of the other threads between them.\<close>

definition snapshot :: "thread \<Rightarrow> peer \<Rightarrow> peer \<Rightarrow> msg list \<Rightarrow> msg list \<Rightarrow> thread \<Rightarrow> thread \<Rightarrow> system" where
  "snapshot mn p q ms ns w r = \<lparr>cl = \<lparr>c_peer = p, job_finished = 0, job_server_done = 0\<rparr>, sv = q, cs = ms, sc = ns,
     cl_main = mn, cl_writer = w, cl_reader = r, sv_reader = Turn, sv_worker = Turn, sv_writer = Turn, session_end = False\<rparr>"

lemma snapshot_step:
  "sys_step bump fi (snapshot mn p q ms ns w Check) (snapshot mn p q ms ns w Turn)"
  "sys_step bump fi (snapshot mn p q ms ns Check r) (snapshot mn p q ms ns Turn r)"
  "sys_step bump fi (snapshot mn p q ms ns w r) (snapshot mn p q (ms @ [client_state_manager p thr cpu]) ns w r)"
  "sys_step bump fi (snapshot mn p q ms ns w r) (snapshot mn p q ms (ns @ [server_state_manager q thr cpu]) w r)"
  "client_handle fi m \<lparr>c_peer = p, job_finished = 0, job_server_done = 0\<rparr> =
     Some (Inr (k, \<lparr>c_peer = p', job_finished = 0, job_server_done = 0\<rparr>, out)) \<Longrightarrow>
   sys_step bump fi (snapshot mn p q ms (m # ns) w Turn) (snapshot mn p' q (ms @ out) ns w (moving Check k))"
  "server_handle fi m q = Some (Inr (0, q', out)) \<Longrightarrow>
   sys_step bump fi (snapshot mn p q (m # ms) ns w r) (snapshot mn p q' ms (ns @ out) w r)"
  "writer_turn p = Some (Inr (p', m)) \<Longrightarrow>
   sys_step bump fi (snapshot mn p q ms ns Turn r) (snapshot mn p' q (ms @ [m]) ns Check r)"
  using sys_turn [OF sys_reader_check [of "snapshot mn p q ms ns w Check" Turn "cl (snapshot mn p q ms ns w Check)" bump fi]]
    sys_turn [OF sys_writer_check [of "snapshot mn p q ms ns Check r" bump fi]]
    sys_client_state [of bump fi "snapshot mn p q ms ns w r" thr cpu]
    sys_server_state [of "snapshot mn p q ms ns w r" bump fi thr cpu]
    sys_turn [OF sys_client_read [of "snapshot mn p q ms (m # ns) w Turn" m ns fi k
      "\<lparr>c_peer = p', job_finished = 0, job_server_done = 0\<rparr>" out bump]]
    sys_turn [OF sys_server_read [of "snapshot mn p q (m # ms) ns w r" m ms fi 0 q' out bump]]
    sys_turn [OF sys_client_write [of "snapshot mn p q ms ns Turn r" p' m bump fi]]
  by (simp_all add: snapshot_def reader_check_def writer_check_def JOB_NUM_def moving_def)

text \<open>The client after \<^verbatim>\<open>bootstrap\<close> with the jobs \<open>js\<close> still in its queue.\<close>

definition client_with :: "u64 \<Rightarrow> int list \<Rightarrow> peer" where
  "client_with v js = (peer_start v)\<lparr>job_todo := js, job_tosend := map int [512..<1024]\<rparr>"

definition client_booted :: "u64 \<Rightarrow> peer" where
  "client_booted v = client_with v (map int [1..<512])"

lemma client_with_simps [simp]:
  "job_todo (client_with v js) = js" "job_tosend (client_with v js) = 512 # map int [513..<1024]"
  "job_array (client_with v js) = job_array (peer_start v)" "transfer_policy (client_with v js) = 1"
  "peer_num_jobs (client_with v js) = - 1" "length (job_array (peer_start v)) = ARRAY_SIZE"
  using upt_conv_Cons [of 512 1024] by (simp_all add: client_with_def peer_start_def peer_globals_def)

lemma halves:
  assumes "n = 511 \<or> n = (512 :: int)"
  shows "s32 (- n) = - n" and "s32 (n - 1) = n - 1" and "c_div (n - 1) 2 = Inr 255" and "\<exists>k. c_div (- n) 2 = Inr (- k) \<and> 0 \<le> k"
  using assms by (auto simp: s32_id c_int_def c_div_pos) (auto simp: c_div_def signed_divide_int_def)

text \<open>The run below never has more than one message on its way.\<close>

definition calm_step :: "(u64 \<Rightarrow> u64) \<Rightarrow> (int \<Rightarrow> u32) \<Rightarrow> system \<Rightarrow> system \<Rightarrow> bool" where
  "calm_step bump fi s t \<longleftrightarrow> sys_step bump fi s t \<and> length (cs t) + length (sc t) \<le> 1"

lemma calm_into:
  "(calm_step bump fi)\<^sup>*\<^sup>* s (snapshot mn p q ms ns w r) \<Longrightarrow>
   sys_step bump fi (snapshot mn p q ms ns w r) (snapshot mn p' q' ms' ns' w' r') \<Longrightarrow> length ms' + length ns' \<le> 1 \<Longrightarrow>
   (calm_step bump fi)\<^sup>*\<^sup>* s (snapshot mn p' q' ms' ns' w' r')"
  by (erule rtranclp.rtrancl_into_rtrancl) (simp add: calm_step_def snapshot_def)

lemma calm_run_to_request:
  assumes "int (length js) = 511 \<or> int (length js) = 512"
  shows "\<exists>p q. (calm_step bump fi)\<^sup>*\<^sup>* (snapshot mn (client_with v js) (peer_start v) [] [] Check Check)
      (snapshot mn p q [] [] Check Check) \<and> job_todo p = js \<and> job_array p = job_array (peer_start v)
      \<and> rebalance_requested p \<and> job_todo q = [512] \<and> transfer_policy q = 1"
proof -
  let ?n = "int (length js)"
  let ?p0 = "client_with v js"
  let ?p1 = "?p0\<lparr>rebalance_requested := True\<rparr>"
  let ?p2 = "?p1\<lparr>job_tosend := map int [513..<1024]\<rparr>"
  let ?q0 = "peer_start v"
  let ?q1 = "?q0\<lparr>peer_num_jobs := ?n, peer_throttle_value := fi 0, peer_cpu_usage := 0\<rparr>"
  let ?b = "block 512 (job_array ?q0)"
  let ?q2 = "?q1\<lparr>job_array := set_block 512 ?b (job_array ?q1), job_todo := [512]\<rparr>"
  obtain k where k: "c_div (- ?n) 2 = Inr (- k)" using halves(4) [OF assms] by blast
  have h1: "server_handle fi (StateMsg ?n 0 0) ?q0 = Some (Inr (0, ?q1, [RebalanceMsg]))"
    using assms
    by (auto simp: state_begin_def adaptor_begin_def halves(1) [OF assms] k DIFF_THRESHOLD_def peer_start_def peer_globals_def)
  have h2: "writer_turn ?p1 = Some (Inr (?p2, DataMsg 512 ?b))"
    using transfer_msg_job(1) [of 512 "job_array ?p1"] by (simp add: writer_turn_def JOB_NUM_def)
  have h3: "server_handle fi (DataMsg 512 ?b) ?q1 = Some (Inr (0, ?q2, []))"
    using storeLocal_block [of 512 "job_array ?q1" ?b] by (simp add: JOB_NUM_def qpush_def) (simp add: peer_start_def peer_globals_def)
  let ?R = "(calm_step bump fi)\<^sup>*\<^sup>* (snapshot mn ?p0 ?q0 [] [] Check Check)"
  have "?R (snapshot mn ?p0 ?q0 [] [] Check Check)" by simp
  from calm_into [OF this snapshot_step(3) [where thr = 0 and cpu = 0]]
  have "?R (snapshot mn ?p0 ?q0 [StateMsg ?n 0 0] [] Check Check)" by (simp add: client_state_manager_def)
  from calm_into [OF this snapshot_step(6) [OF h1]]
  have "?R (snapshot mn ?p0 ?q1 [] [RebalanceMsg] Check Check)" by simp
  from calm_into [OF this snapshot_step(1)]
  have "?R (snapshot mn ?p0 ?q1 [] [RebalanceMsg] Check Turn)" by simp
  from calm_into [OF this snapshot_step(5) [where k = 0 and p' = ?p1 and out = "[]"]]
  have "?R (snapshot mn ?p1 ?q1 [] [] Check Check)" by (simp add: moving_def)
  from calm_into [OF this snapshot_step(2)] have "?R (snapshot mn ?p1 ?q1 [] [] Turn Check)" by simp
  from calm_into [OF this snapshot_step(7) [OF h2]]
  have "?R (snapshot mn ?p2 ?q1 [DataMsg 512 ?b] [] Check Check)" by simp
  from calm_into [OF this snapshot_step(6) [OF h3]] have "?R (snapshot mn ?p2 ?q2 [] [] Check Check)" by simp
  then show ?thesis by (intro exI [of _ ?p2] exI [of _ ?q2]) (simp add: peer_start_def peer_globals_def)
qed

lemma calm_run_to_move:
  assumes "int (length (job_todo p)) = 511 \<or> int (length (job_todo p)) = 512" and "rebalance_requested p" and "job_todo q = [512]"
  shows "\<exists>p'. (calm_step bump fi)\<^sup>*\<^sup>* (snapshot mn p q [] [] Check Check) (snapshot mn p' q [] [] Check (Moving 255))
      \<and> job_todo p' = job_todo p \<and> job_array p' = job_array p"
proof -
  let ?p = "p\<lparr>peer_num_jobs := 1, peer_throttle_value := fi 0, peer_cpu_usage := 0\<rparr>"
  have h: "client_handle fi (StateMsg 1 0 0) \<lparr>c_peer = p, job_finished = 0, job_server_done = 0\<rparr> =
      Some (Inr (255, \<lparr>c_peer = ?p, job_finished = 0, job_server_done = 0\<rparr>, []))"
    using assms(1,2) by (auto simp: state_begin_def adaptor_begin_def halves(2,3) [OF assms(1)] DIFF_THRESHOLD_def)
  let ?R = "(calm_step bump fi)\<^sup>*\<^sup>* (snapshot mn p q [] [] Check Check)"
  have "?R (snapshot mn p q [] [] Check Check)" by simp
  from calm_into [OF this snapshot_step(4) [where thr = 0 and cpu = 0]]
  have "?R (snapshot mn p q [] [StateMsg 1 0 0] Check Check)" by (simp add: server_state_manager_def assms(3))
  from calm_into [OF this snapshot_step(1)] have "?R (snapshot mn p q [] [StateMsg 1 0 0] Check Turn)" by simp
  from calm_into [OF this snapshot_step(5) [OF h]]
  have "?R (snapshot mn ?p q [] [] Check (Moving 255))" by (simp add: moving_def)
  then show ?thesis by (intro exI [of _ ?p]) simp
qed

lemma calm_run_to_balancer:
  assumes "int (length js) = 511 \<or> int (length js) = 512"
  shows "\<exists>p q. (calm_step bump fi)\<^sup>*\<^sup>* (snapshot mn (client_with v js) (peer_start v) [] [] Check Check)
      (snapshot mn p q [] [] Check (Moving 255)) \<and> job_todo p = js \<and> job_array p = job_array (peer_start v)
      \<and> job_todo q = [512] \<and> transfer_policy q = 1"
proof -
  obtain p q where 1: "(calm_step bump fi)\<^sup>*\<^sup>* (snapshot mn (client_with v js) (peer_start v) [] [] Check Check)
      (snapshot mn p q [] [] Check Check)" and p: "job_todo p = js" "job_array p = job_array (peer_start v)" "rebalance_requested p"
      and q: "job_todo q = [512]" "transfer_policy q = 1"
    using calm_run_to_request [OF assms] by blast
  obtain p' where "(calm_step bump fi)\<^sup>*\<^sup>* (snapshot mn p q [] [] Check Check) (snapshot mn p' q [] [] Check (Moving 255))"
      and p': "job_todo p' = js" "job_array p' = job_array (peer_start v)"
    using calm_run_to_move [of p q bump fi mn] assms p q(1) by auto
  from rtranclp_trans [OF 1 this(1)] show ?thesis using p' q by blast
qed

lemma run_to_balancer:
  assumes "int (length js) = 511 \<or> int (length js) = 512"
  shows "\<exists>p q. (sys_step bump fi)\<^sup>*\<^sup>* (snapshot mn (client_with v js) (peer_start v) [] [] Check Check)
      (snapshot mn p q [] [] Check (Moving 255)) \<and> job_todo p = js \<and> job_array p = job_array (peer_start v) \<and> job_todo q = [512]"
proof -
  have "(sys_step bump fi)\<^sup>*\<^sup>* s t" if "(calm_step bump fi)\<^sup>*\<^sup>* s t" for s t
    using that by (rule mono_rtranclp [rule_format, rotated]) (simp add: calm_step_def)
  then show ?thesis using calm_run_to_balancer [OF assms, of bump fi mn v] by blast
qed

lemma start_snapshot: "sys_start v = snapshot (Computing 0) (client_with v (map int [1..<512])) (peer_start v) [] [] Check Check"
  by (simp add: sys_start_def Let_def snapshot_def client_with_def)

lemma start_to_balancer:
  "\<exists>s. (sys_step bump fi)\<^sup>*\<^sup>* (sys_start v) s \<and> cl_reader s = Moving 255 \<and> job_todo (sv s) = [512] \<and> job_finished (cl s) = 0"
  using run_to_balancer [of "map int [1..<512]" bump fi "Computing 0" v] unfolding start_snapshot
  by (force simp: snapshot_def)

text \<open>
  The first job is the one the balancer cannot move. If the reader comes to the balancer before the
  main loop has taken its first job, it leaves the array.
\<close>

lemma job_zero_taken:
  assumes "job_todo p = 0 # js" and "length (job_array p) = ARRAY_SIZE"
  shows "move_turn p = Some (Inl OutOfBounds)"
  using read_block_job_0 [OF assms(2)] assms(1) by (simp add: move_turn_def transfer_msg_def JOB_NUM_def)

lemma reader_gets_stuck:
  "\<exists>s. (sys_step bump fi)\<^sup>*\<^sup>* (sys_start v) s \<and> sys_inv bump v s \<and> reader_stuck 255 s"
proof -
  obtain s where s: "(sys_step bump fi)\<^sup>*\<^sup>* (sys_start v) s" "cl_reader s = Moving 255" "job_todo (sv s) = [512]"
      "job_finished (cl s) = 0"
    using start_to_balancer by blast
  have "sys_live_inv bump v s" using mp4_run.inv_reachable [OF _ s(1)] by blast
  then have inv: "sys_inv bump v s" "sys_live s" using s(4) by (auto simp: sys_live_inv_def JOB_NUM_def)
  obtain t where t: "(sys_turn bump fi)\<^sup>*\<^sup>* s t" "sys_inv bump v t" "sv t = sv s" "cl_reader t = cl_reader s"
      "job_todo (c_peer (cl t)) = []"
    using main_drains [OF inv, of fi] s(3) by auto
  have "(sys_step bump fi)\<^sup>*\<^sup>* s t" using t(1) by (rule mono_rtranclp [rule_format, rotated]) (rule sys_turn)
  then have "(sys_step bump fi)\<^sup>*\<^sup>* (sys_start v) t" using s(1) by simp
  moreover have "reader_stuck 255 t"
    using t place_unfinished [OF t(2)] s(2,3) by (simp add: reader_stuck_def)
  ultimately show ?thesis using t(2) by blast
qed

end
