(* ===== verification/MP4_Spec.thy ===== *)
theory MP4_Spec
  imports MP4_Progress
begin

text \<open>
  What MP4 promises, without threads, queues, messages and the load balancer: a pool of jobs and one
  array; a step takes a job out of the pool and computes its block. The system of client and server
  refines it, so the array of the client is at every moment the one that a sequential program has
  after computing the finished jobs one after the other.
\<close>

section \<open>The specification\<close>

record pool =
  remaining :: "int set"
  result_array :: "u64 list"

inductive pool_step :: "(u64 \<Rightarrow> u64) \<Rightarrow> pool \<Rightarrow> pool \<Rightarrow> bool" for bump :: "u64 \<Rightarrow> u64" where
  pool_compute: "j \<in> remaining p \<Longrightarrow> compute bump (result_array p) j = Inr arr \<Longrightarrow>
    pool_step bump p (p\<lparr>remaining := remaining p - {j}, result_array := arr\<rparr>)"

inductive_cases pool_stepE: "pool_step bump p q"

text \<open>The sequential program: the jobs of a list in their order.\<close>

primrec compute_all :: "(u64 \<Rightarrow> u64) \<Rightarrow> int list \<Rightarrow> u64 list \<Rightarrow> u64 list result" where
  "compute_all bump [] arr = Inr arr"
| "compute_all bump (j # js) arr = bind_r (compute bump arr j) (compute_all bump js)"

lemma compute_all_append:
  "compute_all bump (js @ ks) arr = bind_r (compute_all bump js arr) (compute_all bump ks)"
  by (induction js arbitrary: arr) (auto simp: bind_r_def split: sum.splits)

text \<open>The runs of the specification are the sequential programs over distinct jobs of the pool.\<close>

lemma pool_run_sequential:
  assumes "(pool_step bump)\<^sup>*\<^sup>* p q"
  shows "\<exists>js. distinct js \<and> set js \<subseteq> remaining p \<and> remaining q = remaining p - set js
     \<and> compute_all bump js (result_array p) = Inr (result_array q)"
  using assms
proof (induction rule: rtranclp_induct)
  case base
  show ?case by (intro exI [of _ "[]"]) simp
next
  case (step q r)
  then obtain js where js: "distinct js" "set js \<subseteq> remaining p" "remaining q = remaining p - set js"
      "compute_all bump js (result_array p) = Inr (result_array q)" by blast
  from step.hyps(2) obtain j arr where "j \<in> remaining q" "compute bump (result_array q) j = Inr arr"
      "r = q\<lparr>remaining := remaining q - {j}, result_array := arr\<rparr>" by (rule pool_stepE)
  then show ?case using js by (intro exI [of _ "js @ [j]"]) (auto simp: compute_all_append)
qed

section \<open>The system refines it\<close>

definition pool_of :: "system \<Rightarrow> pool" where
  "pool_of s = \<lparr>remaining = set (inflight s), result_array = job_array (c_peer (cl s))\<rparr>"

lemma pool_of_start: "pool_of (sys_start v) = \<lparr>remaining = {0..<JOB_NUM}, result_array = replicate ARRAY_SIZE v\<rparr>"
proof -
  have "set (inflight (sys_start v)) = {0..<JOB_NUM}"
    by (simp add: inflight_start JOB_NUM_def image_int_atLeastLessThan)
  then show ?thesis by (simp add: pool_of_def sys_start_def peer_start_def peer_globals_def Let_def)
qed

text \<open>No turn brings a job back, and at most one job is finished by a turn.\<close>

lemma handled_jobs:
  assumes "sys_inv bump v s"
  shows "sc s = m # ms \<Longrightarrow> client_handle fi m (cl s) = Some (Inr (k, c, out)) \<Longrightarrow>
      set (real_jobs (job_todo (c_peer c))) \<subseteq> set (real_jobs (job_todo (c_peer (cl s)))) \<union> set (msg_job m)
      \<and> job_tosend (c_peer c) = job_tosend (c_peer (cl s)) \<and> msgs_jobs out = []"
    and "server_handle fi m (sv s) = Some (Inr (k, p, out)) \<Longrightarrow>
      set (real_jobs (job_todo p)) \<subseteq> set (real_jobs (job_todo (sv s))) \<union> set (msg_job m)
      \<and> real_jobs (job_tosend p) = real_jobs (job_tosend (sv s)) \<and> msgs_jobs out = []"
proof -
  show "set (real_jobs (job_todo (c_peer c))) \<subseteq> set (real_jobs (job_todo (c_peer (cl s)))) \<union> set (msg_job m)
      \<and> job_tosend (c_peer c) = job_tosend (c_peer (cl s)) \<and> msgs_jobs out = []"
    if "sc s = m # ms" "client_handle fi m (cl s) = Some (Inr (k, c, out))"
  proof (cases m)
    case (DataMsg jid b)
    moreover have "jid \<noteq> JOB_NUM" using sc_job(2) [of s jid b ms] assms that(1) DataMsg by (simp add: sys_inv_def)
    ultimately show ?thesis using that(2) by (auto simp: Let_def qpush_def split: if_splits sum.splits option.splits)
  next
    case (StateMsg n th cpu)
    then show ?thesis using that(2) by (auto simp: bind_r_Inr_iff dest: state_begin_asks)
  qed (use that(2) in auto)
  show "set (real_jobs (job_todo p)) \<subseteq> set (real_jobs (job_todo (sv s))) \<union> set (msg_job m)
      \<and> real_jobs (job_tosend p) = real_jobs (job_tosend (sv s)) \<and> msgs_jobs out = []"
    if "server_handle fi m (sv s) = Some (Inr (k, p, out))"
  proof (cases m)
    case (StateMsg n th cpu)
    then show ?thesis using that by (auto dest: state_begin_asks)
  qed (use that in \<open>auto simp: Let_def qpush_def split: if_splits sum.splits option.splits\<close>)
qed

lemma jobs_only_leave:
  assumes "sys_turn bump fi s t" and "sys_inv bump v s"
  shows "set (inflight t) \<subseteq> set (inflight s)"
proof -
  have pl: "place_inv s" and d: "data_inv bump v s" using assms(2) by (simp_all add: sys_inv_def)
  note mv = held_movable [OF pl] data_invD(1,2) [OF d]
  show ?thesis using assms(1)
  proof cases
    case (sys_client_write p m)
    then show ?thesis using writer_turn_cases [OF sys_client_write(3) mv(3,5)] by (auto simp: place_simps)
  next
    case (sys_server_write p m)
    then show ?thesis using writer_turn_cases [OF sys_server_write(4) mv(4,6)] by (auto simp: place_simps)
  next
    case (sys_client_move k go p out)
    then show ?thesis using move_turn_take [OF sys_client_move(3) mv(1,5)] by (auto simp: place_simps moved_def)
  next
    case (sys_server_move k go p out)
    then show ?thesis using move_turn_take [OF sys_server_move(4) mv(2,6)] by (auto simp: place_simps moved_def)
  next
    case (sys_client_read m ms k c out)
    then show ?thesis using handled_jobs(1) [OF assms(2) sys_client_read(3,4)] by (auto simp: place_simps)
  next
    case (sys_server_read m ms k p out)
    then show ?thesis using handled_jobs(2) [OF assms(2) sys_server_read(5)] by (auto simp: place_simps)
  next
    case (sys_worker_take j p)
    then show ?thesis by (cases "job_todo (sv s)") (auto simp: place_simps worker_take_def split: if_splits)
  next
    case (sys_main_take th c)
    then show ?thesis by (cases "job_todo (c_peer (cl s))") (auto simp: place_simps main_take_def worker_take_def split: if_splits)
  qed (auto simp: place_simps main_check_def main_finish_def reader_check_def worker_finish_def qpush_def bind_r_Inr_iff
      split: if_splits sum.splits option.splits)
qed

lemma finished_handle_Suc:
  assumes "sys_inv bump v s" and "client_handle fi m (cl s) = Some (Inr (k, c, out))"
  shows "job_finished c \<le> job_finished (cl s) + 1"
  using assms(2) s32_finished [OF assms(1)]
  by (cases m) (auto simp: Let_def bind_r_Inr_iff split: if_splits sum.splits option.splits)

lemma finished_turn_Suc:
  assumes "sys_turn bump fi s t" and "sys_inv bump v s"
  shows "job_finished (cl t) \<le> job_finished (cl s) + 1"
  using assms(1)
  by cases (use s32_finished [OF assms(2)] finished_handle_Suc [OF assms(2)] in
      \<open>auto simp: main_check_def main_take_def main_finish_def reader_check_def bind_r_Inr_iff
         split: if_splits option.splits\<close>)

text \<open>The array follows from the set of unfinished jobs.\<close>

lemma array_of_jobs:
  assumes "sys_inv bump v s" and "sys_inv bump v t"
  shows "set (inflight t) = set (inflight s) \<Longrightarrow> job_array (c_peer (cl t)) = job_array (c_peer (cl s))"
    and "j \<in> set (inflight s) \<Longrightarrow> set (inflight t) = set (inflight s) - {j} \<Longrightarrow>
      compute bump (job_array (c_peer (cl s))) j = Inr (job_array (c_peer (cl t)))"
proof -
  have d: "data_inv bump v s" "data_inv bump v t" using assms by (simp_all add: sys_inv_def)
  note len = data_invD(1) [OF d(1)] data_invD(1) [OF d(2)]
  show "job_array (c_peer (cl t)) = job_array (c_peer (cl s))" if "set (inflight t) = set (inflight s)"
  proof (rule blocks_eqI [OF len(2,1)])
    show "block i (job_array (c_peer (cl t))) = block i (job_array (c_peer (cl s)))" if "i < 1024" for i
      using data_invD(3) [OF d(1) that] data_invD(3) [OF d(2) that] \<open>set (inflight t) = set (inflight s)\<close> by simp
  qed
  show "compute bump (job_array (c_peer (cl s))) j = Inr (job_array (c_peer (cl t)))"
    if j: "j \<in> set (inflight s)" and t: "set (inflight t) = set (inflight s) - {j}"
  proof -
    have b: "0 \<le> j" "j < 1024" using j assms(1) by (auto simp: sys_inv_def place_inv_def JOB_NUM_def)
    let ?a = "set_block (nat j) (final_block bump v) (job_array (c_peer (cl s)))"
    have "job_array (c_peer (cl t)) = ?a"
    proof (rule blocks_eqI)
      show "length ?a = ARRAY_SIZE" using b len(1) by simp
      fix i :: nat
      assume i: "i < 1024"
      have "block i ?a = (if i = nat j then final_block bump v else block i (job_array (c_peer (cl s))))"
        using b i len(1) by (intro block_set_block) simp_all
      moreover have "int i = j \<longleftrightarrow> i = nat j" using b(1) by linarith
      then have "int i \<in> set (inflight t) \<longleftrightarrow> int i \<in> set (inflight s) \<and> i \<noteq> nat j" unfolding t by blast
      ultimately show "block i (job_array (c_peer (cl t))) = block i ?a"
        using data_invD(3) [OF d(1) i] data_invD(3) [OF d(2) i] by simp
    qed (rule len(2))
    then show ?thesis
      using compute_block [OF b len(1), of bump] client_block [OF assms(1) j] by (simp add: final_start)
  qed
qed

lemma turn_refines:
  assumes "sys_turn bump fi s t" and "sys_inv bump v s"
  shows "pool_of t = pool_of s \<or> pool_step bump (pool_of s) (pool_of t)"
proof -
  have inv: "sys_inv bump v t" using sys_inv_turn [OF assms(2,1)] .
  have sub: "set (inflight t) \<subseteq> set (inflight s)" using jobs_only_leave [OF assms] .
  have "card (set (inflight s)) \<le> card (set (inflight t)) + 1"
    using finished_turn_Suc [OF assms] assms(2) inv by (simp add: sys_inv_def place_inv_def distinct_card)
  then have "card (set (inflight s) - set (inflight t)) \<le> 1" using sub by (simp add: card_Diff_subset)
  then consider "set (inflight s) - set (inflight t) = {}" | j where "set (inflight s) - set (inflight t) = {j}"
    by (metis List.finite_set card_0_eq card_1_singletonE finite_Diff le_Suc_eq le_zero_eq One_nat_def)
  then show ?thesis
  proof cases
    case 1
    then have "set (inflight t) = set (inflight s)" using sub by blast
    then show ?thesis using array_of_jobs(1) [OF assms(2) inv] by (simp add: pool_of_def)
  next
    case (2 j)
    then have j: "j \<in> set (inflight s)" and t: "set (inflight t) = set (inflight s) - {j}" using sub by auto
    then show ?thesis
      using pool_compute [of j "pool_of s" bump "job_array (c_peer (cl t))"] array_of_jobs(2) [OF assms(2) inv]
      by (simp add: pool_of_def)
  qed
qed

interpretation mp4_pool: refinement "\<lambda>s. s = sys_start v" "sys_step bump fi" "sys_inv bump v" pool_of "pool_step bump"
  for bump fi v
proof unfold_locales
  fix s t
  assume inv: "sys_inv bump v s" and "sys_step bump fi s t"
  from this(2) show "pool_of t = pool_of s \<or> pool_step bump (pool_of s) (pool_of t)"
    by cases (use turn_refines [OF _ inv] in
        \<open>auto simp: pool_of_def place_simps client_state_manager_def server_state_manager_def\<close>)
qed

end
