(* ===== verification/MP4_Ending.thy ===== *)
theory MP4_Ending
  imports MP4_Progress
begin

text \<open>
  How client and server end once the last job is finished (\<^verbatim>\<open>run_client\<close> up to its joins): the main loop
  of the client leaves a mark for the writer, the reader leaves one for the main loop, and the
  writer tells the server, which shuts down. The client takes at most six more turns of its own; it
  ends unless its reader waits for a message or inside the balancer. The writer may end without
  telling the server, which then goes on for ever.
\<close>

section \<open>The client after the last job\<close>

definition client_threads :: "system \<Rightarrow> thread \<times> thread \<times> thread" where
  "client_threads s = (cl_main s, cl_writer s, cl_reader s)"

fun end_rank :: "thread \<Rightarrow> nat" where
  "end_rank Ended = 0"
| "end_rank Check = 1"
| "end_rank _ = 2"

definition client_height :: "system \<Rightarrow> nat" where
  "client_height s = end_rank (cl_main s) + end_rank (cl_writer s) + end_rank (cl_reader s)"

fun state_small :: "msg \<Rightarrow> bool" where
  "state_small (StateMsg n th cpu) = (0 \<le> n \<and> n \<le> 1024)"
| "state_small _ = True"

text \<open>
  The marks: the reader puts one into \<^verbatim>\<open>job_todo\<close> when it ends, and a main loop that waits there finds
  it; the main loop puts one into \<^verbatim>\<open>job_tosend\<close> when it ends, and a writer that waits there finds it.
\<close>

definition ending :: "system \<Rightarrow> bool" where
  "ending s \<longleftrightarrow> cl_main s \<in> {Check, Turn, Ended} \<and> cl_writer s \<in> {Check, Turn, Ended}
     \<and> (\<forall>j. cl_reader s \<noteq> Computing j) \<and> cl_reader s \<noteq> Moving 0
     \<and> (if cl_reader s = Ended then job_todo (c_peer (cl s)) = [- 1] \<or> job_todo (c_peer (cl s)) = [] \<and> cl_main s \<noteq> Turn
        else job_todo (c_peer (cl s)) = [])
     \<and> (if cl_main s = Ended then job_tosend (c_peer (cl s)) = [- 1] \<or> job_tosend (c_peer (cl s)) = [] \<and> cl_writer s \<noteq> Turn
        else job_tosend (c_peer (cl s)) = [])
     \<and> job_todo (sv s) = []
     \<and> (\<forall>m \<in> set (sc s). state_small m)"

definition finished_inv :: "(u64 \<Rightarrow> u64) \<Rightarrow> u64 \<Rightarrow> system \<Rightarrow> bool" where
  "finished_inv bump v s \<longleftrightarrow> sys_inv bump v s \<and> job_finished (cl s) = JOB_NUM \<and> ending s"

lemma finished_nothing_left:
  assumes "sys_inv bump v s" and "job_finished (cl s) = JOB_NUM"
  shows "real_jobs (job_todo (c_peer (cl s))) = []" and "real_jobs (job_tosend (c_peer (cl s))) = []"
    and "real_jobs (job_todo (sv s)) = []" and "real_jobs (job_tosend (sv s)) = []"
    and "msgs_jobs (cs s) = []" and "msgs_jobs (sc s) = []" and "cur_job (cl_main s) = []" and "cur_job (sv_worker s) = []"
proof -
  have "length (inflight s) = 0" using assms by (simp add: sys_inv_def place_inv_def del: length_0_conv)
  then show "real_jobs (job_todo (c_peer (cl s))) = []" "real_jobs (job_tosend (c_peer (cl s))) = []"
    "real_jobs (job_todo (sv s)) = []" "real_jobs (job_tosend (sv s)) = []"
    "msgs_jobs (cs s) = []" "msgs_jobs (sc s) = []" "cur_job (cl_main s) = []" "cur_job (sv_worker s) = []"
    by (simp_all add: place_simps)
qed


text \<open>The state when the last job is counted.\<close>

lemma ending_begins:
  assumes "sys_inv bump v s" and "job_finished (cl s) = JOB_NUM" and "sys_live s"
  shows "ending s"
proof -
  have "job_todo (c_peer (cl s)) = []" "job_tosend (c_peer (cl s)) = []" "job_todo (sv s) = []"
    using finished_nothing_left [OF assms(1,2)] assms(3) by (auto simp: sys_live_def real_jobs_id)
  moreover have "cl_main s \<in> {Check, Turn}"
    using finished_nothing_left(7) [OF assms(1,2)] assms(3) by (cases "cl_main s") (auto simp: sys_live_def)
  moreover have "state_small m" if "m \<in> set (sc s)" for m
    by (cases m) (use that assms(3) in \<open>auto simp: sys_live_def\<close>)
  ultimately show ?thesis using assms(3) by (auto simp: ending_def sys_live_def)
qed

text \<open>A state message finds no job to move.\<close>

lemma ending_state_begin:
  assumes "ending s" and "cl_reader s \<noteq> Ended" and "StateMsg n th cpu \<in> set (sc s)"
    and "state_begin fi n th cpu (c_peer (cl s)) = Inr (k, p, out)"
  shows "k = 0"
proof -
  have n: "0 \<le> n" "n \<le> 1024" and q: "job_todo (c_peer (cl s)) = []" using assms(1-3) by (auto simp: ending_def)
  have "s32 (- n) = - n" using n by (intro s32_id) (simp add: c_int_def)
  then show ?thesis using assms(4) n q
    by (auto simp: state_begin_def adaptor_begin_def Let_def bind_r_Inr_iff DIFF_THRESHOLD_def split: if_splits)
qed

lemma finished_handle_end:
  assumes "finished_inv bump v s" and "cl_reader s = Turn" and "sc s = m # ms"
    and "client_handle fi m (cl s) = Some (Inr (k, c, out))"
  shows "k = 0 \<and> job_finished c = JOB_NUM \<and> job_todo (c_peer c) = [] \<and> job_tosend (c_peer c) = job_tosend (c_peer (cl s))"
proof (cases m)
  case (DataMsg jid b)
  have "msgs_jobs (sc s) = []" using assms(1) finished_nothing_left(6) by (auto simp: finished_inv_def)
  then show ?thesis using assms(3) DataMsg by simp
next
  case (StateMsg n th cpu)
  obtain p where p: "state_begin fi n th cpu (c_peer (cl s)) = Inr (k, p, out)" and c: "c = (cl s)\<lparr>c_peer := p\<rparr>"
    using assms(4) StateMsg by (auto simp: bind_r_Inr_iff)
  have "k = 0" using ending_state_begin [OF _ _ _ p] assms(1-3) StateMsg by (simp add: finished_inv_def)
  then show ?thesis using assms(1,2) state_begin_asks(2,3) [OF p] c by (auto simp: finished_inv_def ending_def)
qed (use assms in \<open>auto simp: finished_inv_def ending_def\<close>)

text \<open>Every step keeps the invariant, and the height unless the client takes a turn.\<close>

definition settles :: "system \<Rightarrow> system \<Rightarrow> bool" where
  "settles s t \<longleftrightarrow> job_finished (cl t) = JOB_NUM \<and> ending t \<and> client_height t \<le> client_height s
     \<and> (client_threads t \<noteq> client_threads s \<longrightarrow> client_height t < client_height s)"

lemmas settle_simps = settles_def ending_def client_threads_def client_height_def

lemma settle_client:
  assumes "finished_inv bump v s"
  shows "cl_main s = Check \<Longrightarrow> main_check (cl s) = Some (th, c) \<Longrightarrow> settles s (s\<lparr>cl := c, cl_main := th\<rparr>)"
    and "cl_main s = Turn \<Longrightarrow> main_take (cl s) = Some (th, c) \<Longrightarrow> settles s (s\<lparr>cl := c, cl_main := th\<rparr>)"
    and "cl_main s \<noteq> Computing j"
    and "cl_writer s = Check \<Longrightarrow> settles s (s\<lparr>cl_writer := writer_check (cl s)\<rparr>)"
    and "cl_writer s = Turn \<Longrightarrow> writer_turn (c_peer (cl s)) = Some (Inr (p, m)) \<Longrightarrow>
      settles s (s\<lparr>cl := (cl s)\<lparr>c_peer := p\<rparr>, cs := cs s @ [m], cl_writer := Check\<rparr>)"
    and "cl_reader s = Check \<Longrightarrow> reader_check (cl s) = Some (th, c) \<Longrightarrow> settles s (s\<lparr>cl := c, cl_reader := th\<rparr>)"
    and "cl_reader s = Moving (Suc n) \<Longrightarrow> move_turn (c_peer (cl s)) = None"
proof -
  have e: "ending s" and f: "job_finished (cl s) = JOB_NUM" using assms by (auto simp: finished_inv_def)
  show "settles s (s\<lparr>cl := c, cl_main := th\<rparr>)" if "cl_main s = Check" "main_check (cl s) = Some (th, c)"
    using that e f by (auto simp: settle_simps main_check_def qpush_def split: if_splits)
  show "settles s (s\<lparr>cl := c, cl_main := th\<rparr>)" if "cl_main s = Turn" "main_take (cl s) = Some (th, c)"
    using that e f by (auto simp: settle_simps main_take_def worker_take_def split: if_splits)
  show "cl_main s \<noteq> Computing j" using e by (auto simp: ending_def)
  show "settles s (s\<lparr>cl_writer := writer_check (cl s)\<rparr>)" if "cl_writer s = Check"
    using that e f by (auto simp: settle_simps writer_check_def)
  show "settles s (s\<lparr>cl := (cl s)\<lparr>c_peer := p\<rparr>, cs := cs s @ [m], cl_writer := Check\<rparr>)"
    if "cl_writer s = Turn" "writer_turn (c_peer (cl s)) = Some (Inr (p, m))"
    using that e f by (auto simp: settle_simps writer_turn_def bind_r_Inr_iff split: if_splits)
  show "settles s (s\<lparr>cl := c, cl_reader := th\<rparr>)" if "cl_reader s = Check" "reader_check (cl s) = Some (th, c)"
    using that e f by (auto simp: settle_simps reader_check_def qpush_def split: if_splits)
  show "move_turn (c_peer (cl s)) = None" if "cl_reader s = Moving (Suc n)"
    using that e by (auto simp: ending_def move_turn_def)
qed

lemma settle_read:
  assumes "finished_inv bump v s" and "cl_reader s = Turn" and "sc s = m # ms"
    and "client_handle fi m (cl s) = Some (Inr (k, c, out))"
  shows "settles s (s\<lparr>cl := c, sc := ms, cs := cs s @ out, cl_reader := moving Check k\<rparr>)"
  using finished_handle_end [OF assms] assms(1-3)
  by (auto simp: settle_simps finished_inv_def moving_def split: if_splits)

lemma settle_sc:
  assumes "finished_inv bump v s" and "cl_reader s = Turn"
  shows "settles s (s\<lparr>sc := [], cl_reader := Check\<rparr>)" and "settles s (s\<lparr>cl_reader := Check\<rparr>)"
  using assms by (auto simp: settle_simps finished_inv_def split: if_splits)

text \<open>The server has nothing to compute or to move any more.\<close>

lemma settle_server:
  assumes "finished_inv bump v s"
  shows "cs s = m # ms \<Longrightarrow> server_handle fi m (sv s) = Some (Inr (k, p, out)) \<Longrightarrow>
      settles s (s\<lparr>sv := p, cs := ms, sc := sc s @ out, sv_reader := th\<rparr>)"
    and "move_turn (sv s) = None" and "worker_take (sv s) = None" and "sv_worker s \<noteq> Computing j"
    and "writer_turn (sv s) = Some (Inr (p, m)) \<Longrightarrow> settles s (s\<lparr>sv := p, sc := sc s @ [m], sv_writer := th\<rparr>)"
    and "settles s (s\<lparr>session_end := b\<rparr>)"
proof -
  have e: "ending s" and f: "job_finished (cl s) = JOB_NUM" and inv: "sys_inv bump v s"
    using assms by (auto simp: finished_inv_def)
  show "settles s (s\<lparr>sv := p, cs := ms, sc := sc s @ out, sv_reader := th\<rparr>)"
    if "cs s = m # ms" "server_handle fi m (sv s) = Some (Inr (k, p, out))"
  proof (cases m)
    case (DataMsg jid b)
    then show ?thesis using finished_nothing_left(5) [OF inv f] that(1) by simp
  next
    case (StateMsg n th' cpu)
    then have "state_begin fi n th' cpu (sv s) = Inr (k, p, out)" using that(2) by simp
    from state_begin_asks(1,2) [OF this] have "\<forall>m \<in> set out. state_small m" "job_todo p = job_todo (sv s)" by auto
    then show ?thesis using e f by (auto simp: settle_simps)
  qed (use that e f in \<open>auto simp: settle_simps qpush_def split: if_splits option.splits\<close>)
  show "move_turn (sv s) = None" "worker_take (sv s) = None"
    using e by (auto simp: ending_def move_turn_def worker_take_def)
  show "sv_worker s \<noteq> Computing j" using finished_nothing_left(8) [OF inv f] by auto
  show "settles s (s\<lparr>sv := p, sc := sc s @ [m], sv_writer := th\<rparr>)" if "writer_turn (sv s) = Some (Inr (p, m))"
  proof -
    have "movable (job_tosend (sv s))" "length (job_array (sv s)) = ARRAY_SIZE"
      using inv held_movable(4) data_invD(2) by (auto simp: sys_inv_def)
    from writer_turn_cases [OF that this] show ?thesis using e f by (auto simp: settle_simps)
  qed
  show "settles s (s\<lparr>session_end := b\<rparr>)" using e f by (auto simp: settle_simps)
qed

lemma settle_absurd:
  assumes "finished_inv bump v s"
  shows "cl_main s = Computing j \<Longrightarrow> settles s t"
    and "cl_reader s = Moving (Suc n) \<Longrightarrow> move_turn (c_peer (cl s)) = Some x \<Longrightarrow> settles s t"
    and "move_turn (sv s) = Some x \<Longrightarrow> settles s t" and "worker_take (sv s) = Some y \<Longrightarrow> settles s t"
    and "sv_worker s = Computing j \<Longrightarrow> settles s t"
  using settle_client(3,7) [OF assms] settle_server(2-4) [OF assms] by simp_all

lemma settle_turn: "sys_turn bump fi s t \<Longrightarrow> finished_inv bump v s \<Longrightarrow> settles s t"
  by (erule sys_turn.cases; hypsubst)
     (blast intro: settle_client(1,2,4-6) settle_server(1,5,6) settle_read settle_sc settle_absurd)+

lemma settle_step:
  assumes "sys_step bump fi s t" and "finished_inv bump v s"
  shows "settles s t"
  using assms(1)
proof cases
  case sys_turn
  then show ?thesis using settle_turn assms(2) by blast
qed (use assms(2) in \<open>auto simp: settle_simps finished_inv_def client_state_manager_def server_state_manager_def\<close>)

interpretation mp4_ends: settling_system "finished_inv bump v" "sys_step bump fi" "finished_inv bump v"
    client_threads client_height for bump fi v
proof unfold_locales
  fix s t
  assume inv: "finished_inv bump v s" and step: "sys_step bump fi s t"
  note st = settle_step [OF step inv]
  then show "finished_inv bump v t" using sys_inv_step [OF _ step] inv by (auto simp: finished_inv_def settles_def)
  show "client_height t \<le> client_height s" using st by (simp add: settles_def)
  show "client_height t < client_height s" if "client_threads t \<noteq> client_threads s"
    using st that by (simp add: settles_def)
qed

text \<open>Every reachable state with the last job finished satisfies the invariant.\<close>

definition run_inv :: "(u64 \<Rightarrow> u64) \<Rightarrow> u64 \<Rightarrow> system \<Rightarrow> bool" where
  "run_inv bump v s \<longleftrightarrow> sys_live_inv bump v s \<and> (job_finished (cl s) = JOB_NUM \<longrightarrow> ending s)"

lemma run_inv_step:
  assumes "run_inv bump v s" and "sys_step bump fi s t"
  shows "run_inv bump v t"
proof -
  have inv: "sys_inv bump v s" and l: "sys_live_inv bump v s"
    using assms(1) by (auto simp: run_inv_def sys_live_inv_def)
  have t: "sys_inv bump v t" "sys_live_inv bump v t" using sys_inv_step [OF inv assms(2)] sys_live_inv_step [OF l assms(2)] by auto
  have "ending t" if fin: "job_finished (cl t) = JOB_NUM"
  proof (cases "job_finished (cl s) = JOB_NUM")
    case True
    then have "finished_inv bump v s" using assms(1) inv by (simp add: run_inv_def finished_inv_def)
    from settle_step [OF assms(2) this] show ?thesis by (simp add: settles_def)
  next
    case False
    then have less: "job_finished (cl s) < JOB_NUM" using place_invD(2) [of s] inv by (simp add: sys_inv_def)
    from assms(2) show ?thesis
    proof cases
      case sys_turn
      then have "sys_live t" using turn_lowers [OF sys_turn inv _ less] l less by (simp add: lower_def sys_live_inv_def)
      then show ?thesis using ending_begins t(1) fin by blast
    qed (use False fin in auto)
  qed
  then show ?thesis using t(2) by (simp add: run_inv_def)
qed

interpretation mp4_whole: transition_system "\<lambda>s. s = sys_start v" "sys_step bump fi" "run_inv bump v" for bump fi v
proof unfold_locales
  show "run_inv bump v s" if "s = sys_start v" for s
    using that sys_live_start by (simp add: run_inv_def) (simp add: sys_start_def Let_def JOB_NUM_def)
qed (rule run_inv_step)

lemma finished_reachable:
  assumes "(sys_step bump fi)\<^sup>*\<^sup>* (sys_start v) s" and "job_finished (cl s) = JOB_NUM"
  shows "finished_inv bump v s"
  using mp4_whole.inv_reachable [OF refl assms(1)] assms(2)
  by (simp add: run_inv_def sys_live_inv_def finished_inv_def)

section \<open>What the client waits for\<close>

text \<open>
  A message, or the end of the connection behind the number -1 of the server; or, inside the
  balancer, a job that does not come.
\<close>

definition reader_waits :: "system \<Rightarrow> bool" where
  "reader_waits s \<longleftrightarrow>
     (case cl_reader s of
        Turn \<Rightarrow> (case sc s of
            [] \<Rightarrow> \<not> session_end s
          | m # ms \<Rightarrow> m = EndMsg \<and> \<not> (session_end s \<and> sum_list (map wire_size ms) < 8 * nat JOB_SIZE))
      | Moving k \<Rightarrow> True
      | _ \<Rightarrow> False)"

lemma finished_handle_enabled:
  assumes "finished_inv bump v s" and "sc s = m # ms" and "m \<noteq> EndMsg"
  shows "\<exists>k c out. client_handle fi m (cl s) = Some (Inr (k, c, out))"
proof (cases m)
  case (DataMsg jid b)
  have "msgs_jobs (sc s) = []" using assms(1) finished_nothing_left(6) by (auto simp: finished_inv_def)
  then show ?thesis using assms(2) DataMsg by simp
next
  case (StateMsg n th cpu)
  then show ?thesis using state_begin_no_fault [of fi n th cpu "c_peer (cl s)"]
    by (cases "state_begin fi n th cpu (c_peer (cl s))") auto
qed (use assms(3) in auto)

lemma reader_turn_exists:
  assumes "finished_inv bump v s" and "cl_reader s \<noteq> Ended" and "\<not> reader_waits s"
  shows "\<exists>t. sys_turn bump fi s t \<and> cl_reader t = (if cl_reader s = Check then Ended else Check)"
proof (cases "cl_reader s")
  case Check
  have "reader_check (cl s) = Some (Ended, (cl s)\<lparr>c_peer := (c_peer (cl s))\<lparr>job_todo := [- 1]\<rparr>\<rparr>)"
    using assms(1) Check by (simp add: finished_inv_def ending_def reader_check_def qpush_def JOB_NUM_def)
  from sys_reader_check [OF Check this, of bump fi] show ?thesis using Check by force
next
  case Turn
  show ?thesis
  proof (cases "sc s")
    case Nil
    then have "session_end s" using Turn assms(3) by (simp add: reader_waits_def)
    from sys_client_closed [OF Turn this Nil, of bump fi] show ?thesis using Turn by force
  next
    case (Cons m ms)
    show ?thesis
    proof (cases "m = EndMsg")
      case True
      then have "session_end s" "sum_list (map wire_size ms) < 8 * nat JOB_SIZE"
        using Turn Cons assms(3) by (auto simp: reader_waits_def)
      from sys_client_end [OF Turn this(1) _ this(2), of bump fi] show ?thesis using Turn Cons True by force
    next
      case False
      then obtain k c out where h: "client_handle fi m (cl s) = Some (Inr (k, c, out))"
        using finished_handle_enabled [OF assms(1) Cons] by blast
      have "k = 0" using finished_handle_end [OF assms(1) Turn Cons h] by simp
      then show ?thesis using sys_client_read [OF Turn Cons h, of bump] Turn by (force simp: moving_def)
    qed
  qed
next
  case (Moving k)
  then show ?thesis using assms(3) by (simp add: reader_waits_def)
qed (use assms in \<open>auto simp: finished_inv_def ending_def\<close>)

lemma client_turn_exists:
  assumes "finished_inv bump v s" and "client_threads s \<noteq> (Ended, Ended, Ended)" and "\<not> reader_waits s"
  shows "\<exists>t. sys_turn bump fi s t \<and> client_threads t \<noteq> client_threads s"
proof -
  have e: "ending s" and f: "job_finished (cl s) = JOB_NUM" and inv: "sys_inv bump v s"
    using assms(1) by (auto simp: finished_inv_def)
  consider "cl_reader s \<noteq> Ended" | "cl_reader s = Ended" "cl_main s = Check" | "cl_reader s = Ended" "cl_main s = Turn"
    | "cl_main s = Ended" "cl_writer s = Check" | "cl_main s = Ended" "cl_writer s = Turn"
    using e assms(2) by (auto simp: ending_def client_threads_def)
  then show ?thesis
  proof cases
    case 1
    from reader_turn_exists [OF assms(1) this assms(3), of fi] show ?thesis using 1
      by (auto simp: client_threads_def split: if_splits)
  next
    case 2
    then have "main_check (cl s) = Some (Ended, (cl s)\<lparr>c_peer := (c_peer (cl s))\<lparr>job_tosend := [- 1]\<rparr>\<rparr>)"
      using e f by (simp add: ending_def main_check_def qpush_def JOB_NUM_def)
    from sys_main_check [OF 2(2) this, of bump fi] show ?thesis using 2 by (force simp: client_threads_def)
  next
    case 3
    then have "main_take (cl s) = Some (Check, (cl s)\<lparr>c_peer := (c_peer (cl s))\<lparr>job_todo := []\<rparr>\<rparr>)"
      using e by (simp add: ending_def main_take_def worker_take_def)
    from sys_main_take [OF 3(2) this, of bump fi] show ?thesis using 3 by (force simp: client_threads_def)
  next
    case 4
    from sys_writer_check [OF 4(2), of bump fi] show ?thesis using 4 f
      by (force simp: client_threads_def writer_check_def)
  next
    case 5
    then have "writer_turn (c_peer (cl s)) = Some (Inr ((c_peer (cl s))\<lparr>job_tosend := []\<rparr>, EndMsg))"
      using e by (simp add: ending_def writer_turn_def transfer_msg_def)
    from sys_client_write [OF 5(2) this, of bump fi] show ?thesis using 5 by (force simp: client_threads_def)
  qed
qed

lemma client_height_le: "finished_inv bump v s \<Longrightarrow> client_height s \<le> 6"
  by (auto simp: finished_inv_def ending_def client_height_def) (cases "cl_reader s"; simp)+

section \<open>A server that is not told\<close>

text \<open>
  The writer of the client tests the counter before it takes an entry of its queue. If it does so
  after the last job is counted it ends and the mark -1 stays in the queue.
\<close>

definition untold :: "system \<Rightarrow> bool" where
  "untold s \<longleftrightarrow> cl_writer s = Ended \<and> EndMsg \<notin> set (cs s) \<and> - 1 \<notin> set (job_tosend (sv s))
     \<and> EndMsg \<notin> set (sc s) \<and> sv_writer s = Turn \<and> \<not> session_end s"

lemma state_begin_no_end:
  assumes "state_begin fi n th cpu p = Inr (k, p', out)"
  shows "EndMsg \<notin> set out \<and> job_tosend p' = job_tosend p"
  using state_begin_asks(1,3) [OF assms] by auto

lemma handle_no_end:
  "client_handle fi m c = Some (Inr (k, c', out)) \<Longrightarrow> EndMsg \<notin> set out"
  "server_handle fi m p = Some (Inr (k, p', out)) \<Longrightarrow> EndMsg \<notin> set out"
  "server_handle fi m p = Some (Inr (k, p', out)) \<Longrightarrow> m \<noteq> EndMsg \<Longrightarrow> job_tosend p' = job_tosend p"
  by (cases m; auto simp: Let_def bind_r_Inr_iff dest!: state_begin_no_end split: if_splits sum.splits option.splits)+

lemma untold_turn:
  assumes "sys_turn bump fi s t" and "finished_inv bump v s" and "untold s"
  shows "untold t"
  using assms(1)
proof cases
  case (sys_client_move k go p out)
  then show ?thesis using settle_client(7) [OF assms(2)] by simp
next
  case (sys_server_move k go p out)
  then show ?thesis using settle_server(2) [OF assms(2)] by simp
next
  case (sys_worker_finish j p)
  then show ?thesis using settle_server(4) [OF assms(2)] by simp
next
  case (sys_server_read m ms k p out)
  then show ?thesis using assms(3) handle_no_end(2,3) [OF sys_server_read(5)] by (auto simp: untold_def)
next
  case (sys_client_read m ms k c out)
  then show ?thesis using assms(3) handle_no_end(1) [OF sys_client_read(4)] by (auto simp: untold_def)
next
  case (sys_server_write p m)
  have "job_tosend (sv s) = []"
    using assms(2,3) finished_nothing_left(4) [of bump v s] by (auto simp: finished_inv_def untold_def real_jobs_id)
  then show ?thesis using sys_server_write by (simp add: writer_turn_def)
next
  case (sys_worker_take j p)
  then show ?thesis using settle_server(3) [OF assms(2)] by simp
qed (use assms(3) in \<open>auto simp: untold_def\<close>)

lemma untold_step:
  assumes "sys_step bump fi s t" and "finished_inv bump v s \<and> untold s"
  shows "finished_inv bump v t \<and> untold t"
proof -
  have "untold t" using assms(1)
  proof cases
    case sys_turn
    then show ?thesis using untold_turn assms(2) by blast
  qed (use assms(2) in \<open>auto simp: untold_def client_state_manager_def server_state_manager_def\<close>)
  then show ?thesis using mp4_ends.inv_step [OF _ assms(1)] assms(2) by blast
qed

interpretation mp4_untold: transition_system "\<lambda>s. finished_inv bump v s \<and> untold s" "sys_step bump fi"
    "\<lambda>s. finished_inv bump v s \<and> untold s" for bump fi v
  by unfold_locales (auto dest: untold_step)

text \<open>All threads of such a client can still end: the state messages of the server let the reader go on.\<close>

lemma not_moving_step:
  assumes "sys_step bump fi s t" and "finished_inv bump v s" and "\<And>k. cl_reader s \<noteq> Moving k"
  shows "cl_reader t \<noteq> Moving k"
  using assms(1)
proof cases
  case sys_turn
  then show ?thesis
  proof cases
    case (sys_client_read m ms k c out)
    then show ?thesis using finished_handle_end [OF assms(2) sys_client_read(2-4)] by (simp add: moving_def)
  qed (use assms(3) in \<open>auto simp: reader_check_def split: if_splits option.splits\<close>)
qed (use assms(3) in auto)

lemma untold_not_waiting:
  assumes "finished_inv bump v s" and "untold s" and "\<And>k. cl_reader s \<noteq> Moving k"
  shows "\<exists>t. (sys_step bump fi)\<^sup>*\<^sup>* s t \<and> client_threads t = client_threads s \<and> \<not> reader_waits t"
proof (cases "cl_reader s = Turn \<and> sc s = []")
  case True
  let ?t = "s\<lparr>sc := sc s @ [server_state_manager (sv s) 0 0]\<rparr>"
  have "sys_step bump fi s ?t" using assms(2) by (intro sys_server_state) (simp add: untold_def)
  moreover have "client_threads ?t = client_threads s" "\<not> reader_waits ?t"
    using True by (simp_all add: client_threads_def reader_waits_def server_state_manager_def)
  ultimately show ?thesis by blast
next
  case False
  have "\<not> reader_waits s" using False assms(2,3)
    by (cases "cl_reader s"; cases "sc s") (auto simp: reader_waits_def untold_def)
  then show ?thesis by blast
qed

lemma untold_client_ends:
  "finished_inv bump v s \<Longrightarrow> untold s \<Longrightarrow> (\<And>k. cl_reader s \<noteq> Moving k) \<Longrightarrow>
   \<exists>t. (sys_step bump fi)\<^sup>*\<^sup>* s t \<and> client_threads t = (Ended, Ended, Ended)"
proof (induction "client_height s" arbitrary: s rule: less_induct)
  case less
  show ?case
  proof (cases "client_threads s = (Ended, Ended, Ended)")
    case False
    obtain t where t: "(sys_step bump fi)\<^sup>*\<^sup>* s t" "client_threads t = client_threads s" "\<not> reader_waits t"
      using untold_not_waiting less.prems by blast
    have inv: "finished_inv bump v t" "untold t" using mp4_untold.inv_steps [OF t(1)] less.prems by blast+
    obtain u where u: "sys_step bump fi t u" "client_threads u \<noteq> client_threads t"
      using client_turn_exists [OF inv(1) _ t(3)] t(2) False sys_turn by metis
    have "finished_inv bump v u" "untold u" using untold_step [OF u(1)] inv by blast+
    moreover have "cl_reader u \<noteq> Moving k" for k
      using not_moving_step [OF u(1) inv(1)] less.prems(3) t(2) by (auto simp: client_threads_def)
    moreover have "client_height u < client_height s"
      using mp4_ends.view_height [OF inv(1) u] t(2) by (simp add: client_height_def client_threads_def)
    ultimately obtain w where "(sys_step bump fi)\<^sup>*\<^sup>* u w" "client_threads w = (Ended, Ended, Ended)"
      using less.hyps by blast
    then show ?thesis using t(1) u(1) by (meson converse_rtranclp_into_rtranclp rtranclp_trans)
  qed blast
qed

text \<open>A run without state messages in which the writer does not look at its empty queue.\<close>

definition lazy_turn :: "(u64 \<Rightarrow> u64) \<Rightarrow> (int \<Rightarrow> u32) \<Rightarrow> system \<Rightarrow> system \<Rightarrow> bool" where
  "lazy_turn bump fi s t \<longleftrightarrow> job_finished (cl s) < JOB_NUM \<and> working_turn bump fi s t"

definition lazy_inv :: "(u64 \<Rightarrow> u64) \<Rightarrow> u64 \<Rightarrow> system \<Rightarrow> bool" where
  "lazy_inv bump v s \<longleftrightarrow> sys_inv bump v s \<and> sys_live s \<and> quiet s
     \<and> (cl_writer s = Turn \<longrightarrow> job_tosend (c_peer (cl s)) \<noteq> [])"

lemma handle_tosend: "client_handle fi m c = Some (Inr (k, c', out)) \<Longrightarrow> job_tosend (c_peer c') = job_tosend (c_peer c)"
  by (cases m) (auto simp: Let_def bind_r_Inr_iff dest!: state_begin_no_end split: if_splits sum.splits option.splits)

lemma writer_has_work:
  assumes "sys_turn bump fi s t" and "idle_writer s \<longrightarrow> cl_writer t = Check"
    and "cl_writer s \<in> {Check, Turn}" and "cl_writer s = Turn \<longrightarrow> job_tosend (c_peer (cl s)) \<noteq> []"
  shows "cl_writer t = Turn \<longrightarrow> job_tosend (c_peer (cl t)) \<noteq> []"
  using assms(1)
proof cases
  case (sys_client_read m ms k c out)
  then show ?thesis using assms(4) handle_tosend [OF sys_client_read(4)] by simp
next
  case (sys_client_move k go p out)
  have "job_tosend p = job_tosend (c_peer (cl s))"
    using sys_client_move(3) by (auto simp: move_turn_def bind_r_Inr_iff split: option.splits if_splits)
  then show ?thesis using sys_client_move assms(4) by simp
qed (use assms(2-4) in \<open>auto simp: idle_writer_def main_check_def main_take_def worker_take_def main_finish_def reader_check_def
      qpush_def bind_r_Inr_iff split: if_splits option.splits\<close>)

interpretation mp4_lazy: progress_system "\<lambda>s. s = sys_start v" "lazy_turn bump fi" "lazy_inv bump v"
    "lazy_turn bump fi" "\<lambda>s. JOB_NUM \<le> job_finished (cl s)" sys_rank for bump fi v
proof unfold_locales
  fix s t
  show "lazy_inv bump v s" if "s = sys_start v"
    using that sys_live_start [of bump v] sys_inv_start [of bump v]
    by (auto simp: lazy_inv_def sys_live_inv_def quiet_def sys_start_def Let_def JOB_NUM_def)
  show "lazy_inv bump v t" if "lazy_inv bump v s" "lazy_turn bump fi s t"
  proof -
    have turn: "sys_turn bump fi s t" and less: "job_finished (cl s) < JOB_NUM" and w: "idle_writer s \<longrightarrow> cl_writer t = Check"
      using that(2) by (auto simp: lazy_turn_def working_turn_def)
    have inv: "sys_inv bump v s" "sys_live s" "quiet s" "cl_writer s = Turn \<longrightarrow> job_tosend (c_peer (cl s)) \<noteq> []"
      using that(1) by (auto simp: lazy_inv_def)
    have "cl_writer s \<in> {Check, Turn}" using inv(2) by (simp add: sys_live_def)
    from writer_has_work [OF turn w this inv(4)] show ?thesis
      using sys_inv_turn [OF inv(1) turn] turn_lowers [OF turn inv(1,2) less] quiet_turn [OF turn inv(3)]
      by (simp add: lazy_inv_def lower_def)
  qed
  assume g: "lazy_inv bump v s" "\<not> JOB_NUM \<le> job_finished (cl s)"
  then show "\<exists>t. lazy_turn bump fi s t"
    using working_turn_exists [of bump v s fi] quiet_not_waiting [of s]
    by (auto simp: lazy_turn_def lazy_inv_def sys_live_inv_def)
  show "sys_rank t < sys_rank s" if "lazy_turn bump fi s t"
    using that turn_lowers [of bump fi s t v] g by (auto simp: lazy_turn_def working_turn_def lazy_inv_def lower_def)
qed

lemma untold_reachable:
  "\<exists>s. (sys_step bump fi)\<^sup>*\<^sup>* (sys_start v) s \<and> finished_inv bump v s \<and> untold s \<and> client_threads s = (Ended, Ended, Ended)"
proof -
  obtain s where s: "(lazy_turn bump fi)\<^sup>*\<^sup>* (sys_start v) s" "lazy_inv bump v s" "JOB_NUM \<le> job_finished (cl s)"
    using mp4_lazy.goal_reachable [OF mp4_lazy.inv_init [OF refl]] by blast
  have inv: "sys_inv bump v s" and l: "sys_live s" and q: "quiet s" using s(2) by (auto simp: lazy_inv_def)
  have run: "(sys_step bump fi)\<^sup>*\<^sup>* (sys_start v) s"
    using s(1) by (rule mono_rtranclp [rule_format, rotated]) (auto simp: lazy_turn_def working_turn_def intro: sys_turn)
  have fin: "job_finished (cl s) = JOB_NUM" using s(3) inv place_invD(2) [of s] by (simp add: sys_inv_def)
  have f: "finished_inv bump v s" using inv fin ending_begins [OF inv fin l] by (simp add: finished_inv_def)
  have "job_tosend (c_peer (cl s)) = []" using f l by (auto simp: finished_inv_def ending_def sys_live_def)
  then have w: "cl_writer s = Check" using l s(2) by (auto simp: lazy_inv_def sys_live_def)
  let ?t = "s\<lparr>cl_writer := Ended\<rparr>"
  have step: "sys_step bump fi s ?t" using sys_turn [OF sys_writer_check [OF w]] fin by (simp add: writer_check_def)
  have t: "finished_inv bump v ?t" using mp4_ends.inv_step [OF f step] .
  have "untold ?t" using l by (auto simp: untold_def sys_live_def)
  moreover have "cl_reader ?t \<noteq> Moving k" for k using q by (simp add: quiet_def)
  ultimately obtain u where u: "(sys_step bump fi)\<^sup>*\<^sup>* ?t u" "client_threads u = (Ended, Ended, Ended)"
    using untold_client_ends [OF t] by blast
  then show ?thesis
    using run step mp4_untold.inv_steps [OF u(1)] t \<open>untold ?t\<close>
    by (intro exI [of _ u]) (auto intro: rtranclp_trans rtranclp.rtrancl_into_rtrancl)
qed

end
