(* ===== verification/MP4_Session.thy ===== *)
theory MP4_Session
  imports MP4_Jobs
begin

text \<open>
  The life of the MP4 server (\<^verbatim>\<open>src/MP4/server.c\<close>): the loop that accepts connections, the end of the
  thread that reads from the client, and the shutdown, which the writer starts after the last job
  and the user with SIGINT. What \<^verbatim>\<open>accept\<close> returns is an argument: a socket, or -1, which it may
  return at any time and returns always on the closed socket. Of the queues only their existence matters here, of the threads the sockets
  they were started for and the number of those that read; they all use the global \<^verbatim>\<open>clientFd\<close>.
\<close>

section \<open>State and operations\<close>

record server_session =
  sessionEnd :: bool
  clientFd :: int
  started :: "int list"
  readers :: nat
  open_fds :: "int list"
  listening :: bool
  accepting :: bool
  queues :: bool

text \<open>\<^verbatim>\<open>run_server\<close> before its loop.\<close>

definition session_start :: server_session where
  "session_start = \<lparr>sessionEnd = False, clientFd = - 1, started = [], readers = 0, open_fds = [],
     listening = True, accepting = False, queues = True\<rparr>"

text \<open>
  The loop of \<^verbatim>\<open>run_server\<close>: the test of \<^verbatim>\<open>sessionEnd\<close>, and the rest of the pass once \<^verbatim>\<open>accept\<close> has returned.
  A client that comes while another one is served is ignored; its socket stays open. The threads
  are started for the new \<^verbatim>\<open>clientFd\<close> whatever \<^verbatim>\<open>accept\<close> returned.
\<close>

definition accept_call :: "server_session \<Rightarrow> server_session" where
  "accept_call s = (if sessionEnd s then s else s\<lparr>accepting := True\<rparr>)"

definition accept_return :: "int \<Rightarrow> server_session \<Rightarrow> server_session" where
  "accept_return tmp_clientFd s =
     (let s = s\<lparr>accepting := False, open_fds := (if tmp_clientFd = - 1 then [] else [tmp_clientFd]) @ open_fds s\<rparr>
      in if clientFd s = - 1
         then s\<lparr>clientFd := tmp_clientFd, started := started s @ [tmp_clientFd], readers := Suc (readers s)\<rparr>
         else s)"

text \<open>
  One pass of \<^verbatim>\<open>process_client\<close> up to its handlers: at the end of the session the connection is closed
  and \<^verbatim>\<open>clientFd\<close> reset; a type that is not known ends the thread at once. The type is -2 when the
  connection is closed.
\<close>

definition process_client_turn :: "int \<Rightarrow> server_session \<Rightarrow> server_session" where
  "process_client_turn msg_type s =
     (if sessionEnd s
      then s\<lparr>open_fds := removeAll (clientFd s) (open_fds s), clientFd := - 1, readers := readers s - 1\<rparr>
      else if msg_type = MSG_TYPE_DATA \<or> msg_type = MSG_TYPE_STATE \<or> msg_type = MSG_TYPE_REBALANCE then s
      else s\<lparr>readers := readers s - 1\<rparr>)"

text \<open>\<^verbatim>\<open>close_server\<close>, the handler of SIGINT; the queues are freed.\<close>

definition close_server :: "server_session \<Rightarrow> server_session result" where
  "close_server s =
     (let s = s\<lparr>sessionEnd := True\<rparr>;
          s = (if clientFd s \<noteq> - 1 then s\<lparr>open_fds := removeAll (clientFd s) (open_fds s)\<rparr> else s);
          s = s\<lparr>listening := False\<rparr>
      in if queues s then Inr (s\<lparr>queues := False\<rparr>) else Inl UseAfterFree)"

text \<open>
  One pass of \<^verbatim>\<open>write_to_clients\<close> after the job was sent: the number -1 raises SIGINT. The queue is
  used again only if the session goes on.
\<close>

definition write_to_clients_end :: "int \<Rightarrow> server_session \<Rightarrow> server_session result" where
  "write_to_clients_end jobID s = (if jobID = - 1 then close_server s else Inr s)"

inductive session_step :: "server_session \<Rightarrow> server_session \<Rightarrow> bool" where
  se_call: "\<not> accepting s \<Longrightarrow> session_step s (accept_call s)"
| se_return: "accepting s \<Longrightarrow> fd = - 1 \<or> listening s \<and> 0 \<le> fd \<and> fd \<notin> set (open_fds s) \<Longrightarrow>
    session_step s (accept_return fd s)"
| se_read: "0 < readers s \<Longrightarrow> session_step s (process_client_turn msg_type s)"
| se_write: "started s \<noteq> [] \<Longrightarrow> \<not> sessionEnd s \<Longrightarrow> write_to_clients_end jobID s = Inr t \<Longrightarrow> session_step s t"
| se_signal: "close_server s = Inr t \<Longrightarrow> session_step s t"

section \<open>Invariant\<close>

text \<open>
  While the session goes on the threads were started for the socket -1, once for each \<^verbatim>\<open>accept\<close> that failed
  before a client came, and then for the client, if there is one; and the queues exist.
\<close>

definition session_inv :: "server_session \<Rightarrow> bool" where
  "session_inv s \<longleftrightarrow> (\<not> sessionEnd s \<longrightarrow> listening s \<and> queues s \<and> readers s \<le> length (started s)
       \<and> (\<exists>k. started s = replicate k (- 1) @ (if clientFd s = - 1 then [] else [clientFd s]))
       \<and> (clientFd s \<noteq> - 1 \<longrightarrow> 0 \<le> clientFd s \<and> clientFd s \<in> set (open_fds s)))
     \<and> (queues s \<longrightarrow> \<not> sessionEnd s)"

lemma close_server_cases:
  "close_server s = Inr t \<Longrightarrow> queues s \<and> sessionEnd t \<and> \<not> queues t \<and> started t = started s \<and> clientFd t = clientFd s
     \<and> readers t = readers s \<and> \<not> listening t"
  by (auto simp: close_server_def Let_def split: if_splits)

lemma session_inv_start: "session_inv session_start"
  by (simp add: session_inv_def session_start_def)

lemma session_inv_return:
  assumes "session_inv s" and "fd = - 1 \<or> listening s \<and> 0 \<le> fd \<and> fd \<notin> set (open_fds s)"
  shows "session_inv (accept_return fd s)"
proof (cases "sessionEnd s \<or> clientFd s \<noteq> - 1")
  case False
  then obtain k where k: "started s = replicate k (- 1)" using assms(1) by (auto simp: session_inv_def)
  have "started (accept_return fd s) = replicate (if fd = - 1 then Suc k else k) (- 1) @ (if fd = - 1 then [] else [fd])"
    using False k by (simp add: accept_return_def Let_def replicate_append_same)
  moreover have "clientFd (accept_return fd s) = fd" using False by (simp add: accept_return_def)
  ultimately have "\<exists>k. started (accept_return fd s) =
      replicate k (- 1) @ (if clientFd (accept_return fd s) = - 1 then [] else [clientFd (accept_return fd s)])"
    by metis
  then show ?thesis using assms False unfolding session_inv_def by (auto simp: accept_return_def Let_def)
qed (use assms(1) in \<open>auto simp: session_inv_def accept_return_def Let_def\<close>)

lemma session_inv_step: "session_step s t \<Longrightarrow> session_inv s \<Longrightarrow> session_inv t"
proof (induction rule: session_step.induct)
  case (se_return s fd)
  then show ?case using session_inv_return by blast
qed (auto simp: session_inv_def accept_call_def process_client_turn_def write_to_clients_end_def
      split: if_splits dest: close_server_cases)

interpretation mp4_session: transition_system "\<lambda>s. s = session_start" session_step session_inv
  by unfold_locales (auto intro: session_inv_start session_inv_step)

text \<open>After a client has left, no other one is served as long as the session goes on.\<close>

lemma client_gone_step:
  assumes "session_step s t" and "clientFd s \<noteq> - 1" and "readers s = 0" and "\<not> sessionEnd t"
  shows "clientFd t = clientFd s \<and> readers t = 0 \<and> started t = started s \<and> \<not> sessionEnd s"
  using assms
  by (cases rule: session_step.cases)
     (auto simp: accept_call_def accept_return_def process_client_turn_def write_to_clients_end_def Let_def
       split: if_splits dest: close_server_cases)

lemma session_end_stays: "session_step s t \<Longrightarrow> sessionEnd s \<Longrightarrow> sessionEnd t"
  by (erule session_step.cases)
     (auto simp: accept_call_def accept_return_def process_client_turn_def write_to_clients_end_def Let_def
       split: if_splits dest: close_server_cases)

lemma client_gone_steps:
  assumes "session_step\<^sup>*\<^sup>* s t" and "clientFd s \<noteq> - 1" and "readers s = 0"
  shows "\<not> sessionEnd t \<Longrightarrow> clientFd t = clientFd s \<and> readers t = 0 \<and> started t = started s"
  using assms(1)
proof (induction rule: rtranclp_induct)
  case (step t u)
  then have "\<not> sessionEnd t" using session_end_stays by blast
  then have "clientFd t = clientFd s \<and> readers t = 0 \<and> started t = started s" using step.IH by blast
  then show ?case using client_gone_step [OF step.hyps(2)] assms(2) step.prems by auto
qed (use assms in simp)

section \<open>Properties\<close>

text \<open>
  C27. The server serves one client. In every reachable state of a session that goes on its threads were started once for
  each \<^verbatim>\<open>accept\<close> that failed before there was a client, on the socket -1, and after that at most once for a client, the one
  in \<^verbatim>\<open>clientFd\<close>; at most as many threads read. And it serves one client only once: when the connection breaks, a
  reading thread returns without closing the socket or resetting \<^verbatim>\<open>clientFd\<close>, and when none is left,
  then until the server is shut down no new connection is served, whether \<^verbatim>\<open>accept\<close> succeeds or fails.
\<close>
theorem server_serves_one_client:
  assumes "session_step\<^sup>*\<^sup>* session_start s" and "\<not> sessionEnd s"
  shows "(\<exists>k. started s = replicate k (- 1) @ (if clientFd s = - 1 then [] else [clientFd s]))
     \<and> readers s \<le> length (started s)
     \<and> (clientFd s \<noteq> - 1 \<longrightarrow> readers (process_client_turn (- 2) s) = readers s - 1
          \<and> clientFd (process_client_turn (- 2) s) = clientFd s
          \<and> clientFd s \<in> set (open_fds (process_client_turn (- 2) s)))
     \<and> (\<forall>t. clientFd s \<noteq> - 1 \<and> readers s = 0 \<and> session_step\<^sup>*\<^sup>* s t \<and> \<not> sessionEnd t \<longrightarrow>
          clientFd t = clientFd s \<and> readers t = 0 \<and> started t = started s)"
proof -
  have inv: "session_inv s" using mp4_session.inv_reachable assms(1) by blast
  have "clientFd s \<noteq> - 1 \<longrightarrow> readers (process_client_turn (- 2) s) = readers s - 1
          \<and> clientFd (process_client_turn (- 2) s) = clientFd s
          \<and> clientFd s \<in> set (open_fds (process_client_turn (- 2) s))"
    using inv assms(2)
    by (simp add: session_inv_def process_client_turn_def MSG_TYPE_DATA_def MSG_TYPE_STATE_def MSG_TYPE_REBALANCE_def)
  then show ?thesis using inv assms(2) client_gone_steps [of s] unfolding session_inv_def by blast
qed

text \<open>The first \<^verbatim>\<open>accept\<close> fails, then a client comes and leaves, and both reading threads return.\<close>

definition demo_accepted :: server_session where
  "demo_accepted = accept_return 4 (accept_call (accept_return (- 1) (accept_call session_start)))"

definition demo_session :: server_session where
  "demo_session = process_client_turn (- 2) (process_client_turn (- 2) demo_accepted)"

lemmas demo_session_defs = process_client_turn_def accept_return_def accept_call_def session_start_def Let_def
  MSG_TYPE_DATA_def MSG_TYPE_STATE_def MSG_TYPE_REBALANCE_def demo_accepted_def

lemma demo_session_run: "session_step\<^sup>*\<^sup>* session_start demo_session"
proof -
  let ?a = "accept_call session_start" and ?b = "accept_return (- 1) (accept_call session_start)"
  have "session_step session_start ?a" by (rule se_call) (simp add: session_start_def)
  moreover have "session_step ?a ?b" by (rule se_return) (simp_all add: accept_call_def session_start_def)
  moreover have "session_step ?b (accept_call ?b)" by (rule se_call) (simp add: demo_session_defs)
  moreover have "session_step (accept_call ?b) demo_accepted"
    unfolding demo_accepted_def by (rule se_return) (simp_all add: accept_call_def accept_return_def session_start_def)
  moreover have "session_step demo_accepted (process_client_turn (- 2) demo_accepted)"
    by (rule se_read) (simp add: demo_session_defs)
  moreover have "session_step (process_client_turn (- 2) demo_accepted) demo_session"
    unfolding demo_session_def by (rule se_read) (simp add: demo_session_defs)
  ultimately show ?thesis by (meson rtranclp.rtrancl_into_rtrancl rtranclp.rtrancl_refl)
qed

theorem server_serves_one_client_witness:
  "started demo_session = [- 1, 4] \<and> readers demo_session = 0
     \<and> started (accept_return 5 (accept_call demo_session)) = [- 1, 4]"
proof -
  have d: "clientFd demo_session = 4" "readers demo_session = 0" "\<not> sessionEnd demo_session" "\<not> accepting demo_session"
      "open_fds demo_session = [4]" "listening demo_session" "started demo_session = [- 1, 4]"
    by (simp_all add: demo_session_def demo_session_defs)
  have "session_step demo_session (accept_call demo_session)" using d by (intro se_call)
  moreover have "session_step (accept_call demo_session) (accept_return 5 (accept_call demo_session))"
    using d by (intro se_return) (simp_all add: accept_call_def)
  ultimately have "session_step\<^sup>*\<^sup>* demo_session (accept_return 5 (accept_call demo_session))" by simp
  moreover have "\<not> sessionEnd (accept_return 5 (accept_call demo_session))"
    using d by (simp add: accept_call_def accept_return_def)
  ultimately show ?thesis
    using server_serves_one_client [OF demo_session_run d(3)] d by auto
qed

text \<open>
  C39. Shutdown. The end of the work and SIGINT free both queues once; a second SIGINT frees them
  again. When no client is connected, the pending \<^verbatim>\<open>accept\<close> then fails, and the server starts its
  threads (once more, if an \<^verbatim>\<open>accept\<close> has failed before) for the socket -1, on queues that no longer exist.
\<close>
theorem server_shutdown:
  assumes "session_step\<^sup>*\<^sup>* session_start s" and "\<not> sessionEnd s"
  shows "\<exists>t. write_to_clients_end (- 1) s = Inr t \<and> sessionEnd t \<and> \<not> queues t
     \<and> (clientFd s \<noteq> - 1 \<longrightarrow> clientFd s \<notin> set (open_fds t))
     \<and> close_server t = Inl UseAfterFree
     \<and> (clientFd s = - 1 \<and> accepting s \<longrightarrow>
          session_step t (accept_return (- 1) t) \<and> started (accept_return (- 1) t) = started s @ [- 1] \<and> \<not> queues (accept_return (- 1) t))"
proof -
  have inv: "session_inv s" using mp4_session.inv_reachable assms(1) by blast
  then have q: "queues s" using assms(2) by (simp add: session_inv_def)
  then obtain t where t: "close_server s = Inr t" by (cases "clientFd s = - 1") (auto simp: close_server_def Let_def)
  then have t': "sessionEnd t" "\<not> queues t" "\<not> listening t" "started t = started s" "clientFd t = clientFd s"
      "accepting t = accepting s" "clientFd s \<noteq> - 1 \<longrightarrow> clientFd s \<notin> set (open_fds t)"
    by (auto simp: close_server_def Let_def split: if_splits)
  have "session_step t (accept_return (- 1) t)" if "accepting s"
    using that t' by (intro se_return) simp_all
  then show ?thesis using t t'
    by (intro exI [of _ t]) (auto simp: write_to_clients_end_def close_server_def [of t] Let_def accept_return_def)
qed

theorem server_shutdown_witness:
  "\<exists>t. write_to_clients_end (- 1) (accept_call session_start) = Inr t \<and> close_server t = Inl UseAfterFree
     \<and> started (accept_return (- 1) t) = [- 1]"
proof -
  have "session_step\<^sup>*\<^sup>* session_start (accept_call session_start)"
    by (rule r_into_rtranclp, rule se_call) (simp add: session_start_def)
  moreover have "\<not> sessionEnd (accept_call session_start)" "clientFd (accept_call session_start) = - 1"
      "accepting (accept_call session_start)" "started (accept_call session_start) = []"
    by (simp_all add: accept_call_def session_start_def)
  ultimately show ?thesis using server_shutdown [of "accept_call session_start"] by auto
qed

end
