(* ===== verification/MP4_Console.thy ===== *)
theory MP4_Console
  imports MP4_Jobs C_Lib
begin

text \<open>
  The parts of MP4 that read text: the thread that lets the user change the throttle
  (\<^verbatim>\<open>update_throttle\<close>), the reading of the processor use (\<^verbatim>\<open>getInfo_fromMonitor\<close>, which nothing calls), and
  the source \<^verbatim>\<open>src/MP4/receiveJob.c\<close>, which is not built. Floating-point numbers are their bit patterns;
  the conversions and operations on them are parameters.
\<close>

section \<open>The throttle typed by the user\<close>

text \<open>
  One pass of the loop: \<open>to_float\<close> is \<^verbatim>\<open>atof\<close> with the conversion to \<^verbatim>\<open>float\<close>. The array \<^verbatim>\<open>digits\<close> is local to the body
  of the loop, and \<open>junk\<close> is what its ten bytes hold at the start of the pass. At the end of the input \<^verbatim>\<open>fgets\<close> leaves
  them as they are and they are converted: a string if there is a NUL among them, a read past the array otherwise.
\<close>

record console =
  stdin_text :: string
  throttle :: u32

definition update_throttle_turn :: "(string \<Rightarrow> u32) \<Rightarrow> string \<Rightarrow> console \<Rightarrow> console result" where
  "update_throttle_turn to_float junk s =
     (case fgets 10 (stdin_text s) of
        Some (line, rest) \<Rightarrow> Inr (s\<lparr>stdin_text := rest, throttle := to_float (cstr (line @ [NUL]))\<rparr>)
      | None \<Rightarrow> bind_r (cstr_at junk 0) (\<lambda>str. Inr (s\<lparr>throttle := to_float str\<rparr>)))"

text \<open>Some passes of the loop, each with what it finds in its array.\<close>

primrec update_throttle :: "(string \<Rightarrow> u32) \<Rightarrow> string list \<Rightarrow> console \<Rightarrow> console result" where
  "update_throttle to_float [] s = Inr s"
| "update_throttle to_float (junk # junks) s =
     bind_r (update_throttle_turn to_float junk s) (update_throttle to_float junks)"

text \<open>What one call of \<^verbatim>\<open>fgets\<close> takes of a line: nine characters, or the rest with the newline.\<close>

function line_pieces :: "string \<Rightarrow> string list" where
  "line_pieces l = (if length l \<le> 8 then [l @ [newline]] else take 9 l # line_pieces (drop 9 l))"
  by pat_completeness auto
termination by (relation "measure length") auto

declare line_pieces.simps [simp del]

definition is_piece :: "string \<Rightarrow> bool" where
  "is_piece q \<longleftrightarrow> NUL \<notin> set q \<and> (length q = 9 \<and> newline \<notin> set q
     \<or> (\<exists>l. q = l @ [newline] \<and> newline \<notin> set l \<and> length l \<le> 8))"

definition text_line :: "string \<Rightarrow> bool" where
  "text_line l \<longleftrightarrow> newline \<notin> set l \<and> NUL \<notin> set l"

lemma line_pieces_concat: "concat (line_pieces l) = l @ [newline]"
  by (induction l rule: line_pieces.induct) (subst line_pieces.simps, simp)

lemma line_pieces_pieces: "text_line l \<Longrightarrow> list_all is_piece (line_pieces l)"
proof (induction l rule: line_pieces.induct)
  case (1 l)
  show ?case
  proof (cases "length l \<le> 8")
    case True
    then show ?thesis using 1(2) by (subst line_pieces.simps) (simp add: is_piece_def text_line_def)
  next
    case False
    have "text_line (drop 9 l)" using 1(2) by (auto simp: text_line_def dest: in_set_dropD)
    then have "list_all is_piece (line_pieces (drop 9 l))" using 1(1) False by simp
    moreover have "is_piece (take 9 l)" using 1(2) False by (auto simp: is_piece_def text_line_def dest: in_set_takeD)
    ultimately show ?thesis using False by (subst line_pieces.simps) simp
  qed
qed

lemma fgets_piece:
  assumes "is_piece q"
  shows "fgets 10 (q @ rest) = Some (q, rest)"
proof -
  have "take_line 9 (q @ rest) = (q, rest)"
    using assms take_line_cut [of q rest] take_line_line [of _ 9 rest] by (auto simp: is_piece_def)
  moreover have "q \<noteq> []" using assms by (auto simp: is_piece_def)
  ultimately show ?thesis by (simp add: fgets_def)
qed

lemma update_throttle_pieces:
  assumes "stdin_text s = concat qs @ rest" and "list_all is_piece qs" and "length junks = length qs" and "qs \<noteq> []"
  shows "update_throttle to_float junks s = Inr (s\<lparr>stdin_text := rest, throttle := to_float (last qs)\<rparr>)"
  using assms
proof (induction qs arbitrary: s junks)
  case (Cons q qs)
  obtain junk js where j: "junks = junk # js" using Cons.prems(3) by (cases junks) auto
  let ?t = "s\<lparr>stdin_text := concat qs @ rest, throttle := to_float q\<rparr>"
  have "cstr (q @ [NUL]) = q" using Cons.prems(2) by (intro cstr_id) (simp add: is_piece_def)
  then have t: "update_throttle_turn to_float junk s = Inr ?t"
    using Cons.prems(1,2) fgets_piece [of q "concat qs @ rest"] by (simp add: update_throttle_turn_def)
  show ?case
  proof (cases "qs = []")
    case False
    then show ?thesis using Cons.IH [of ?t js] Cons.prems(2,3) t j by simp
  qed (use Cons.prems(3) t j in simp)
qed simp

text \<open>
  C40. The throttle follows the input while there is any. Lines of any length are taken in pieces of nine
  characters, the last piece of a line with its newline, and after \<open>k\<close> passes the throttle is the number that \<^verbatim>\<open>atof\<close> finds in the \<open>k\<close>-th
  piece and the input is what follows it, whatever the array held. So a line of up to eight characters is one number, and a longer one leaves the
  number in its last piece. When the input has ended, the loop goes on with the indeterminate bytes of its array: the
  throttle becomes the number they happen to spell, or the conversion runs past the array.
\<close>
theorem throttle_follows_input:
  assumes "stdin_text s = concat (map (\<lambda>l. l @ [newline]) ls) @ rest" and "list_all text_line ls"
    and "pieces = concat (map line_pieces ls)" and "0 < k" and "k \<le> length pieces" and "length junks = k"
    and "stdin_text s' = []" and "junk \<noteq> []"
  shows "update_throttle to_float junks s =
           Inr (s\<lparr>stdin_text := concat (drop k pieces) @ rest, throttle := to_float (pieces ! (k - 1))\<rparr>)
     \<and> update_throttle to_float [junk] s' =
           (if NUL \<in> set junk then Inr (s'\<lparr>throttle := to_float (cstr junk)\<rparr>) else Inl OutOfBounds)"
proof -
  have "concat pieces = concat (map (\<lambda>l. l @ [newline]) ls)"
    unfolding assms(3) by (induction ls) (simp_all add: line_pieces_concat)
  then have "stdin_text s = concat (take k pieces) @ concat (drop k pieces) @ rest"
    using assms(1) by (metis append.assoc append_take_drop_id concat_append)
  moreover have "list_all is_piece pieces"
    using assms(2) line_pieces_pieces unfolding assms(3) by (induction ls) auto
  then have "list_all is_piece (take k pieces)" by (auto simp: list_all_iff dest: in_set_takeD)
  moreover have "take k pieces \<noteq> []" using assms(4,5) by auto
  moreover from this have "last (take k pieces) = pieces ! (k - 1)"
    using assms(4,5) by (simp add: last_conv_nth min_def)
  ultimately have "update_throttle to_float junks s =
      Inr (s\<lparr>stdin_text := concat (drop k pieces) @ rest, throttle := to_float (pieces ! (k - 1))\<rparr>)"
    using update_throttle_pieces [of s "take k pieces" "concat (drop k pieces) @ rest" junks to_float] assms(5,6) by simp
  then show ?thesis using assms(7,8) by (simp add: update_throttle_turn_def fgets_def cstr_at_def)
qed

text \<open>The line 0.123456789 is taken for 0.1234567 and then for 89.\<close>

theorem throttle_follows_input_witness:
  "update_throttle (\<lambda>l. of_nat (length l)) [[], []] \<lparr>stdin_text = ''0.123456789'' @ [newline], throttle = 1\<rparr>
     = Inr \<lparr>stdin_text = [], throttle = 3\<rparr>"
  using throttle_follows_input [of "\<lparr>stdin_text = ''0.123456789'' @ [newline], throttle = 1\<rparr>" "[''0.123456789'']" "[]" _ 2 "[[], []]"
      "\<lparr>stdin_text = [], throttle = 1\<rparr>" "''x''" "\<lambda>l. of_nat (length l)", OF _ _ refl]
  by (simp add: text_line_def line_pieces.simps)

section \<open>The use of the processor\<close>

text \<open>
  \<^verbatim>\<open>fscanf\<close> with \<^verbatim>\<open>%*s\<close> and four times \<^verbatim>\<open>%lf\<close>: \<open>skip_word\<close> drops the first word, \<open>scan_lf\<close> reads a number;
  the first failure ends the scan and leaves the later entries of the array as they are. \<^verbatim>\<open>fopen\<close> may
  fail, and the result is not tested.
\<close>

fun fscanf_lf :: "(string \<Rightarrow> (u64 \<times> string) option) \<Rightarrow> nat \<Rightarrow> nat \<Rightarrow> string \<Rightarrow> u64 list \<Rightarrow> u64 list" where
  "fscanf_lf scan_lf 0 i inp a = a"
| "fscanf_lf scan_lf (Suc n) i inp a =
     (case scan_lf inp of None \<Rightarrow> a | Some (x, rest) \<Rightarrow> fscanf_lf scan_lf n (Suc i) rest (a[i := x]))"

definition getInfo_fromMonitor ::
  "(string \<Rightarrow> string option) \<Rightarrow> (string \<Rightarrow> (u64 \<times> string) option) \<Rightarrow> (u64 \<Rightarrow> u64 \<Rightarrow> u64) \<Rightarrow> (u64 \<Rightarrow> u64 \<Rightarrow> u64)
     \<Rightarrow> string option \<Rightarrow> u64 list \<Rightarrow> u64 result" where
  "getInfo_fromMonitor skip_word scan_lf fadd fdiv proc_stat a =
     (case proc_stat of
        None \<Rightarrow> Inl NullDeref
      | Some inp \<Rightarrow>
          let a = (case skip_word inp of None \<Rightarrow> a | Some rest \<Rightarrow> fscanf_lf scan_lf 4 0 rest a)
          in Inr (fdiv (fadd (fadd (a ! 0) (a ! 1)) (a ! 2)) (fadd (fadd (fadd (a ! 0) (a ! 1)) (a ! 2)) (a ! 3))))"

text \<open>When all four numbers are there, the junk in the array does not matter.\<close>

lemma getInfo_reads_four:
  assumes "skip_word inp = Some r0" and "scan_lf r0 = Some (u, r1)" and "scan_lf r1 = Some (n, r2)"
    and "scan_lf r2 = Some (y, r3)" and "scan_lf r3 = Some (d, r4)" and "length a = 4"
  shows "getInfo_fromMonitor skip_word scan_lf fadd fdiv (Some inp) a =
    Inr (fdiv (fadd (fadd u n) y) (fadd (fadd (fadd u n) y) d))"
  using assms by (simp add: getInfo_fromMonitor_def Let_def eval_nat_numeral)

section \<open>The unused source\<close>

text \<open>
  \<^verbatim>\<open>storeLocal\<close> of \<^verbatim>\<open>src/MP4/receiveJob.c\<close> ignores the number of the job: it stores every job in the place of
  job 0.
\<close>

definition storeLocal_unused :: "int \<Rightarrow> u64 list \<Rightarrow> u64 list \<Rightarrow> u64 list result" where
  "storeLocal_unused jobId d arr =
     (if length d < nat JOB_SIZE then Inl OutOfBounds else store_loop (take (nat JOB_SIZE) d) 0 arr)"

lemma storeLocal_unused_first: "storeLocal_unused jobId d arr = storeLocal 0 d arr"
  by (simp add: storeLocal_unused_def storeLocal_def s32_id c_int_def)

lemma storeLocal_unused_wrong:
  assumes "0 < j" and "j < 1024" and "length arr = ARRAY_SIZE" and "length b = 4096" and "block 0 arr \<noteq> b"
  shows "storeLocal_unused j b arr \<noteq> storeLocal j b arr"
proof -
  have "block 0 (set_block 0 b arr) = b" "block 0 (set_block (nat j) b arr) = block 0 arr"
    using assms block_set_block [of 0 0 arr b] block_set_block [of "nat j" 0 arr b] by simp_all
  then have "set_block 0 b arr \<noteq> set_block (nat j) b arr" using assms(5) by metis
  then show ?thesis
    using assms(1-4) storeLocal_block [of 0 arr b] storeLocal_block [of j arr b] by (simp add: storeLocal_unused_first)
qed

end
