(* ===== verification/MP4_Start.thy ===== *)
theory MP4_Start
  imports MP4_Progress MP4_Session MP4_Console MP4_Queue
begin

text \<open>
  How the two processes of MP4 start (\<^verbatim>\<open>main\<close>, \<^verbatim>\<open>run_client\<close> and \<^verbatim>\<open>run_server\<close> up to their loops) and what
  SIGINT does to the client (\<^verbatim>\<open>close_client\<close>, \<^verbatim>\<open>close_program\<close>). What the calls of the network library return is
  an argument: \<open>getaddrinfo\<close> gives a return value and an address, \<open>connect\<close>, \<open>bind\<close> and \<open>listen\<close> a return
  value, \<open>socket\<close> a descriptor. \<^verbatim>\<open>sscanf\<close> with \<^verbatim>\<open>%f\<close> is \<open>scan_f\<close>.
\<close>

section \<open>Starting\<close>

text \<open>A process that has left with an exit status, or goes on.\<close>

datatype 'a start = Exited int | Running 'a

definition run_client_connect ::
  "int \<Rightarrow> (string \<Rightarrow> string \<Rightarrow> int \<times> 'addr) \<Rightarrow> (int \<Rightarrow> 'addr \<Rightarrow> int) \<Rightarrow> string \<Rightarrow> string \<Rightarrow> int start" where
  "run_client_connect socket getaddrinfo connect host port =
     (let serverSocket = socket; (s, res) = getaddrinfo host port in
      if s \<noteq> 0 then Exited 1
      else if connect serverSocket res \<noteq> 0 then Exited 1
      else Running serverSocket)"

definition run_server_listen ::
  "int \<Rightarrow> (string \<Rightarrow> int \<times> 'addr) \<Rightarrow> (int \<Rightarrow> 'addr \<Rightarrow> int) \<Rightarrow> (int \<Rightarrow> int \<Rightarrow> int) \<Rightarrow> string \<Rightarrow> int start" where
  "run_server_listen socket getaddrinfo bind_fd listen port =
     (let serverSocket = socket; (s, res) = getaddrinfo port in
      if s \<noteq> 0 then Exited 1
      else if bind_fd serverSocket res \<noteq> 0 then Exited 1
      else if listen serverSocket 8 \<noteq> 0 then Exited 1
      else Running serverSocket)"

text \<open>The initial throttle of \<^verbatim>\<open>utils.c\<close>, the number 1, as a \<^verbatim>\<open>float\<close>.\<close>

definition throttle_init :: u32 where
  "throttle_init = 0x3F800000"

definition client_main ::
  "(string \<Rightarrow> u32 option) \<Rightarrow> int \<Rightarrow> (string \<Rightarrow> string \<Rightarrow> int \<times> 'addr) \<Rightarrow> (int \<Rightarrow> 'addr \<Rightarrow> int)
     \<Rightarrow> u64 \<Rightarrow> u64 list \<Rightarrow> string list \<Rightarrow> (u32 \<times> int \<times> client) start outcome" where
  "client_main scan_f socket getaddrinfo connect v arr argv =
     (if length argv < 4 \<or> length argv > 5 then Some (Inr (Exited 1))
      else let thr = (case scan_f (argv ! 3) of None \<Rightarrow> throttle_init | Some x \<Rightarrow> x) in
        case run_client_connect socket getaddrinfo connect (argv ! 1) (argv ! 2) of
          Exited n \<Rightarrow> Some (Inr (Exited n))
        | Running fd \<Rightarrow>
            (case client_init v arr of
               None \<Rightarrow> None
             | Some r \<Rightarrow> Some (bind_r r (\<lambda>c. Inr (Running (thr, fd, c))))))"

definition server_main ::
  "int \<Rightarrow> (string \<Rightarrow> int \<times> 'addr) \<Rightarrow> (int \<Rightarrow> 'addr \<Rightarrow> int) \<Rightarrow> (int \<Rightarrow> int \<Rightarrow> int)
     \<Rightarrow> u64 \<Rightarrow> u64 list \<Rightarrow> string list \<Rightarrow> (int \<times> peer) start result" where
  "server_main socket getaddrinfo bind_fd listen v arr argv =
     (if length argv \<noteq> 2 then Inr (Exited (- 1))
      else case run_server_listen socket getaddrinfo bind_fd listen (argv ! 1) of
             Exited n \<Rightarrow> Inr (Exited n)
           | Running fd \<Rightarrow> bind_r (server_init v arr) (\<lambda>p. Inr (Running (fd, p))))"

section \<open>SIGINT at the client\<close>

text \<open>
  The client as SIGINT sees it: its two queues, in the model of \<^verbatim>\<open>queue.c\<close>, through pointers; a pointer to a queue that was
  destroyed and freed is \<^term>\<open>None\<close>. \<^verbatim>\<open>close_client\<close> cancels the reader and the writer, closes the socket and destroys the
  queues. The main loop and the state thread are not stopped: the handler returns to them.
\<close>

record client_session =
  threads_cancelled :: bool
  client_socket :: bool
  todo_queue :: "queue_state option"
  tosend_queue :: "queue_state option"

definition SIGINT :: int where "SIGINT = 2"

definition destroy_at :: "queue_state option \<Rightarrow> queue_state option outcome" where
  "destroy_at r =
     (case r of
        None \<Rightarrow> Some (Inl UseAfterFree)
      | Some q \<Rightarrow> map_option (\<lambda>x. bind_r x (\<lambda>_. Inr None)) (queue_destroy q))"

definition close_client :: "client_session \<Rightarrow> client_session outcome" where
  "close_client s =
     (let s = s\<lparr>threads_cancelled := True, client_socket := False\<rparr> in
      case destroy_at (todo_queue s) of
        None \<Rightarrow> None
      | Some (Inl e) \<Rightarrow> Some (Inl e)
      | Some (Inr q) \<Rightarrow>
          map_option (\<lambda>x. bind_r x (\<lambda>q'. Inr (s\<lparr>todo_queue := q, tosend_queue := q'\<rparr>))) (destroy_at (tosend_queue s)))"

definition close_program :: "int \<Rightarrow> client_session \<Rightarrow> client_session outcome" where
  "close_program signal s = (if signal = SIGINT then close_client s else Some (Inr s))"

text \<open>
  What the main loop and the state thread do next: \<^verbatim>\<open>queue_pull(job_todo)\<close>, which waits while the queue is empty, and
  the reading of \<^verbatim>\<open>job_todo->size\<close>.
\<close>

definition main_pull :: "client_session \<Rightarrow> (int \<times> client_session) outcome" where
  "main_pull s =
     (case todo_queue s of
        None \<Rightarrow> Some (Inl UseAfterFree)
      | Some (h, q) \<Rightarrow>
          if pull_blocks q then None
          else Some (bind_r (queue_pull (h, q)) (\<lambda>(d, _, q'). Inr (d, s\<lparr>todo_queue := Some q'\<rparr>))))"

definition state_size :: "client_session \<Rightarrow> int result" where
  "state_size s = (case todo_queue s of None \<Rightarrow> Inl UseAfterFree | Some (h, q) \<Rightarrow> Inr (q_size q))"

text \<open>
  Before SIGINT the main loop gets the first job of the queue. The handler ends with both queues destroyed;
  after it the next use of a queue by the main loop or by the state thread is a use of freed memory, and a second SIGINT
  destroys the queues again.
\<close>

lemma sigint_frees_queues:
  assumes "todo_queue s = Some q" and "queue_rep q (j # js)" and "tosend_queue s = Some q'" and "queue_rep q' ks"
  shows "\<exists>u. main_pull s = Some (Inr (j, u))"
    and "\<exists>t. close_program SIGINT s = Some (Inr t) \<and> main_pull t = Some (Inl UseAfterFree)
           \<and> state_size t = Inl UseAfterFree \<and> close_program SIGINT t = Some (Inl UseAfterFree)"
proof -
  obtain h r where q: "q = (h, r)" by fastforce
  obtain b q2 where "queue_pull (h, r) = Inr (j, b, q2)"
    using queue_pull_rep [of h r j js] assms(2) q by auto
  moreover have "\<not> pull_blocks r" using queue_rep_size [of h r "j # js"] assms(2) q by (simp add: pull_blocks_def)
  ultimately show "\<exists>u. main_pull s = Some (Inr (j, u))" using assms(1) q by (simp add: main_pull_def)
  show "\<exists>t. close_program SIGINT s = Some (Inr t) \<and> main_pull t = Some (Inl UseAfterFree)
           \<and> state_size t = Inl UseAfterFree \<and> close_program SIGINT t = Some (Inl UseAfterFree)"
    using assms queue_destroy_rep [OF assms(2)] queue_destroy_rep [OF assms(4)]
    by (simp add: close_program_def close_client_def destroy_at_def main_pull_def state_size_def Let_def)
qed

section \<open>The state after the start\<close>

declare upt_rec_numeral [simp del]

lemma map_int_shift: "map (\<lambda>k. 0 + int k + int n) [0..<m] = map int [n..<n + m]"
  by (intro nth_equalityI) simp_all

text \<open>The state of the system when the client's main loop has taken its first job.\<close>

lemma client_init_eq:
  assumes "length arr = ARRAY_SIZE"
  shows "client_init v arr =
    Some (Inr \<lparr>c_peer = client_with v (0 # map int [1..<512]), job_finished = 0, job_server_done = 0\<rparr>)"
proof -
  have "map (\<lambda>k. 0 + int k) [0..<512] = 0 # map int [1..<512]"
    using upt_conv_Cons [of 0 512] by simp
  moreover have "map (\<lambda>k. 0 + int k + 512) [0..<512] = map int [512..<1024]"
    using map_int_shift [of 512 512] by simp
  ultimately have "bootstrap (peer_start v) = Some (Inr (client_with v (0 # map int [1..<512])))"
    using bootstrap_loop_eq [of "peer_start v" 512 0]
    by (simp add: bootstrap_def JOB_NUM_def client_with_def) (simp add: peer_start_def peer_globals_def)
  then show ?thesis using assms by (simp add: client_init_def fill_array peer_start_def)
qed

lemma main_take_first:
  "main_take \<lparr>c_peer = client_with v (0 # js), job_finished = 0, job_server_done = 0\<rparr> =
     Some (Computing 0, \<lparr>c_peer = client_with v js, job_finished = 0, job_server_done = 0\<rparr>)"
  by (simp add: main_take_def worker_take_def client_with_def)

lemma start_state:
  assumes "client_init v arr = Some (Inr c0)" and "length arr = ARRAY_SIZE" and "main_take c0 = Some (th, c)"
    and "server_init v arr' = Inr q" and "length arr' = ARRAY_SIZE"
  shows "sys_boot c th q = sys_start v"
proof -
  have "q = peer_start v" using assms(4) server_init_eq [OF assms(5), of v] by simp
  then show ?thesis using client_init_eq [OF assms(2), of v] assms(1,3)
    by (auto simp: main_take_first sys_boot_def start_snapshot snapshot_def)
qed

text \<open>
  A wrong number of arguments, and every failure of the network calls, ends a process with its exit status before it
  has a queue; otherwise client and server come to the state in which the threads are created, and once the main loop has
  taken the first job it is the start state of the other properties.
\<close>
lemma processes_start:
  assumes "length arr = ARRAY_SIZE" and "length arr' = ARRAY_SIZE"
  shows "(length argv \<notin> {4, 5} \<longrightarrow> client_main scan_f sock gai conn v arr argv = Some (Inr (Exited 1)))
     \<and> (length argv \<in> {4, 5} \<and> (fst (gai (argv ! 1) (argv ! 2)) \<noteq> 0 \<or> conn sock (snd (gai (argv ! 1) (argv ! 2))) \<noteq> 0) \<longrightarrow>
          client_main scan_f sock gai conn v arr argv = Some (Inr (Exited 1)))
     \<and> (length args \<noteq> 2 \<longrightarrow> server_main sock' gai' bnd lis v arr' args = Inr (Exited (- 1)))
     \<and> (length args = 2 \<and> (fst (gai' (args ! 1)) \<noteq> 0 \<or> bnd sock' (snd (gai' (args ! 1))) \<noteq> 0 \<or> lis sock' 8 \<noteq> 0) \<longrightarrow>
          server_main sock' gai' bnd lis v arr' args = Inr (Exited 1))
     \<and> (length argv \<in> {4, 5} \<and> fst (gai (argv ! 1) (argv ! 2)) = 0 \<and> conn sock (snd (gai (argv ! 1) (argv ! 2))) = 0
        \<and> length args = 2 \<and> fst (gai' (args ! 1)) = 0 \<and> bnd sock' (snd (gai' (args ! 1))) = 0 \<and> lis sock' 8 = 0 \<longrightarrow>
          (\<exists>thr c0 q c. client_main scan_f sock gai conn v arr argv = Some (Inr (Running (thr, sock, c0)))
             \<and> server_main sock' gai' bnd lis v arr' args = Inr (Running (sock', q))
             \<and> main_take c0 = Some (Computing 0, c) \<and> sys_boot c (Computing 0) q = sys_start v))"
proof -
  let ?c = "\<lparr>c_peer = client_with v (map int [1..<512]), job_finished = 0, job_server_done = 0\<rparr>"
  have init: "client_init v arr =
      Some (Inr \<lparr>c_peer = client_with v (0 # map int [1..<512]), job_finished = 0, job_server_done = 0\<rparr>)"
    "server_init v arr' = Inr (peer_start v)"
    using client_init_eq [OF assms(1)] server_init_eq [OF assms(2)] by blast+
  have boot: "sys_boot ?c (Computing 0) (peer_start v) = sys_start v"
    using start_state [OF init(1) assms(1) main_take_first init(2) assms(2)] .
  show ?thesis
    by (auto simp: client_main_def server_main_def run_client_connect_def run_server_listen_def init main_take_first boot
        Let_def simp del: One_nat_def split: prod.splits)
qed

end
