(* ===== verification/MP4_Wire.thy ===== *)
theory MP4_Wire
  imports MP4_System
begin

text \<open>
  One direction of the connection, byte by byte. The writer, the balancer and the state thread of a
  process write to the same socket; \<^verbatim>\<open>send_state\<close>, \<^verbatim>\<open>transfer\<close> and the request of \<^verbatim>\<open>adaptor\<close> (all in
  \<^verbatim>\<open>src/MP4/utils.c\<close>) take \<^verbatim>\<open>transfer_mutex\<close> around all their writes, and each \<^verbatim>\<open>write\<close> may put out only a
  part of the bytes. The theory shows that the bytes are the encodings of whole messages in the order in
  which the mutex was taken, so that the lists of messages of \<open>MP4_System\<close> are what the sockets carry.
\<close>

section \<open>Threads that write\<close>

text \<open>
  What a thread has in hand: the message it sends and the bytes still to be written. What the three
  functions write for a message is \<open>encode_msg\<close> (lemmas \<open>send_state_encodes\<close> and \<open>transfer_encodes\<close>).
  The messages sent completely are recorded.
\<close>

record wire =
  transfer_mutex :: "nat option"
  in_hand :: "nat \<Rightarrow> (msg \<times> byte list) option"
  wire_bytes :: "byte list"
  sent_msgs :: "msg list"

definition wire_start :: wire where
  "wire_start = \<lparr>transfer_mutex = None, in_hand = \<lambda>_. None, wire_bytes = [], sent_msgs = []\<rparr>"

inductive wire_step :: "wire \<Rightarrow> wire \<Rightarrow> bool" where
  wire_lock: "transfer_mutex w = None \<Longrightarrow> in_hand w t = None \<Longrightarrow> msg_ok m \<Longrightarrow>
    wire_step w (w\<lparr>transfer_mutex := Some t, in_hand := (in_hand w)(t \<mapsto> (m, encode_msg m))\<rparr>)"
| wire_write: "in_hand w t = Some (m, bs) \<Longrightarrow> 0 < n \<Longrightarrow> n \<le> length bs \<Longrightarrow>
    wire_step w (w\<lparr>wire_bytes := wire_bytes w @ take n bs, in_hand := (in_hand w)(t \<mapsto> (m, drop n bs))\<rparr>)"
| wire_unlock: "in_hand w t = Some (m, []) \<Longrightarrow>
    wire_step w (w\<lparr>transfer_mutex := None, in_hand := (in_hand w)(t := None), sent_msgs := sent_msgs w @ [m]\<rparr>)"

inductive_cases wire_stepE: "wire_step w w'"

section \<open>Whole messages\<close>

text \<open>What is written of the message in hand.\<close>

definition written :: "wire \<Rightarrow> byte list \<Rightarrow> bool" where
  "written w part \<longleftrightarrow>
     (case transfer_mutex w of
        None \<Rightarrow> (\<forall>t. in_hand w t = None) \<and> part = []
      | Some t \<Rightarrow> (\<forall>u. u \<noteq> t \<longrightarrow> in_hand w u = None)
          \<and> (\<exists>m bs. in_hand w t = Some (m, bs) \<and> msg_ok m \<and> part @ bs = encode_msg m))"

definition wire_inv :: "wire \<Rightarrow> bool" where
  "wire_inv w \<longleftrightarrow> list_all msg_ok (sent_msgs w)
     \<and> (\<exists>part. written w part \<and> wire_bytes w = concat (map encode_msg (sent_msgs w)) @ part)"

lemma written_mutex: "written w part \<Longrightarrow> in_hand w t = Some x \<Longrightarrow> transfer_mutex w = Some t"
  by (cases "transfer_mutex w"; cases "transfer_mutex w = Some t") (auto simp: written_def)

lemma written_holder:
  assumes "written w part" and "in_hand w t = Some (m, bs)"
  shows "transfer_mutex w = Some t" and "msg_ok m" and "part @ bs = encode_msg m"
    and "\<And>u. u \<noteq> t \<Longrightarrow> in_hand w u = None"
  using assms written_mutex [OF assms] by (simp_all add: written_def)

lemma wire_inv_step:
  assumes "wire_inv w" and "wire_step w w'"
  shows "wire_inv w'"
proof -
  obtain part where p: "written w part" and s: "wire_bytes w = concat (map encode_msg (sent_msgs w)) @ part"
      and ok: "list_all msg_ok (sent_msgs w)"
    using assms(1) by (auto simp: wire_inv_def)
  from assms(2) show ?thesis
  proof cases
    case (wire_lock t m)
    then have "part = []" "written w' []" using p by (auto simp: written_def)
    then show ?thesis using wire_lock s ok by (auto simp: wire_inv_def)
  next
    case (wire_write t m bs n)
    note h = written_holder [OF p wire_write(2)]
    have "written w' (part @ take n bs)"
      using wire_write h by (auto simp: written_def)
    then show ?thesis using wire_write s ok by (auto simp: wire_inv_def intro: exI [of _ "part @ take n bs"])
  next
    case (wire_unlock t m)
    note h = written_holder [OF p wire_unlock(2)]
    have "written w' []" using wire_unlock h by (auto simp: written_def)
    then show ?thesis using wire_unlock s ok h by (auto simp: wire_inv_def)
  qed
qed

text \<open>The connection refines a list of messages that grows at its end.\<close>

definition send_one :: "msg list \<Rightarrow> msg list \<Rightarrow> bool" where
  "send_one ms ms' \<longleftrightarrow> (\<exists>m. msg_ok m \<and> ms' = ms @ [m])"

interpretation mp4_wire: refinement "\<lambda>w. w = wire_start" wire_step wire_inv sent_msgs send_one
proof unfold_locales
  show "wire_inv w" if "w = wire_start" for w
    using that by (simp add: wire_inv_def wire_start_def written_def)
  show "wire_inv w'" if "wire_inv w" "wire_step w w'" for w w' using that wire_inv_step by blast
  fix w w'
  assume "wire_inv w" and "wire_step w w'"
  from this(2) show "sent_msgs w' = sent_msgs w \<or> send_one (sent_msgs w) (sent_msgs w')"
  proof cases
    case (wire_unlock t m)
    then show ?thesis using \<open>wire_inv w\<close> written_holder(2) by (auto simp: wire_inv_def send_one_def)
  qed simp_all
qed

section \<open>Receiving\<close>

text \<open>As many passes of the receiving loop as there are messages.\<close>

fun recv_msgs :: "(byte list \<Rightarrow> (msg option \<times> byte list) option) \<Rightarrow> nat \<Rightarrow> byte list \<Rightarrow> (msg list \<times> byte list) option" where
  "recv_msgs recv 0 inp = Some ([], inp)"
| "recv_msgs recv (Suc n) inp =
     (case recv inp of
        Some (Some m, rest) \<Rightarrow> (case recv_msgs recv n rest of None \<Rightarrow> None | Some (ms, r) \<Rightarrow> Some (m # ms, r))
      | _ \<Rightarrow> None)"

lemma recv_msgs_encoded:
  assumes "\<And>m rest. m \<in> set ms \<Longrightarrow> recv (encode_msg m @ rest) = Some (Some m, rest)"
  shows "recv_msgs recv (length ms) (concat (map encode_msg ms) @ part) = Some (ms, part)"
  using assms by (induction ms) simp_all

lemma length_encode: "msg_ok m \<Longrightarrow> length (encode_msg m) = wire_size m"
  by (cases m) (simp_all add: be_int_def JOB_SIZE_def)

lemma length_encodes: "list_all msg_ok ms \<Longrightarrow> length (concat (map encode_msg ms)) = sum_list (map wire_size ms)"
  by (induction ms) (simp_all add: length_encode)

end
