(* ===== verification/MP4_Flow.thy ===== *)
theory MP4_Flow
  imports MP4_Progress
begin

text \<open>
  Connections with bounded buffers. \<^verbatim>\<open>write_all_to_socket\<close> waits while the buffers of the connection are full, so
  a turn that sends is taken only when the message has room. The theory shows that this flow
  control costs nothing as long as the balancer is idle: when both buffers hold at least one job,
  some thread can always go on, and the jobs are finished in as many turns as before. A thread that waits
  inside \<^verbatim>\<open>transfer\<close> is taken to have left the entry in its queue.
\<close>

section \<open>Turns that have room\<close>

text \<open>The bytes that are on their way, and the largest message: type, number and block of a job.\<close>

definition pending :: "msg list \<Rightarrow> nat" where
  "pending ms = sum_list (map wire_size ms)"

definition largest_msg :: nat where
  "largest_msg = 4 + 4 + 8 * nat JOB_SIZE"

text \<open>Sending needs room; reading never does.\<close>

definition has_room :: "nat \<Rightarrow> msg list \<Rightarrow> msg list \<Rightarrow> bool" where
  "has_room cap ms ms' \<longleftrightarrow> pending ms' \<le> pending ms \<or> pending ms' \<le> cap"

definition bounded_turn :: "nat \<Rightarrow> (u64 \<Rightarrow> u64) \<Rightarrow> (int \<Rightarrow> u32) \<Rightarrow> system \<Rightarrow> system \<Rightarrow> bool" where
  "bounded_turn cap bump fi s t \<longleftrightarrow>
     sys_turn bump fi s t \<and> has_room cap (cs s) (cs t) \<and> has_room cap (sc s) (sc t)"

definition within :: "nat \<Rightarrow> system \<Rightarrow> bool" where
  "within cap s \<longleftrightarrow> pending (cs s) \<le> cap \<and> pending (sc s) \<le> cap"

lemma pending_simps [simp]:
  "pending [] = 0" "pending (m # ms) = wire_size m + pending ms" "pending (ms @ ns) = pending ms + pending ns"
  by (simp_all add: pending_def)

lemma wire_size_le: "wire_size m \<le> largest_msg"
  by (cases m) (simp_all add: largest_msg_def JOB_SIZE_def)

lemma has_room_simps [simp]:
  "has_room cap ms ms" "has_room cap (m # ms) ms" "largest_msg \<le> cap \<Longrightarrow> has_room cap [] [m]"
  using wire_size_le [of m] by (auto simp: has_room_def)

lemma bounded_within: "bounded_turn cap bump fi s t \<Longrightarrow> within cap s \<Longrightarrow> within cap t"
  by (auto simp: bounded_turn_def has_room_def within_def)

section \<open>A turn with room can be taken\<close>

text \<open>While the balancer is idle every sending turn sends one message, and only the writers send.\<close>

lemma quiet_sends:
  assumes "sys_turn bump fi s t" and "quiet s"
  shows "has_room cap (cs s) (cs t) \<or> (\<exists>m. cs t = cs s @ [m])"
    and "has_room cap (sc s) (sc t) \<or> (\<exists>m. sc t = sc s @ [m])"
  using assms
  by (auto elim!: sys_turn.cases simp: quiet_def has_room_def dest: quiet_handle)

text \<open>A full connection can be read from.\<close>

lemma client_read_room:
  assumes "sys_inv bump v s" and "sys_live s" and "job_finished (cl s) < JOB_NUM" and "quiet s" and "sc s \<noteq> []"
  shows "\<exists>t. bounded_turn cap bump fi s t"
proof (cases "cl_reader s")
  case Check
  then have "sys_turn bump fi s (s\<lparr>cl := cl s, cl_reader := Turn\<rparr>)"
    using assms(3) by (intro sys_reader_check) (simp_all add: reader_check_def)
  then show ?thesis by (auto simp: bounded_turn_def)
next
  case Turn
  obtain m ms where m: "sc s = m # ms" using assms(5) by (cases "sc s") auto
  obtain k c out where h: "client_handle fi m (cl s) = Some (Inr (k, c, out))"
    using client_handle_enabled [OF assms(1,2) m] by blast
  moreover have "k = 0 \<and> out = []" using quiet_handle(2) [OF h] assms(4) m by (simp add: quiet_def)
  ultimately show ?thesis using sys_client_read [OF Turn m h, of bump] m by (auto simp: bounded_turn_def)
qed (use assms(2,4) in \<open>auto simp: sys_live_def quiet_def\<close>)

lemma server_read_room:
  assumes "sys_inv bump v s" and "sys_live s" and "quiet s" and "cs s \<noteq> []"
  shows "\<exists>t. bounded_turn cap bump fi s t"
proof -
  have r: "sv_reader s = Turn" "\<not> session_end s"
    using assms(2,3) by (cases "sv_reader s"; auto simp: sys_live_def quiet_def)+
  obtain m ms where m: "cs s = m # ms" using assms(4) by (cases "cs s") auto
  obtain k p out where h: "server_handle fi m (sv s) = Some (Inr (k, p, out))"
    using server_handle_enabled [OF assms(1,2) m] by blast
  moreover have "k = 0 \<and> out = []" using quiet_handle(1) [OF h] assms(3) m by (simp add: quiet_def)
  ultimately show ?thesis using sys_server_read [OF r(2,1) m h, of bump] m by (auto simp: bounded_turn_def)
qed

text \<open>With both connections empty every turn has room.\<close>

lemma bounded_turn_exists:
  assumes "largest_msg \<le> cap" and "sys_live_inv bump v s" and "quiet s" and "job_finished (cl s) < JOB_NUM"
  shows "\<exists>t. bounded_turn cap bump fi s t"
proof (cases "cs s = [] \<and> sc s = []")
  case True
  obtain t where "sys_turn bump fi s t" using turn_exists assms quiet_not_waiting by blast
  then show ?thesis
    using quiet_sends [of bump fi s t cap] assms(1,3) True by (auto simp: bounded_turn_def)
next
  case False
  then show ?thesis
    using client_read_room [of bump v s cap fi] server_read_room [of bump v s cap fi] assms
    by (auto simp: sys_live_inv_def)
qed

interpretation mp4_flow: progress_system "\<lambda>s. largest_msg \<le> cap \<and> s = sys_start v" "bounded_turn cap bump fi"
    "\<lambda>s. largest_msg \<le> cap \<and> sys_live_inv bump v s \<and> quiet s \<and> within cap s"
    "bounded_turn cap bump fi" "\<lambda>s. JOB_NUM \<le> job_finished (cl s)" sys_rank for cap bump fi v
proof unfold_locales
  fix s t
  show "largest_msg \<le> cap \<and> sys_live_inv bump v s \<and> quiet s \<and> within cap s" if "largest_msg \<le> cap \<and> s = sys_start v"
    using that mp4_quiet.inv_init [of s v bump] by (simp add: within_def sys_start_def Let_def)
  show "largest_msg \<le> cap \<and> sys_live_inv bump v t \<and> quiet t \<and> within cap t"
    if "largest_msg \<le> cap \<and> sys_live_inv bump v s \<and> quiet s \<and> within cap s" "bounded_turn cap bump fi s t"
    using that mp4_quiet.inv_step [of bump v s fi t] bounded_within by (auto simp: bounded_turn_def)
  assume g: "largest_msg \<le> cap \<and> sys_live_inv bump v s \<and> quiet s \<and> within cap s" "\<not> JOB_NUM \<le> job_finished (cl s)"
  then show "\<exists>t. bounded_turn cap bump fi s t" using bounded_turn_exists by auto
  show "sys_rank t < sys_rank s" if "bounded_turn cap bump fi s t"
    using that g mp4_quiet.turn_rank [of bump v s fi t] by (auto simp: bounded_turn_def)
qed

end
