(* ===== verification/MP4_Jam.thy ===== *)
theory MP4_Jam
  imports MP4_Flow
begin

text \<open>
  Bounded buffers with the balancer at work. With state messages the readers send, too: the balancer moves
  jobs, and a process with few jobs asks for some. As long as neither reader waits, for room or for its queue,
  some thread can go on, and the number of turns is bounded by that of the state messages. But the reader of the client may wait for room in one
  direction and that of the server in the other, and nobody makes room. The theory shows that such a
  state is reachable for every size of the buffers and that nothing leads out of it.
\<close>

section \<open>Steps with room\<close>

text \<open>
  All steps, each with room for what it sends. A reader that waits to answer a message is taken to have left
  the message unread; read or not, its 20 bytes would not make room for the block of a job.
\<close>

definition bounded_step :: "nat \<Rightarrow> (u64 \<Rightarrow> u64) \<Rightarrow> (int \<Rightarrow> u32) \<Rightarrow> system \<Rightarrow> system \<Rightarrow> bool" where
  "bounded_step cap bump fi s t \<longleftrightarrow>
     sys_step bump fi s t \<and> has_room cap (cs s) (cs t) \<and> has_room cap (sc s) (sc t)"

section \<open>Progress while the readers have room\<close>

text \<open>
  A reader waits for room: it moves a job and there is no room for the job, or the message it has to handle
  makes it ask for jobs and there is no room for the request.
\<close>

definition room_waits :: "nat \<Rightarrow> (int \<Rightarrow> u32) \<Rightarrow> system \<Rightarrow> bool" where
  "room_waits cap fi s \<longleftrightarrow>
     (case cl_reader s of
        Moving k \<Rightarrow> cap < pending (cs s) + largest_msg
      | Turn \<Rightarrow> (\<exists>m ms k c. sc s = m # ms \<and> client_handle fi m (cl s) = Some (Inr (k, c, [RebalanceMsg])) \<and> cap < pending (cs s) + 4)
      | _ \<Rightarrow> False)
   \<or> (case sv_reader s of
        Moving k \<Rightarrow> cap < pending (sc s) + largest_msg
      | Turn \<Rightarrow> (\<exists>m ms k p. cs s = m # ms \<and> server_handle fi m (sv s) = Some (Inr (k, p, [RebalanceMsg])) \<and> cap < pending (sc s) + 4)
      | _ \<Rightarrow> False)"

lemma handle_out:
  assumes "sys_inv bump v s" and "sys_live s"
  shows "sc s = m # ms \<Longrightarrow> client_handle fi m (cl s) = Some (Inr (k, c, out)) \<Longrightarrow> out = [] \<or> out = [RebalanceMsg]"
    and "cs s = m # ms \<Longrightarrow> server_handle fi m (sv s) = Some (Inr (k, p, out)) \<Longrightarrow> out = [] \<or> out = [RebalanceMsg]"
proof -
  have l: "length (job_todo (c_peer (cl s))) \<le> 1024" "length (job_todo (sv s)) \<le> 1024"
    using sys_live_lengths [OF assms] by simp_all
  show "out = [] \<or> out = [RebalanceMsg]" if sc: "sc s = m # ms" and h: "client_handle fi m (cl s) = Some (Inr (k, c, out))"
  proof (cases "is_state m")
    case True
    then obtain n th cpu where m: "m = StateMsg n th cpu" by (cases m) auto
    have "0 \<le> n" "n \<le> 1024" using assms(2) sc m by (auto simp: sys_live_def)
    moreover obtain p where "state_begin fi n th cpu (c_peer (cl s)) = Inr (k, p, out)"
      using h m by (auto simp: bind_r_Inr_iff)
    ultimately show ?thesis using state_begin_bounds(2) [OF _ _ _ l(1)] by blast
  qed (use quiet_handle(2) [OF h] in blast)
  show "out = [] \<or> out = [RebalanceMsg]" if "cs s = m # ms" "server_handle fi m (sv s) = Some (Inr (k, p, out))"
  proof (cases "is_state m")
    case True
    then obtain n th cpu where m: "m = StateMsg n th cpu" by (cases m) auto
    have "0 \<le> n" "n \<le> 1024" using assms(2) that(1) m by (auto simp: sys_live_def)
    then show ?thesis using state_begin_bounds(2) [OF _ _ _ l(2)] that(2) m by auto
  qed (use quiet_handle(1) [OF that(2)] in blast)
qed

lemma move_out:
  assumes "move_turn p = Some (Inr (go, p', out))" and "movable (job_todo p)" and "length (job_array p) = ARRAY_SIZE"
  shows "out = [] \<or> (\<exists>m. out = [m])"
  using move_turn_take [OF assms] by auto

lemma one_has_room:
  assumes "out = [] \<or> (\<exists>m. out = [m])" and "pending ms + largest_msg \<le> cap"
  shows "has_room cap ms (ms @ out)"
proof -
  have "pending out \<le> largest_msg" using assms(1) wire_size_le by auto
  then show ?thesis using assms(2) by (simp add: has_room_def)
qed

lemma client_reader_moves:
  assumes "sys_inv bump v s" and "sys_live s" and "job_finished (cl s) < JOB_NUM"
    and "\<not> balancer_waits s" and "\<not> room_waits cap fi s" and "sc s \<noteq> []"
  shows "\<exists>t. bounded_turn cap bump fi s t"
proof (cases "cl_reader s")
  case Check
  then have "sys_turn bump fi s (s\<lparr>cl := cl s, cl_reader := Turn\<rparr>)"
    using assms(3) by (intro sys_reader_check) (simp_all add: reader_check_def)
  then show ?thesis by (auto simp: bounded_turn_def)
next
  case Turn
  obtain m ms where m: "sc s = m # ms" using assms(6) by (cases "sc s") auto
  obtain k c out where h: "client_handle fi m (cl s) = Some (Inr (k, c, out))"
    using client_handle_enabled [OF assms(1,2) m] by blast
  have "has_room cap (cs s) (cs s @ out)"
    using handle_out(1) [OF assms(1,2) m h] assms(5) Turn m h by (auto simp: room_waits_def has_room_def)
  then show ?thesis using sys_client_read [OF Turn m h, of bump] m by (auto simp: bounded_turn_def)
next
  case (Moving k)
  then obtain i where i: "k = Suc i" using assms(2) by (cases k) (auto simp: sys_live_def)
  have mv: "movable (job_todo (c_peer (cl s)))" "length (job_array (c_peer (cl s))) = ARRAY_SIZE"
    using assms(1) held_movable(1) data_invD(1) by (auto simp: sys_inv_def)
  obtain go p out where h: "move_turn (c_peer (cl s)) = Some (Inr (go, p, out))"
    using move_enabled [OF mv] assms(4) Moving by (auto simp: balancer_waits_def)
  have "has_room cap (cs s) (cs s @ out)"
    using assms(5) Moving by (intro one_has_room [OF move_out [OF h mv]]) (simp add: room_waits_def)
  then show ?thesis using sys_client_move [OF Moving [unfolded i] h, of bump fi] by (intro exI) (auto simp: bounded_turn_def)
qed (use assms(2) in \<open>auto simp: sys_live_def\<close>)

lemma server_reader_moves:
  assumes "sys_inv bump v s" and "sys_live s" and "\<not> balancer_waits s" and "\<not> room_waits cap fi s" and "cs s \<noteq> []"
  shows "\<exists>t. bounded_turn cap bump fi s t"
proof -
  have open_s: "\<not> session_end s" using assms(2) by (simp add: sys_live_def)
  show ?thesis
  proof (cases "sv_reader s")
    case Turn
    obtain m ms where m: "cs s = m # ms" using assms(5) by (cases "cs s") auto
    obtain k p out where h: "server_handle fi m (sv s) = Some (Inr (k, p, out))"
      using server_handle_enabled [OF assms(1,2) m] by blast
    have "has_room cap (sc s) (sc s @ out)"
      using handle_out(2) [OF assms(1,2) m h] assms(4) Turn m h by (auto simp: room_waits_def has_room_def)
    then show ?thesis using sys_server_read [OF open_s Turn m h, of bump] m by (auto simp: bounded_turn_def)
  next
    case (Moving k)
    then obtain i where i: "k = Suc i" using assms(2) by (cases k) (auto simp: sys_live_def)
    have mv: "movable (job_todo (sv s))" "length (job_array (sv s)) = ARRAY_SIZE"
      using assms(1) held_movable(2) data_invD(2) by (auto simp: sys_inv_def)
    obtain go p out where h: "move_turn (sv s) = Some (Inr (go, p, out))"
      using move_enabled [OF mv] assms(3) Moving by (auto simp: balancer_waits_def)
    have "has_room cap (sc s) (sc s @ out)"
      using assms(4) Moving by (intro one_has_room [OF move_out [OF h mv]]) (simp add: room_waits_def)
    then show ?thesis using sys_server_move [OF open_s Moving [unfolded i] h, of bump fi] by (intro exI) (auto simp: bounded_turn_def)
  qed (use assms(2) in \<open>auto simp: sys_live_def\<close>)
qed

text \<open>With both connections empty a turn sends one message at most.\<close>

lemma empty_sends:
  assumes "sys_turn bump fi s t" and "sys_inv bump v s" and "cs s = []" and "sc s = []" and "largest_msg \<le> cap"
  shows "bounded_turn cap bump fi s t"
proof -
  have mv: "movable (job_todo (c_peer (cl s)))" "length (job_array (c_peer (cl s))) = ARRAY_SIZE"
      "movable (job_todo (sv s))" "length (job_array (sv s)) = ARRAY_SIZE"
    using assms(2) held_movable(1,2) data_invD(1,2) by (auto simp: sys_inv_def)
  from assms(1) have "has_room cap (cs s) (cs t) \<and> has_room cap (sc s) (sc t)"
    by cases (use assms(3-5) move_out [OF _ mv(1,2)] move_out [OF _ mv(3,4)] in fastforce)+
  then show ?thesis using assms(1) by (simp add: bounded_turn_def)
qed

lemma room_turn_exists:
  assumes "largest_msg \<le> cap" and "sys_live_inv bump v s" and "job_finished (cl s) < JOB_NUM"
    and "\<not> balancer_waits s" and "\<not> room_waits cap fi s"
  shows "\<exists>t. bounded_turn cap bump fi s t"
proof -
  have inv: "sys_inv bump v s" and l: "sys_live s" using assms(2,3) by (auto simp: sys_live_inv_def)
  show ?thesis
  proof (cases "cs s = [] \<and> sc s = []")
    case True
    then show ?thesis using turn_exists [OF assms(2-4), of fi] empty_sends [OF _ inv _ _ assms(1)] by blast
  next
    case False
    then show ?thesis
      using client_reader_moves [OF inv l assms(3-5)] server_reader_moves [OF inv l assms(4,5)] by blast
  qed
qed

text \<open>A state message raises the rank by what it is worth.\<close>

lemma state_rank:
  assumes "sys_step bump fi s t" and "\<not> sys_turn bump fi s t"
  shows "sys_rank t \<le> sys_rank s + 20000"
  using assms by (auto elim!: sys_step.cases simp: sys_rank_def client_state_manager_def server_state_manager_def)

interpretation mp4_room: disturbed_system "\<lambda>s. largest_msg \<le> cap \<and> s = sys_start v" "bounded_step cap bump fi"
    "\<lambda>s. largest_msg \<le> cap \<and> sys_live_inv bump v s" "bounded_turn cap bump fi"
    "\<lambda>s. JOB_NUM \<le> job_finished (cl s) \<or> balancer_waits s \<or> room_waits cap fi s" sys_rank 20000 for cap bump fi v
proof unfold_locales
  fix s t
  show "largest_msg \<le> cap \<and> sys_live_inv bump v s" if "largest_msg \<le> cap \<and> s = sys_start v"
    using that sys_live_start by simp
  show "largest_msg \<le> cap \<and> sys_live_inv bump v t" if "largest_msg \<le> cap \<and> sys_live_inv bump v s" "bounded_step cap bump fi s t"
    using that sys_live_inv_step by (auto simp: bounded_step_def)
  show "bounded_step cap bump fi s t" if "bounded_turn cap bump fi s t"
    using that by (auto simp: bounded_turn_def bounded_step_def intro: sys_turn)
  assume g: "largest_msg \<le> cap \<and> sys_live_inv bump v s"
    "\<not> (JOB_NUM \<le> job_finished (cl s) \<or> balancer_waits s \<or> room_waits cap fi s)"
  then show "\<exists>t. bounded_turn cap bump fi s t" using room_turn_exists by auto
  show "sys_rank t < sys_rank s" if "bounded_turn cap bump fi s t"
    using that turn_lowers [of bump fi s t v] g by (auto simp: bounded_turn_def sys_live_inv_def lower_def)
  show "sys_rank t \<le> sys_rank s + 20000" if "bounded_step cap bump fi s t" "\<not> bounded_turn cap bump fi s t"
    using that state_rank by (auto simp: bounded_step_def bounded_turn_def)
qed

section \<open>Readers that wait for each other\<close>

text \<open>
  The client is moving jobs and has no room for one, the server has to ask for jobs and has no room
  for the four bytes of the request.
\<close>

definition jammed :: "nat \<Rightarrow> nat \<Rightarrow> system \<Rightarrow> bool" where
  "jammed cap k s \<longleftrightarrow> cl_reader s = Moving k \<and> sv_reader s = Turn \<and> cap < pending (cs s) + 20 \<and> cap < pending (sc s) + 4
     \<and> 0 < transfer_policy (sv s)
     \<and> (\<exists>n th cpu ms. cs s = StateMsg n th cpu # ms \<and> 0 < n \<and> n \<le> 1024 \<and> int (length (job_todo (sv s))) \<le> n)
     \<and> job_finished (cl s) + int (length (cur_job (cl_main s))) + int (length (job_todo (c_peer (cl s)))) < JOB_NUM"

lemma state_begin_requests:
  assumes "0 < n" and "n \<le> 1024" and "int (length (job_todo p)) \<le> n" and "0 < transfer_policy p"
  shows "\<exists>p'. state_begin fi n th cpu p = Inr (0, p', [RebalanceMsg]) \<and> job_todo p' = job_todo p
     \<and> transfer_policy p' = transfer_policy p"
proof -
  let ?d = "int (length (job_todo p)) - n"
  have s: "s32 ?d = ?d" using assms by (intro s32_id) (simp add: c_int_def)
  obtain q where "c_div ?d 2 = Inr q" by (simp add: c_div_def)
  then show ?thesis using assms s by (simp add: state_begin_def adaptor_begin_def Let_def DIFF_THRESHOLD_def)
qed

lemma qpull_Some: "qpull q = Some (x, r) \<longleftrightarrow> q = x # r"
  by (cases q) auto

lemma jammed_no_room:
  assumes "jammed cap k s"
  shows "\<not> has_room cap (sc s) (sc s @ m # ms)" and "20 \<le> wire_size m \<Longrightarrow> \<not> has_room cap (cs s) (cs s @ [m])"
proof -
  have "4 \<le> wire_size m" by (cases m) simp_all
  then show "\<not> has_room cap (sc s) (sc s @ m # ms)" using assms by (simp add: jammed_def has_room_def)
  show "\<not> has_room cap (cs s) (cs s @ [m])" if "20 \<le> wire_size m"
    using that assms by (simp add: jammed_def has_room_def)
qed

lemma jammed_turn:
  assumes "bounded_turn cap bump fi s t" and "sys_inv bump v s" and "sys_live s" and j: "jammed cap k s"
  shows "jammed cap k t"
proof -
  have turn: "sys_turn bump fi s t" and room: "has_room cap (cs s) (cs t)" "has_room cap (sc s) (sc t)"
    using assms(1) by (simp_all add: bounded_turn_def)
  have mv: "movable (job_todo (c_peer (cl s)))" "movable (job_tosend (c_peer (cl s)))"
    "length (job_array (c_peer (cl s))) = ARRAY_SIZE"
    using assms(2) held_movable(1,3) data_invD(1) by (auto simp: sys_inv_def)
  from turn show ?thesis
  proof cases
    case (sys_client_write p m)
    obtain jb b where "m = DataMsg jb b"
      using writer_turn_cases [OF sys_client_write(3) mv(2,3)] assms(3) by (auto simp: sys_live_def)
    then show ?thesis using jammed_no_room(2) [OF j, of m] sys_client_write(1) room(1) by (simp add: JOB_SIZE_def)
  next
    case (sys_client_move i go p out)
    obtain jb b where "out = [DataMsg jb b]"
      using move_turn_cases [OF mv(1,3)] sys_client_move(3) assms(3)
      by (cases "job_todo (c_peer (cl s))") (auto simp: sys_live_def move_turn_def moved_def)
    then show ?thesis using jammed_no_room(2) [OF j, of "DataMsg jb b"] sys_client_move(1) room(1) by (simp add: JOB_SIZE_def)
  next
    case (sys_worker_take i p)
    then have "length (job_todo p) \<le> length (job_todo (sv s))" and "transfer_policy p = transfer_policy (sv s)"
      by (cases "job_todo (sv s)"; auto simp: worker_take_def)+
    then show ?thesis using j sys_worker_take(1) by (auto simp: jammed_def)
  next
    case (sys_server_read m ms l p out)
    obtain n th cpu where n: "m = StateMsg n th cpu" "0 < n" "n \<le> 1024" "int (length (job_todo (sv s))) \<le> n"
      using j sys_server_read(4) by (auto simp: jammed_def)
    moreover have "0 < transfer_policy (sv s)" using j by (simp add: jammed_def)
    ultimately have "out = [RebalanceMsg]"
      using state_begin_requests [OF n(2-4), of fi th cpu] sys_server_read(5) by auto
    then show ?thesis using jammed_no_room(1) [OF j] sys_server_read(1) room(2) by simp
  qed (use j jammed_no_room(1) [OF j] room s32_finished [OF assms(2)] assms(3) in
       \<open>auto simp: jammed_def sys_live_def main_check_def main_take_def worker_take_def main_finish_def worker_finish_def
          bind_r_Inr_iff qpull_Some split: if_splits option.splits sum.splits\<close>)
qed

lemma jammed_step:
  assumes "bounded_step cap bump fi s t" and "sys_live_inv bump v s" and j: "jammed cap k s"
  shows "jammed cap k t"
proof -
  have step: "sys_step bump fi s t" and room: "has_room cap (cs s) (cs t)" "has_room cap (sc s) (sc t)"
    using assms(1) by (simp_all add: bounded_step_def)
  have inv: "sys_inv bump v s" and l: "sys_live s" using assms(2) j by (auto simp: sys_live_inv_def jammed_def)
  from step show ?thesis
  proof cases
    case sys_turn
    then show ?thesis using jammed_turn [OF _ inv l j] room by (simp add: bounded_turn_def)
  next
    case (sys_client_state thr cpu)
    then show ?thesis
      using jammed_no_room(2) [OF j, of "client_state_manager (c_peer (cl s)) thr cpu"] room(1)
      by (simp add: client_state_manager_def)
  next
    case (sys_server_state thr cpu)
    then show ?thesis using jammed_no_room(1) [OF j] room(2) by simp
  qed
qed

interpretation mp4_jam: transition_system "\<lambda>s. sys_live_inv bump v s \<and> jammed cap k s" "bounded_step cap bump fi"
    "\<lambda>s. sys_live_inv bump v s \<and> jammed cap k s" for bump v cap k fi
proof unfold_locales
  show "sys_live_inv bump v t \<and> jammed cap k t"
    if "sys_live_inv bump v s \<and> jammed cap k s" "bounded_step cap bump fi s t" for s t
    using that jammed_step sys_live_inv_step by (auto simp: bounded_step_def)
qed

subsection \<open>A run to such a state\<close>

text \<open>
  While the client's reader is about to move jobs, its state thread reports 511 jobs and the server, which has
  one, answers with a request, until there is no room for another one; then the reports fill the other buffer.
\<close>

lemma calm_bounded:
  assumes "calm_step bump fi s t" and "largest_msg \<le> cap"
  shows "bounded_step cap bump fi s t"
proof -
  have "cs t = [] \<and> sc t = [] \<or> (\<exists>m. cs t = [m] \<and> sc t = [] \<or> cs t = [] \<and> sc t = [m])"
    using assms(1) by (cases "cs t"; cases "sc t") (auto simp: calm_step_def)
  moreover have "wire_size m \<le> cap" for m using wire_size_le [of m] assms(2) by simp
  ultimately show ?thesis using assms(1) by (auto simp: bounded_step_def calm_step_def has_room_def)
qed

lemma requests_fill:
  assumes "20 \<le> cap" and "length (job_todo p) = 511" and "length (job_todo q) \<le> 511" and "transfer_policy q = 1"
  shows "4 * i \<le> cap \<Longrightarrow> \<exists>q'. (bounded_step cap bump fi)\<^sup>*\<^sup>* (snapshot mn p q [] [] w r)
      (snapshot mn p q' [] (replicate i RebalanceMsg) w r) \<and> job_todo q' = job_todo q \<and> transfer_policy q' = 1"
proof (induction i)
  case (Suc i)
  then obtain q' where run: "(bounded_step cap bump fi)\<^sup>*\<^sup>* (snapshot mn p q [] [] w r)
      (snapshot mn p q' [] (replicate i RebalanceMsg) w r)" and q': "job_todo q' = job_todo q" "transfer_policy q' = 1"
    by auto
  let ?ns = "replicate i RebalanceMsg" and ?m = "client_state_manager p 0 0"
  obtain q'' where h: "server_handle fi ?m q' = Some (Inr (0, q'', [RebalanceMsg]))" and q'': "job_todo q'' = job_todo q" "transfer_policy q'' = 1"
    using state_begin_requests [of 511 q' fi 0 0] assms(2,3) q' by (auto simp: client_state_manager_def)
  have "bounded_step cap bump fi (snapshot mn p q' [] ?ns w r) (snapshot mn p q' [?m] ?ns w r)"
    using snapshot_step(3) [of bump fi mn p q' "[]" ?ns w r 0 0] assms(1)
    by (simp add: bounded_step_def has_room_def) (simp add: snapshot_def client_state_manager_def)
  moreover have "bounded_step cap bump fi (snapshot mn p q' [?m] ?ns w r) (snapshot mn p q'' [] (?ns @ [RebalanceMsg]) w r)"
    using snapshot_step(6) [OF h, of bump mn p "[]" ?ns w r] Suc.prems
    by (simp add: bounded_step_def has_room_def) (simp add: snapshot_def pending_def sum_list_replicate)
  ultimately have "(bounded_step cap bump fi)\<^sup>*\<^sup>* (snapshot mn p q [] [] w r) (snapshot mn p q'' [] (?ns @ [RebalanceMsg]) w r)"
    using run by (meson rtranclp.rtrancl_into_rtrancl)
  then show ?case using q'' by (auto simp: replicate_append_same)
qed (use assms(4) in auto)

lemma reports_fill:
  "20 * i \<le> cap \<Longrightarrow> (bounded_step cap bump fi)\<^sup>*\<^sup>* (snapshot mn p q [] ns w r)
     (snapshot mn p q (replicate i (client_state_manager p 0 0)) ns w r)"
proof (induction i)
  case (Suc i)
  let ?m = "client_state_manager p 0 0"
  have "bounded_step cap bump fi (snapshot mn p q (replicate i ?m) ns w r) (snapshot mn p q (replicate i ?m @ [?m]) ns w r)"
    using snapshot_step(3) [of bump fi mn p q "replicate i ?m" ns w r 0 0] Suc.prems
    by (simp add: bounded_step_def has_room_def)
       (simp add: snapshot_def pending_def sum_list_replicate client_state_manager_def)
  then show ?case using Suc by (simp add: replicate_append_same)
qed simp

lemma jam_reachable:
  assumes "largest_msg \<le> cap"
  shows "\<exists>s. (bounded_step cap bump fi)\<^sup>*\<^sup>* (sys_start v) s \<and> sys_live_inv bump v s \<and> jammed cap 255 s"
proof -
  let ?js = "map int [1..<512]"
  have cap: "20 \<le> cap" using assms by (simp add: largest_msg_def JOB_SIZE_def)
  obtain p q where calm: "(calm_step bump fi)\<^sup>*\<^sup>* (sys_start v) (snapshot (Computing 0) p q [] [] Check (Moving 255))"
      and p: "job_todo p = ?js" and q: "job_todo q = [512]" "transfer_policy q = 1"
    using calm_run_to_balancer [of ?js bump fi "Computing 0" v] unfolding start_snapshot by auto
  have "(bounded_step cap bump fi)\<^sup>*\<^sup>* (sys_start v) (snapshot (Computing 0) p q [] [] Check (Moving 255))"
    using calm by (rule mono_rtranclp [rule_format, rotated]) (simp add: calm_bounded assms)
  moreover obtain q' where "(bounded_step cap bump fi)\<^sup>*\<^sup>* (snapshot (Computing 0) p q [] [] Check (Moving 255))
      (snapshot (Computing 0) p q' [] (replicate (cap div 4) RebalanceMsg) Check (Moving 255))"
      and q': "job_todo q' = [512]" "transfer_policy q' = 1"
    using requests_fill [of cap p q "cap div 4" bump fi "Computing 0" Check "Moving 255"] cap p q by auto
  moreover define s where "s = snapshot (Computing 0) p q' (replicate (cap div 20) (client_state_manager p 0 0))
      (replicate (cap div 4) RebalanceMsg) Check (Moving 255)"
  have "(bounded_step cap bump fi)\<^sup>*\<^sup>*
      (snapshot (Computing 0) p q' [] (replicate (cap div 4) RebalanceMsg) Check (Moving 255)) s"
    unfolding s_def by (rule reports_fill) simp
  ultimately have run: "(bounded_step cap bump fi)\<^sup>*\<^sup>* (sys_start v) s" by (meson rtranclp_trans)
  have "(sys_step bump fi)\<^sup>*\<^sup>* (sys_start v) s"
    using run by (rule mono_rtranclp [rule_format, rotated]) (simp add: bounded_step_def)
  then have "sys_live_inv bump v s" using mp4_run.inv_reachable by blast
  moreover obtain i where i: "cap div 20 = Suc i" using cap by (cases "cap div 20") auto
  have "cap < cap div 4 * 4 + 4" "cap < cap div 20 * 20 + 20" by presburger+
  then have "jammed cap 255 s"
    using p q' by (simp add: jammed_def s_def snapshot_def client_state_manager_def pending_def sum_list_replicate JOB_NUM_def i)
  ultimately show ?thesis using run by blast
qed

text \<open>
  For every size of the buffers there is a run after which both readers wait for ever, whatever the other
  threads do, and jobs stay unfinished.
\<close>

theorem readers_jam:
  assumes "32776 \<le> cap"
  shows "\<exists>s. (bounded_step cap bump fi)\<^sup>*\<^sup>* (sys_start v) s
     \<and> (\<forall>t. (bounded_step cap bump fi)\<^sup>*\<^sup>* s t \<longrightarrow> jammed cap 255 t \<and> job_finished (cl t) < JOB_NUM)"
proof -
  obtain s where s: "(bounded_step cap bump fi)\<^sup>*\<^sup>* (sys_start v) s" "sys_live_inv bump v s" "jammed cap 255 s"
    using jam_reachable [of cap bump fi v] assms by (auto simp: largest_msg_def JOB_SIZE_def)
  have "jammed cap 255 t \<and> job_finished (cl t) < JOB_NUM" if "(bounded_step cap bump fi)\<^sup>*\<^sup>* s t" for t
    using mp4_jam.inv_reachable [of bump v s cap 255 fi t] s(2,3) that by (auto simp: jammed_def)
  then show ?thesis using s(1) by blast
qed

end
