(* ===== verification/MP4_Properties.thy ===== *)
theory MP4_Properties
  imports MP4_Queue_Threads MP4_Spec MP4_Ending MP4_Start MP4_Wire MP4_Jam
begin

text \<open>
  The properties of MP4: the queue under concurrent threads, the socket loops and messages, the
  load balancer, and the system of client and server.
\<close>

declare upt_rec_numeral [simp del]

section \<open>The queue\<close>

text \<open>
  C6. Under any interleaving of threads that push and pull, with spurious wake-ups, the queue never
  loses, duplicates or reorders an element: the elements pulled so far, followed by those in the
  linked list, are the elements pushed so far, and there are at most \<^verbatim>\<open>maxSize\<close> in the list. The
  completed operations are a run of the bounded buffer.
\<close>
theorem queue_threads_fifo:
  assumes "0 < m" and "c_int m" and "queue_step\<^sup>*\<^sup>* (threads_start m) s"
  shows "(\<exists>xs. queue_rep (shared s) xs \<and> pushed s = pulled s @ xs \<and> int (length xs) \<le> m)
    \<and> (buffer_step (nat m))\<^sup>*\<^sup>* ([], []) (pushed s, pulled s)"
proof -
  have "(buffer_step (nat m))\<^sup>*\<^sup>* (buffer_of (threads_start m)) (buffer_of s)"
    using mp4_threads.refines_reachable [of m "threads_start m" s] assms by simp
  then have b: "(buffer_step (nat m))\<^sup>*\<^sup>* ([], []) (pushed s, pulled s)"
    by (simp add: buffer_of_def threads_start_def)
  have inv: "threads_inv m s"
    using mp4_threads.inv_reachable [of m "threads_start m" s] assms by simp
  then obtain xs where xs: "queue_rep (shared s) xs" "pushed s = pulled s @ xs"
      and m: "q_maxSize (snd (shared s)) = m" by (auto simp: threads_inv_def)
  have "length xs \<le> nat m" using mp4_q.rep_bound [of "shared s" xs] xs(1) m assms(1) by simp
  then have "int (length xs) \<le> m" using assms(1) by simp
  then show ?thesis using b xs by blast
qed

text \<open>
  A run of two threads: thread 1 waits on the empty queue, thread 0 pushes 7 and wakes it.
\<close>

definition demo_queue :: queue_threads where
  "demo_queue = (threads_start 2)\<lparr>shared := ([0 \<mapsto> \<lparr>next_node = None, data = 7\<rparr>],
       \<lparr>q_head = Some 0, q_tail = Some 0, q_size = 1, q_maxSize = 2\<rparr>),
     pcs := (\<lambda>_. Outside)(1 := PullTry), pushed := [7]\<rparr>"

lemma demo_queue_run: "queue_step\<^sup>*\<^sup>* (threads_start 2) demo_queue"
proof -
  let ?a = "threads_start 2"
  let ?b = "?a\<lparr>pcs := (pcs ?a)(1 := PullTry)\<rparr>"
  let ?c = "?b\<lparr>pcs := (pcs ?b)(1 := PullWait)\<rparr>"
  let ?d = "?c\<lparr>pcs := (pcs ?c)(0 := PushTry 7)\<rparr>"
  have 1: "queue_step ?a ?b" by (intro q_call_pull) (simp add: threads_start_def)
  have 2: "queue_step ?b ?c"
    by (intro q_pull [of _ 1]) (simp_all add: pull_turn_def pull_blocks_def threads_start_def queue_create_def)
  have 3: "queue_step ?c ?d" by (intro q_call_push) (simp add: threads_start_def)
  have size: "s32 1 = 1" by (simp add: s32_id c_int_def)
  have "push_turn 0 0 7 ?d = Inr demo_queue"
    by (simp add: push_turn_def push_blocks_def queue_push_def threads_start_def queue_create_def Let_def
        demo_queue_def broadcast_def size fun_eq_iff)
  then have 4: "queue_step ?d demo_queue"
    by (intro q_push [of _ 0 7 0]) (simp_all add: threads_start_def)
  from 1 2 3 4 show ?thesis by (meson rtranclp.rtrancl_into_rtrancl rtranclp.rtrancl_refl)
qed

theorem queue_threads_fifo_witness:
  "(\<exists>xs. queue_rep (shared demo_queue) xs \<and> [7] = [] @ xs \<and> int (length xs) \<le> 2)
    \<and> (buffer_step 2)\<^sup>*\<^sup>* ([], []) ([7], [])"
  using queue_threads_fifo [OF _ _ demo_queue_run] by (simp add: c_int_def demo_queue_def threads_start_def)

text \<open>
  C8. No wake-up is lost, although a push broadcasts only into an empty queue and a pull only out
  of a full one: a thread sleeps in a pull only while the queue is empty and in a push only while
  it is full. So whenever a thread sleeps in one operation, a thread that calls the other one
  completes it: the threads cannot all sleep. No turn of a thread faults.
\<close>
theorem queue_no_lost_wakeup:
  assumes "0 < m" and "c_int m" and "queue_step\<^sup>*\<^sup>* (threads_start m) s"
  shows "(pcs s t = PullWait \<longrightarrow> pull_blocks (snd (shared s)) \<and> \<not> push_blocks (snd (shared s)))
    \<and> (pcs s t = PushWait d \<longrightarrow> push_blocks (snd (shared s)) \<and> \<not> pull_blocks (snd (shared s)))
    \<and> (fst (shared s) nd = None \<longrightarrow> (\<exists>s'. push_turn t nd d s = Inr s'))
    \<and> (\<exists>s'. pull_turn t s = Inr s')"
proof -
  have inv: "threads_inv m s"
    using mp4_threads.inv_reachable [of m "threads_start m" s] assms by simp
  then obtain xs where xs: "queue_rep (shared s) xs" "wait_inv xs (nat m) (pcs s)"
      and m: "q_maxSize (snd (shared s)) = m" by (auto simp: threads_inv_def)
  have r: "queue_rep (shared s) xs \<and> 0 < q_maxSize (snd (shared s))" using xs(1) m assms(1) by simp
  have full: "push_blocks (snd (shared s)) \<longleftrightarrow> length xs = nat m"
    using mp4_q.rep_full [OF r] m by simp
  have emp: "pull_blocks (snd (shared s)) \<longleftrightarrow> xs = []" using mp4_q.rep_empty [OF r] by simp
  have "pcs s t = PullWait \<longrightarrow> pull_blocks (snd (shared s)) \<and> \<not> push_blocks (snd (shared s))"
    "pcs s t = PushWait d \<longrightarrow> push_blocks (snd (shared s)) \<and> \<not> pull_blocks (snd (shared s))"
    using xs(2) full emp assms(1) by (auto simp: wait_inv_def)
  moreover have "fst (shared s) nd = None \<longrightarrow> (\<exists>s'. push_turn t nd d s = Inr s')"
    using mp4_q.push_ok [OF r, of nd d] by (auto simp: push_turn_def)
  moreover have "\<exists>s'. pull_turn t s = Inr s'"
  proof (cases xs)
    case (Cons y ys)
    then show ?thesis using mp4_q.pull_ok [of "shared s" y ys] r emp by (auto simp: pull_turn_def)
  qed (use emp in \<open>simp add: pull_turn_def\<close>)
  ultimately show ?thesis by blast
qed

theorem queue_no_lost_wakeup_witness: "\<exists>s'. pull_turn 1 demo_queue = Inr s'"
  using queue_no_lost_wakeup [OF _ _ demo_queue_run, of 1] by (simp add: c_int_def)

text \<open>
  The pointer queue refines a list: any sequence of operations on a queue that represents \<open>xs\<close>,
  leaving out those that would block, runs without a fault, and what it has pulled, followed by
  what is left, is \<open>xs\<close> followed by what it has pushed; the capacity is unchanged.
\<close>
theorem queue_runs_refine_list:
  assumes "queue_rep s xs" and "0 < q_maxSize (snd s)"
  shows "\<exists>ins outs t xs'. mp4_q.run ops s [] [] = Inr (ins, outs, t) \<and> queue_rep t xs'
     \<and> xs @ ins = outs @ xs' \<and> nat (q_maxSize (snd t)) = nat (q_maxSize (snd s))"
  using mp4_q.run_fifo [of s xs xs "[]" "[]" ops] assms by auto

theorem queue_runs_refine_list_witness:
  "\<exists>ins outs t xs'. mp4_q.run [Push 0 5, Push 1 6, Pull] (Map.empty, queue_create 1) [] [] = Inr (ins, outs, t)
     \<and> queue_rep t xs' \<and> [] @ ins = outs @ xs'"
proof -
  have "queue_rep (Map.empty, queue_create 1) []" by (intro queue_rep_create) (simp add: c_int_def)
  from queue_runs_refine_list [OF this, of "[Push 0 5, Push 1 6, Pull]"] show ?thesis
    by (auto simp: queue_create_def)
qed

text \<open>
  Destroying a queue ends, frees every node exactly once, and leaves no node allocated.
\<close>
theorem queue_destroy_frees_all:
  assumes "queue_rep s xs"
  shows "queue_destroy s = Some (Inr Map.empty)"
  using assms by (rule queue_destroy_rep)

theorem queue_destroy_frees_all_witness: "queue_destroy (shared demo_queue) = Some (Inr Map.empty)"
proof -
  have "queue_nodes (shared demo_queue) [(0, 7)]"
    by (auto simp: queue_nodes_def demo_queue_def threads_start_def c_int_def split: if_splits)
  then have "queue_rep (shared demo_queue) [7]" by (auto simp: queue_rep_def)
  then show ?thesis by (rule queue_destroy_frees_all)
qed

section \<open>Sockets and messages\<close>

text \<open>
  C31. The read loop: however the bytes are split over calls and interrupted, when they all come it
  returns their number with exactly these bytes stored; and in every case, failures included, what
  it stored and what is left in the connection are what was sent, in order, and the full number is
  returned only if that many bytes are stored.
\<close>
theorem read_all_exact:
  assumes "0 < n"
  shows "(delivers es n \<and> n \<le> length inp \<longrightarrow>
       read_all_from_socket es inp n = Some (int n, take n inp, drop n inp))
    \<and> (\<forall>r out rest. read_all_from_socket es inp n = Some (r, out, rest) \<longrightarrow>
       out @ rest = inp \<and> (r = int n \<and> length out = n \<or> r = 0 \<or> r = - 1))"
  using read_all_delivers [of es n "[]" inp] read_all_sound [of es inp "[]" n] assms
  by (auto simp: read_all_from_socket_def)

theorem read_all_exact_witness:
  "read_all_from_socket [Chunk 1, Interrupted, Chunk 0, Chunk 5] [1, 2, 3, 4, 5] 3 = Some (3, [1, 2, 3], [4, 5])"
  using read_all_exact [of 3 "[Chunk 1, Interrupted, Chunk 0, Chunk 5]" "[1, 2, 3, 4, 5]"] by simp

text \<open>
  C13. A job that one side transfers arrives on the other as the same job with the same data, however
  the bytes are split on either side: \<^verbatim>\<open>transfer\<close> of job \<open>j\<close>, as a result or (for \<open>j > 0\<close>) as a moved
  job, is received with that number and the 4096 doubles of the sender's array, and what follows
  in the connection is left for the next message.
\<close>
theorem transfer_received:
  assumes "0 \<le> j" and "j < JOB_NUM" and "k = j \<or> k = JOB_NUM + j \<and> 0 < j" and "length arr = ARRAY_SIZE"
    and "delivers e1 4" and "delivers e2 4" and "delivers e3 32768"
    and "delivers f1 4" and "delivers f2 16" and "delivers f3 32768"
  shows "\<exists>w. transfer e1 e2 e3 k arr [] = Some (Inr w)
     \<and> server_recv f1 f2 f3 (w @ rest) = Some (Some (DataMsg k (block (nat j) arr)), rest)
     \<and> client_recv f1 f2 f3 (w @ rest) = Some (Some (DataMsg k (block (nat j) arr)), rest)"
proof -
  let ?m = "DataMsg k (block (nat j) arr)"
  have j: "0 \<le> j" "j < 1024" using assms(1,2) by (simp_all add: JOB_NUM_def)
  have b: "read_block (create_message k) arr = Inr (block (nat j) arr)"
    using read_block_job [OF j assms(4)] assms(3) by auto
  have len: "length (block (nat j) arr) = 4096" using j assms(4) by simp
  have ok: "msg_ok ?m" and k: "k \<noteq> - 1" using assms(3) j len by (auto simp: JOB_NUM_def c_int_def)
  have "transfer e1 e2 e3 k arr [] = Some (Inr (encode_msg ?m))"
    using transfer_encodes [OF assms(5-7) b len k, of "[]"] by simp
  then show ?thesis
    using server_recv_encoded [OF assms(8-10) ok] client_recv_encoded [OF assms(8-10) ok] by simp
qed

definition calls :: "nat \<Rightarrow> io_event list" where
  "calls n = replicate n (Chunk 0)"

lemma calls_deliver: "n \<le> m \<Longrightarrow> delivers (calls m) n"
  by (simp add: calls_def delivers_def chunks_def)

theorem transfer_received_witness:
  "\<exists>w. transfer (calls 4) (calls 4) (calls 32768) (JOB_NUM + 3) (replicate ARRAY_SIZE 9) [] = Some (Inr w)
     \<and> server_recv (calls 4) (calls 16) (calls 32768) (w @ [1]) =
         Some (Some (DataMsg (JOB_NUM + 3) (block 3 (replicate ARRAY_SIZE 9))), [1])"
proof -
  note c = calls_deliver [of 4 4] calls_deliver [of 16 16] calls_deliver [of 32768 32768]
  show ?thesis
    using transfer_received [of 3 "JOB_NUM + 3" "replicate ARRAY_SIZE 9" "calls 4" "calls 4" "calls 32768"
        "calls 4" "calls 16" "calls 32768" "[1]"] c
    by (auto simp: JOB_NUM_def)
qed

text \<open>
  C14. However the threads of a process interleave their writes, what has been written to the socket
  is the messages sent so far, one after the other, followed by a part of at most one message, that of
  the thread that holds \<^verbatim>\<open>transfer_mutex\<close>; their sizes add up to the bytes of the connection. A reader that handles messages as
  the server does receives exactly these messages in this order. One that handles them as the client does receives exactly those
  before the first end mark -1, and is then at the mark; it takes the mark for a job, and when 32768 bytes follow it drops
  them as the block of that job.
\<close>
theorem wire_carries_messages:
  assumes "wire_step\<^sup>*\<^sup>* wire_start w"
    and "delivers e1 4" and "delivers e2 16" and "delivers e3 32768"
  shows "\<exists>part. written w part
     \<and> recv_msgs (server_recv e1 e2 e3) (length (sent_msgs w)) (wire_bytes w) = Some (sent_msgs w, part)
     \<and> recv_msgs (client_recv e1 e2 e3) (length (takeWhile (\<lambda>m. m \<noteq> EndMsg) (sent_msgs w))) (wire_bytes w)
         = Some (takeWhile (\<lambda>m. m \<noteq> EndMsg) (sent_msgs w),
                 concat (map encode_msg (dropWhile (\<lambda>m. m \<noteq> EndMsg) (sent_msgs w))) @ part)
     \<and> (\<forall>bs rest. length bs = 32768 \<longrightarrow> client_recv e1 e2 e3 (encode_msg EndMsg @ bs @ rest) = Some (None, rest))
     \<and> length (wire_bytes w) = sum_list (map wire_size (sent_msgs w)) + length part"
proof -
  let ?pre = "takeWhile (\<lambda>m. m \<noteq> EndMsg) (sent_msgs w)" and ?post = "dropWhile (\<lambda>m. m \<noteq> EndMsg) (sent_msgs w)"
  have "wire_inv w" using mp4_wire.inv_reachable assms(1) by blast
  then obtain part where ok: "\<forall>m \<in> set (sent_msgs w). msg_ok m" and p: "written w part"
      and s: "wire_bytes w = concat (map encode_msg (sent_msgs w)) @ part"
    by (auto simp: wire_inv_def list_all_iff)
  have "recv_msgs (server_recv e1 e2 e3) (length (sent_msgs w)) (wire_bytes w) = Some (sent_msgs w, part)"
    unfolding s using server_recv_encoded [OF assms(2-4)] ok by (intro recv_msgs_encoded) blast
  moreover have bytes: "wire_bytes w = concat (map encode_msg ?pre) @ concat (map encode_msg ?post) @ part"
    unfolding s by (metis append.assoc concat_append map_append takeWhile_dropWhile_id)
  have "recv_msgs (client_recv e1 e2 e3) (length ?pre) (wire_bytes w) = Some (?pre, concat (map encode_msg ?post) @ part)"
    unfolding bytes using client_recv_encoded [OF assms(2-4)] ok
    by (intro recv_msgs_encoded) (auto dest!: set_takeWhileD)
  moreover have "client_recv e1 e2 e3 (encode_msg EndMsg @ bs @ rest) = Some (None, rest)" if "length bs = 32768" for bs rest
    using client_recv_end [OF assms(2-4) that] .
  moreover have "length (wire_bytes w) = sum_list (map wire_size (sent_msgs w)) + length part"
    using ok by (simp add: s length_encodes list_all_iff)
  ultimately show ?thesis using p by blast
qed

text \<open>Thread 1 sends a request for jobs in two writes, then thread 2 the first three bytes of the end.\<close>

definition wire_example :: wire where
  "wire_example = \<lparr>transfer_mutex = Some 2, in_hand = [2 \<mapsto> (EndMsg, [0, 255, 255, 255, 255])],
     wire_bytes = [0, 0, 0, 2, 0, 0, 0], sent_msgs = [RebalanceMsg]\<rparr>"

lemma be_example:
  "be_int MSG_TYPE_REBALANCE = [0, 0, 0, 2]" "be_int MSG_TYPE_DATA = [0, 0, 0, 0]" "be_int (- 1) = [255, 255, 255, 255]"
  by code_simp+

lemma wire_example_reachable: "wire_step\<^sup>*\<^sup>* wire_start wire_example"
proof -
  let ?w1 = "wire_start\<lparr>transfer_mutex := Some 1, in_hand := [1 \<mapsto> (RebalanceMsg, [0, 0, 0, 2])]\<rparr>"
  let ?w2 = "?w1\<lparr>wire_bytes := [0], in_hand := [1 \<mapsto> (RebalanceMsg, [0, 0, 2])]\<rparr>"
  let ?w3 = "?w1\<lparr>wire_bytes := [0, 0, 0, 2], in_hand := [1 \<mapsto> (RebalanceMsg, [])]\<rparr>"
  let ?w4 = "wire_start\<lparr>wire_bytes := [0, 0, 0, 2], sent_msgs := [RebalanceMsg]\<rparr>"
  let ?w5 = "?w4\<lparr>transfer_mutex := Some 2, in_hand := [2 \<mapsto> (EndMsg, [0, 0, 0, 0, 255, 255, 255, 255])]\<rparr>"
  have "wire_step wire_start ?w1"
    using wire_lock [of wire_start 1 RebalanceMsg] by (simp add: wire_start_def be_example)
  moreover have "wire_step ?w1 ?w2" using wire_write [of ?w1 1 RebalanceMsg _ 1] by (simp add: wire_start_def)
  moreover have "wire_step ?w2 ?w3" using wire_write [of ?w2 1 RebalanceMsg _ 3] by (simp add: wire_start_def)
  moreover have "wire_step ?w3 ?w4" using wire_unlock [of ?w3 1 RebalanceMsg] by (simp add: wire_start_def)
  moreover have "wire_step ?w4 ?w5" using wire_lock [of ?w4 2 EndMsg] by (simp add: wire_start_def be_example)
  moreover have "wire_step ?w5 wire_example"
    using wire_write [of ?w5 2 EndMsg _ 3] by (simp add: wire_start_def wire_example_def)
  ultimately show ?thesis by (meson converse_rtranclp_into_rtranclp rtranclp.rtrancl_refl)
qed

theorem wire_carries_messages_witness:
  "recv_msgs (server_recv (calls 4) (calls 16) (calls 32768)) 1 [0, 0, 0, 2, 0, 0, 0] = Some ([RebalanceMsg], [0, 0, 0])"
proof -
  obtain part where "recv_msgs (server_recv (calls 4) (calls 16) (calls 32768)) 1 [0, 0, 0, 2, 0, 0, 0] = Some ([RebalanceMsg], part)"
      and "written wire_example part"
    using wire_carries_messages [OF wire_example_reachable calls_deliver calls_deliver calls_deliver, of 4 16 32768]
    by (auto simp: wire_example_def)
  then show ?thesis by (simp add: wire_example_def written_def be_example append_eq_append_conv2)
qed

text \<open>
  The state message arrives as sent, but its throttle is misread: the sender stores the bits of
  a \<^verbatim>\<open>float\<close>, and the receiver takes them for an \<^verbatim>\<open>int\<close> and converts that to \<^verbatim>\<open>float\<close>. The number of jobs
  and the CPU use are taken over unchanged.
\<close>
theorem state_message_throttle:
  assumes "delivers e1 4" and "delivers e2 16" and "delivers f1 4" and "delivers f2 16" and "delivers f3 32768"
    and "c_int n" and "\<not> (peer_num_jobs p = - 1 \<and> n = 0)"
  shows "\<exists>w. send_state e1 e2 n th cpu [] = Some (0, w)
     \<and> server_recv f1 f2 f3 (w @ rest) = Some (Some (StateMsg n th cpu), rest)
     \<and> (\<exists>k out. server_handle fi (StateMsg n th cpu) p = Some (Inr
          (k, p\<lparr>peer_num_jobs := n, peer_throttle_value := fi (sint th), peer_cpu_usage := cpu\<rparr>, out)))"
proof -
  have ok: "msg_ok (StateMsg n th cpu)" using assms(6) by simp
  have "send_state e1 e2 n th cpu [] = Some (0, encode_msg (StateMsg n th cpu))"
    using send_state_encodes [OF assms(1,2), of n th cpu "[]"] by simp
  moreover have "\<exists>k out. server_handle fi (StateMsg n th cpu) p = Some (Inr
      (k, p\<lparr>peer_num_jobs := n, peer_throttle_value := fi (sint th), peer_cpu_usage := cpu\<rparr>, out))"
    using state_begin_stores [OF assms(7), of fi th cpu] by simp
  ultimately show ?thesis using server_recv_encoded [OF assms(3-5) ok] by blast
qed

text \<open>At the throttle 1.0, whose bits are \<^verbatim>\<open>0x3F800000\<close>, the conversion is applied to 1065353216.\<close>

theorem state_message_throttle_witness:
  "\<exists>w. send_state (calls 4) (calls 16) 3 0x3F800000 0 [] = Some (0, w)
     \<and> (\<exists>k out. server_handle (\<lambda>i. if i = 1065353216 then 0x4E7E0000 else 0) (StateMsg 3 0x3F800000 0) (peer_start 0) =
         Some (Inr (k, (peer_start 0)\<lparr>peer_num_jobs := 3, peer_throttle_value := 0x4E7E0000, peer_cpu_usage := 0\<rparr>, out)))"
proof -
  note c = calls_deliver [of 4 4] calls_deliver [of 16 16] calls_deliver [of 32768 32768]
  have "sint (0x3F800000 :: u32) = 1065353216" by simp
  then show ?thesis
    using state_message_throttle [of "calls 4" "calls 16" "calls 4" "calls 16" "calls 32768" 3 "peer_start 0"
        "0x3F800000" 0 "[]" "\<lambda>i. if i = 1065353216 then 0x4E7E0000 else 0"] c
    by (auto simp: c_int_def simp del: server_handle.simps)
qed

text \<open>
  The client reads a block after any job number, also after the end message, which has none:
  it takes the next 32768 bytes, whatever they are, for the block and drops them.
\<close>
theorem client_swallows_after_end:
  assumes "delivers e1 4" and "delivers e2 4" and "delivers e3 32768" and "32768 \<le> length rest"
  shows "client_recv e1 e2 e3 (encode_msg EndMsg @ rest) = Some (None, drop 32768 rest)"
  using get_single_value_delivers [OF assms(1)] get_single_value_delivers [OF assms(2)]
    read_all_delivers [of e3 32768 "[]" rest] assms(3,4)
  by (simp add: client_recv_def get_msg_type_def get_jobid_def recv_block_def read_all_from_socket_def
      MSG_TYPE_DATA_def c_int_def JOB_SIZE_def)

theorem client_swallows_after_end_witness:
  "client_recv (calls 4) (calls 4) (calls 32768) (encode_msg EndMsg @ replicate 32768 1 @ [2]) = Some (None, [2])"
  using client_swallows_after_end [of "calls 4" "calls 4" "calls 32768" "replicate 32768 1 @ [2]"]
    calls_deliver [of 4 4] calls_deliver [of 32768 32768] by simp

text \<open>
  C21. Whatever bytes arrive at the server, and however the calls of \<^verbatim>\<open>read\<close> split them, a message it
  takes from them is well formed: numbers are 32-bit, and a job has exactly 4096 entries. The only
  messages that make the server leave its array are jobs numbered \<^verbatim>\<open>JOB_NUM\<close> or \<open>2 * JOB_NUM\<close> and up.
  The same typing holds for the client, which never takes the end message.
\<close>
theorem received_messages_typed:
  assumes "server_recv e1 e2 e3 inp = Some (Some m, rest)" and "length (job_array p) = ARRAY_SIZE"
    and "client_recv f1 f2 f3 inp' = Some (Some m', rest')"
  shows "msg_ok m \<and> msg_ok m' \<and> m' \<noteq> EndMsg
     \<and> (\<forall>e. server_handle fi m p = Some (Inl e) \<longrightarrow>
          (\<exists>j b. m = DataMsg j b \<and> (j = JOB_NUM \<or> 2 * JOB_NUM \<le> j)))"
proof -
  have ok: "msg_ok m" using recv_msg_ok(1) [OF assms(1)] .
  have "\<exists>j b. m = DataMsg j b \<and> (j = JOB_NUM \<or> 2 * JOB_NUM \<le> j)" if fault: "server_handle fi m p = Some (Inl e)" for e
  proof (cases m)
    case (DataMsg j b)
    let ?j = "if j > JOB_NUM then j - JOB_NUM else j"
    have "0 \<le> ?j" "length b = 4096" using ok DataMsg by auto
    then have "\<not> ?j < 1024"
      using fault DataMsg storeLocal_block [of ?j "job_array p" b] assms(2) by (auto simp: Let_def split: option.splits)
    then show ?thesis using DataMsg by (auto simp: JOB_NUM_def split: if_splits)
  qed (use fault in \<open>auto split: option.splits\<close>)
  then show ?thesis using ok recv_msg_ok(2) [OF assms(3)] by blast
qed

theorem received_messages_typed_witness:
  "msg_ok (DataMsg 3 (replicate 4096 9)) \<and> msg_ok RebalanceMsg
     \<and> server_handle (\<lambda>_. 0) (DataMsg 3 (replicate 4096 9)) (peer_start 0) \<noteq> Some (Inl OutOfBounds)"
proof -
  note c = calls_deliver [of 4 4] calls_deliver [of 16 16] calls_deliver [of 32768 32768]
  have "server_recv (calls 4) (calls 16) (calls 32768) (encode_msg (DataMsg 3 (replicate 4096 9)) @ []) =
      Some (Some (DataMsg 3 (replicate 4096 9)), [])"
    by (rule server_recv_encoded) (simp_all add: c c_int_def)
  moreover have "client_recv (calls 4) (calls 16) (calls 32768) (encode_msg RebalanceMsg @ []) = Some (Some RebalanceMsg, [])"
    by (rule client_recv_encoded) (simp_all add: c)
  moreover have "length (job_array (peer_start 0)) = ARRAY_SIZE" by (simp add: peer_start_def peer_globals_def)
  ultimately show ?thesis
    using received_messages_typed [of "calls 4" "calls 16" "calls 32768" _ "DataMsg 3 (replicate 4096 9)" "[]" "peer_start 0"
      "calls 4" "calls 16" "calls 32768" _ RebalanceMsg "[]" "\<lambda>_. 0"] by (auto simp: JOB_NUM_def)
qed

section \<open>The load balancer\<close>

text \<open>
  C18. When the local queue holds at least six jobs more than the peer's, none of them job 0, and a transfer is allowed,
  the balancer moves the oldest half of the difference, each job with its data, and leaves the two
  sides with numbers that differ by at most one.
\<close>
theorem adaptor_balances:
  assumes "0 \<le> peer_num_jobs p" and "length (job_todo p) \<le> 1024"
    and "peer_num_jobs p + DIFF_THRESHOLD < int (length (job_todo p))"
    and "transfer_policy p = 0 \<or> transfer_policy p = 2 \<or> rebalance_requested p"
    and "\<And>j. j \<in> set (job_todo p) \<Longrightarrow> 0 < j \<and> j < JOB_NUM" and "length (job_array p) = ARRAY_SIZE"
    and "n = nat ((int (length (job_todo p)) - peer_num_jobs p) div 2)"
  shows "\<exists>k. adaptor p = Some (Inr (p\<lparr>job_todo := drop n (job_todo p), job_sent := k\<rparr>,
           map (moved (job_array p)) (take n (job_todo p))))
     \<and> length (drop n (job_todo p)) - nat (peer_num_jobs p + int n) \<le> 1
     \<and> nat (peer_num_jobs p + int n) \<le> length (drop n (job_todo p))"
proof -
  let ?d = "int (length (job_todo p)) - peer_num_jobs p"
  have d: "s32 ?d = ?d" using assms(1-3) by (intro s32_id) (simp add: c_int_def DIFF_THRESHOLD_def)
  have q: "c_div ?d 2 = Inr (?d div 2)" using assms(3) by (intro c_div_pos) (simp_all add: DIFF_THRESHOLD_def)
  have le: "n \<le> length (job_todo p)" using assms(1,7) by simp
  have ad: "adaptor p = move_loop n p []"
    using assms(1,3,4) by (simp add: adaptor_def adaptor_begin_def d q Let_def assms(7))
  have "\<exists>k. adaptor p = Some (Inr (p\<lparr>job_todo := drop n (job_todo p), job_sent := k\<rparr>,
           map (moved (job_array p)) (take n (job_todo p))))"
    using ad move_loop_exact [OF le assms(5,6), of "[]"] by simp
  moreover have "length (drop n (job_todo p)) - nat (peer_num_jobs p + int n) \<le> 1"
    "nat (peer_num_jobs p + int n) \<le> length (drop n (job_todo p))"
    using assms(1,3,7) le by (auto simp: DIFF_THRESHOLD_def)
  ultimately show ?thesis by blast
qed

theorem adaptor_balances_witness:
  "\<exists>k. adaptor ((peer_start 0)\<lparr>job_todo := [1..9], peer_num_jobs := 2, rebalance_requested := True\<rparr>) =
     Some (Inr ((peer_start 0)\<lparr>job_todo := [4..9], peer_num_jobs := 2, rebalance_requested := True, job_sent := k\<rparr>,
       map (moved (replicate ARRAY_SIZE 0)) [1, 2, 3]))"
proof -
  let ?p = "(peer_start 0)\<lparr>job_todo := [1..9], peer_num_jobs := 2, rebalance_requested := True\<rparr>"
  have l: "[1..9] = [1, 2, 3, 4, 5, 6, 7, 8, 9 :: int]" "[4..9] = [4, 5, 6, 7, 8, 9 :: int]"
    by (simp_all add: upto.simps)
  have jobs: "0 < j \<and> j < JOB_NUM" if "j \<in> set (job_todo ?p)" for j
    using that by (simp add: peer_start_def peer_globals_def JOB_NUM_def)
  have "\<exists>k. adaptor ?p = Some (Inr (?p\<lparr>job_todo := drop 3 (job_todo ?p), job_sent := k\<rparr>,
           map (moved (job_array ?p)) (take 3 (job_todo ?p))))"
    using adaptor_balances [of ?p 3, OF _ _ _ _ jobs] by (auto simp: l peer_start_def peer_globals_def DIFF_THRESHOLD_def)
  then show ?thesis by (simp add: l peer_start_def peer_globals_def)
qed

text \<open>
  Job 0 cannot be moved: \<^verbatim>\<open>JOB_NUM + 0\<close> is not greater than \<^verbatim>\<open>JOB_NUM\<close>, so the sender takes its data
  from behind the end of the array, and a server that receives the number stores the data there.
\<close>
theorem job_zero_overruns:
  assumes "length (job_array p) = ARRAY_SIZE" and "length b = 4096" and "job_todo p = 0 # q"
    and "delivers e1 4" and "delivers e2 4"
  shows "transfer e1 e2 e3 (JOB_NUM + 0) (job_array p) wire = Some (Inl OutOfBounds)
     \<and> move_loop (Suc n) p sent = Some (Inl OutOfBounds)
     \<and> server_handle fi (DataMsg (JOB_NUM + 0) b) p = Some (Inl OutOfBounds)"
proof -
  have r: "read_block (create_message (JOB_NUM + 0)) (job_array p) = Inl OutOfBounds"
    using read_block_job_0 [OF assms(1)] .
  have "JOB_NUM + 0 \<noteq> - 1" by (simp add: JOB_NUM_def)
  then show ?thesis
    using r storeLocal_1024 [OF assms(1,2)] assms(3) send_single_value_delivers [OF assms(4)]
      send_single_value_delivers [OF assms(5)]
    by (auto simp: transfer_def move_turn_def transfer_msg_def send_msg_type_def write_jobid_def Let_def)
qed

theorem job_zero_overruns_witness:
  "move_loop 1 ((peer_start 0)\<lparr>job_todo := [0, 1]\<rparr>) [] = Some (Inl OutOfBounds)"
  using job_zero_overruns [of "(peer_start 0)\<lparr>job_todo := [0, 1]\<rparr>" "replicate 4096 0" "[1]" "calls 4" "calls 4"
      "[]" "[]" 0 "[]" "\<lambda>_. 0"] calls_deliver [of 4 4]
  by (simp add: peer_start_def peer_globals_def)

text \<open>
  The throttled computation changes the block of its job exactly as the plain one, and the pause
  it asks for is the elapsed time scaled, to the microsecond, in a form that \<^verbatim>\<open>nanosleep\<close> accepts, as
  long as the scaled time is not negative, also when the microseconds wrap between the two readings
  of the clock. A negative one (a throttle above 1) is always refused by \<^verbatim>\<open>nanosleep\<close>.
\<close>
theorem compute_with_throttle_pause:
  assumes "0 \<le> j" and "j < JOB_NUM" and "length vec = ARRAY_SIZE"
    and "elapsed = (s1 * 1000000 + u1) - (s0 * 1000000 + u0)"
  shows "\<exists>sec nsec. compute_with_throttle bump scale (s0, u0) (s1, u1) vec j =
       Inr (set_block (nat j) (map (bump_loop bump 6000) (block (nat j) vec)) vec, sec, nsec)
     \<and> (timespec_ok (sec, nsec) \<longleftrightarrow> 0 \<le> scale elapsed)
     \<and> (0 \<le> scale elapsed \<longrightarrow> sec * 1000000000 + nsec = scale elapsed * 1000)"
proof -
  have e: "elapsed = (s1 - s0) * 1000000 + (u1 - u0)" using assms(4) by simp
  have "compute bump vec j = Inr (set_block (nat j) (map (bump_loop bump 6000) (block (nat j) vec)) vec)"
    using assms(1-3) by (intro compute_block) (simp_all add: JOB_NUM_def)
  moreover have "timespec_ok (throttle_sleep scale (s0, u0) (s1, u1)) \<longleftrightarrow> 0 \<le> scale elapsed"
    using throttle_sleep_ok(1) throttle_sleep_negative unfolding e by (meson not_le)
  ultimately show ?thesis
    using throttle_sleep_ok(2) [of scale s1 s0 u1 u0]
    by (cases "throttle_sleep scale (s0, u0) (s1, u1)") (simp add: compute_with_throttle_def e)
qed

text \<open>From 3.9 s to 5.1 s, with a pause of half the time.\<close>

theorem compute_with_throttle_pause_witness:
  "\<exists>sec nsec. compute_with_throttle (\<lambda>x. x + 1) (\<lambda>t. t div 2) (3, 900000) (5, 100000) (replicate ARRAY_SIZE 0) 7 =
       Inr (set_block 7 (map (bump_loop (\<lambda>x. x + 1) 6000) (block 7 (replicate ARRAY_SIZE 0))) (replicate ARRAY_SIZE 0), sec, nsec)
     \<and> timespec_ok (sec, nsec) \<and> sec * 1000000000 + nsec = 600000000"
  using compute_with_throttle_pause [of 7 "replicate ARRAY_SIZE 0" 1200000 5 100000 3 900000 "\<lambda>x. x + 1" "\<lambda>t. t div 2"]
  by (simp add: JOB_NUM_def)

section \<open>Client and server\<close>

lemma system_reachable_inv:
  assumes "client_init v arr = Some (Inr c0)" and "length arr = ARRAY_SIZE" and "main_take c0 = Some (th, c)"
    and "server_init v arr' = Inr q" and "length arr' = ARRAY_SIZE"
    and "(sys_step bump fi)\<^sup>*\<^sup>* (sys_boot c th q) s"
  shows "sys_inv bump v s"
  using mp4_sys.inv_reachable [of "sys_start v" v bump fi s] assms(6) start_state [OF assms(1-5)] by simp

lemma finished_array:
  assumes "sys_inv bump v s" and "JOB_NUM \<le> job_finished (cl s)"
  shows "job_array (c_peer (cl s)) = replicate ARRAY_SIZE (bump_loop bump 6000 v)"
proof (rule blocks_eqI)
  have pl: "place_inv s" and d: "data_inv bump v s" using assms(1) by (simp_all add: sys_inv_def)
  show "length (job_array (c_peer (cl s))) = ARRAY_SIZE" using data_invD(1) [OF d] .
  have "length (inflight s) = 0" using pl assms(2) by (simp add: place_inv_def del: length_0_conv)
  then have "inflight s = []" by simp
  then show "block i (job_array (c_peer (cl s))) = block i (replicate ARRAY_SIZE (bump_loop bump 6000 v))"
    if "i < 1024" for i
    using that data_invD(3) [OF d] block_start [OF that, of "bump_loop bump 6000 v"]
    by (simp add: start_block_def final_block_def)
qed simp

lemma finished_done:
  assumes "sys_inv bump v s" and "JOB_NUM \<le> job_finished (cl s)"
  shows "job_finished (cl s) = JOB_NUM
     \<and> job_array (c_peer (cl s)) = replicate ARRAY_SIZE (bump_loop bump 6000 v)"
  using finished_array [OF assms] assms place_invD(2) [of s] by (auto simp: sys_inv_def)

text \<open>
  C1. Client and server together, from the state in which the client has filled its queues and its
  main loop has taken the first job: in every reachable state each job is in exactly one queue,
  message or thread of the two processes, or it is finished, and the counter of the client is the
  number of finished jobs. When the counter reaches \<^verbatim>\<open>JOB_NUM\<close>, every entry of the client's array has
  been incremented exactly 6000 times, whichever side computed it and however jobs were moved, and
  the output file has that value on each of its lines.
\<close>
theorem all_jobs_computed_once:
  assumes "client_init v arr = Some (Inr c0)" and "length arr = ARRAY_SIZE" and "main_take c0 = Some (th, c)"
    and "server_init v arr' = Inr q" and "length arr' = ARRAY_SIZE"
    and "(sys_step bump fi)\<^sup>*\<^sup>* (sys_boot c th q) s"
  shows "distinct (inflight s) \<and> set (inflight s) \<subseteq> {0..<JOB_NUM}
     \<and> job_finished (cl s) = JOB_NUM - int (length (inflight s))
     \<and> (job_finished (cl s) = JOB_NUM \<longrightarrow>
          job_array (c_peer (cl s)) = replicate ARRAY_SIZE (bump_loop bump 6000 v)
          \<and> client_output fmt (cl s) = Inr (concat (replicate ARRAY_SIZE (fmt (bump_loop bump 6000 v) @ [CHR 0x0A]))))"
proof -
  have inv: "sys_inv bump v s" using system_reachable_inv [OF assms] .
  then have pl: "place_inv s" by (simp add: sys_inv_def)
  have "job_array (c_peer (cl s)) = replicate ARRAY_SIZE (bump_loop bump 6000 v)
      \<and> client_output fmt (cl s) = Inr (concat (replicate ARRAY_SIZE (fmt (bump_loop bump 6000 v) @ [CHR 0x0A])))"
    if "job_finished (cl s) = JOB_NUM"
    using finished_array [OF inv] that output_loop_eq [of 0 ARRAY_SIZE "job_array (c_peer (cl s))" fmt "[]"]
    by (simp add: client_output_def)
  then show ?thesis using pl by (auto simp: place_inv_def)
qed

text \<open>The witnesses start from arrays of zeros, filled with 5.\<close>

definition client5 :: client where
  "client5 = \<lparr>c_peer = client_with 5 (0 # map int [1..<512]), job_finished = 0, job_server_done = 0\<rparr>"

lemma start5:
  "client_init 5 (replicate ARRAY_SIZE 0) = Some (Inr client5)" "length (replicate ARRAY_SIZE (0 :: u64)) = ARRAY_SIZE"
  "main_take client5 = Some (Computing 0, \<lparr>c_peer = client_booted 5, job_finished = 0, job_server_done = 0\<rparr>)"
  "server_init 5 (replicate ARRAY_SIZE 0) = Inr (peer_start 5)" "length (replicate ARRAY_SIZE (0 :: u64)) = ARRAY_SIZE"
  by (simp_all add: client_init_eq client5_def main_take_first client_booted_def server_init_eq)

lemma first_job_run:
  "\<exists>s. (sys_step (\<lambda>x. x + 1) (\<lambda>_. 0))\<^sup>*\<^sup>* (sys_start 5) s \<and> job_finished (cl s) = 1"
proof -
  obtain c' where c': "main_finish (\<lambda>x. x + 1) 0 (cl (sys_start 5)) = Inr c'"
    using compute_no_fault(1) [OF sys_inv_start, of 5 0 "\<lambda>x. x + 1"] by (auto simp: sys_start_def Let_def)
  let ?s = "(sys_start 5)\<lparr>cl := c', cl_main := Check\<rparr>"
  have "cl_main (sys_start 5) = Computing 0" by (simp add: sys_start_def Let_def)
  then have "(sys_step (\<lambda>x. x + 1) (\<lambda>_. 0))\<^sup>*\<^sup>* (sys_start 5) ?s"
    using sys_main_finish [OF _ c', of "\<lambda>_. 0"] by (intro r_into_rtranclp sys_turn) blast
  moreover have "job_finished c' = 1"
    using c' by (auto simp: main_finish_def bind_r_Inr_iff sys_start_def Let_def s32_id c_int_def)
  ultimately show ?thesis by (intro exI [of _ ?s]) simp
qed

theorem all_jobs_computed_once_witness:
  "\<exists>s. (sys_step (\<lambda>x. x + 1) (\<lambda>_. 0))\<^sup>*\<^sup>* (sys_start 5) s
     \<and> job_finished (cl s) = 1 \<and> job_finished (cl s) = JOB_NUM - int (length (inflight s))"
proof -
  obtain s where s: "(sys_step (\<lambda>x. x + 1) (\<lambda>_. 0))\<^sup>*\<^sup>* (sys_start 5) s" "job_finished (cl s) = 1"
    using first_job_run by blast
  then show ?thesis
    using all_jobs_computed_once [OF start5, of "\<lambda>x. x + 1" "\<lambda>_. 0" s] start_state [OF start5]
    by (intro exI [of _ s]) simp
qed

text \<open>
  C19. Once the main loop of the client has taken job 0, no thread of either process leaves the arrays in a state that can
  follow (before that a balancer that takes job 0 does): computing the current
  job, sending the oldest entry, handling the oldest message and moving a job all succeed or wait for
  a queue.
\<close>
theorem system_never_faults:
  assumes "client_init v arr = Some (Inr c0)" and "length arr = ARRAY_SIZE" and "main_take c0 = Some (th, c)"
    and "server_init v arr' = Inr q" and "length arr' = ARRAY_SIZE"
    and "(sys_step bump fi)\<^sup>*\<^sup>* (sys_boot c th q) s"
  shows "(cl_main s = Computing i \<longrightarrow> main_finish bump i (cl s) \<noteq> Inl e)
     \<and> (sv_worker s = Computing i \<longrightarrow> worker_finish bump i (sv s) \<noteq> Some (Inl e))
     \<and> writer_turn (c_peer (cl s)) \<noteq> Some (Inl e) \<and> writer_turn (sv s) \<noteq> Some (Inl e)
     \<and> move_turn (c_peer (cl s)) \<noteq> Some (Inl e) \<and> move_turn (sv s) \<noteq> Some (Inl e)
     \<and> (sc s = m # ms \<longrightarrow> client_handle fi m (cl s) \<noteq> Some (Inl e))
     \<and> (cs s = m # ms \<longrightarrow> server_handle fi m (sv s) \<noteq> Some (Inl e))"
proof -
  have inv: "sys_inv bump v s" using system_reachable_inv [OF assms] .
  then have pl: "place_inv s" and d: "data_inv bump v s" by (simp_all add: sys_inv_def)
  have "cl_main s = Computing i \<longrightarrow> main_finish bump i (cl s) \<noteq> Inl e"
    using compute_no_fault(1) [OF inv, of i] by auto
  then show ?thesis
    using compute_no_fault(2) [OF inv, of i e] client_no_fault [OF inv, of m ms fi e]
      server_no_fault [OF inv, of m ms fi e] writer_no_fault [OF held_movable(3) [OF pl] data_invD(1) [OF d], of e]
      writer_no_fault [OF held_movable(4) [OF pl] data_invD(2) [OF d], of e]
      move_turn_no_fault [OF held_movable(1) [OF pl] data_invD(1) [OF d], of e]
      move_turn_no_fault [OF held_movable(2) [OF pl] data_invD(2) [OF d], of e]
    by blast
qed

theorem system_never_faults_witness:
  "writer_turn (c_peer (cl (sys_start 5))) \<noteq> Some (Inl OutOfBounds)"
proof -
  show ?thesis
    using system_never_faults [OF start5, of "\<lambda>x. x + 1" "\<lambda>_. 0" "sys_start 5"] start_state [OF start5] by simp
qed

text \<open>
  C24. The first job must have been taken: from the state in which the threads are created, before the
  main loop of the client has taken job 0, there is a run in which the state messages of the first
  seconds bring the reader into the balancer, whose next turn sends the block behind the end of the
  array.
\<close>
theorem job_zero_race:
  assumes "client_init v arr = Some (Inr c0)" and "length arr = ARRAY_SIZE"
    and "server_init v arr' = Inr q" and "length arr' = ARRAY_SIZE"
  shows "\<exists>s. (sys_step bump fi)\<^sup>*\<^sup>* (sys_boot c0 Check q) s \<and> cl_reader s = Moving 255
     \<and> move_turn (c_peer (cl s)) = Some (Inl OutOfBounds)"
proof -
  have "q = peer_start v" using assms(3) server_init_eq [OF assms(4), of v] by simp
  then have boot: "sys_boot c0 Check q = snapshot Check (client_with v (0 # map int [1..<512])) (peer_start v) [] [] Check Check"
    using assms(1) client_init_eq [OF assms(2), of v] by (simp add: sys_boot_def snapshot_def)
  obtain p q' where s: "(sys_step bump fi)\<^sup>*\<^sup>* (sys_boot c0 Check q) (snapshot Check p q' [] [] Check (Moving 255))"
      and p: "job_todo p = 0 # map int [1..<512]" "job_array p = job_array (peer_start v)"
    using run_to_balancer [of "0 # map int [1..<512]" bump fi Check v] unfolding boot by auto
  have "move_turn p = Some (Inl OutOfBounds)" using job_zero_taken [OF p(1)] p(2) by simp
  then show ?thesis using s
    by (intro exI [of _ "snapshot Check p q' [] [] Check (Moving 255)"]) (simp add: snapshot_def)
qed

theorem job_zero_race_witness:
  "\<exists>s. (sys_step (\<lambda>x. x + 1) (\<lambda>_. 0))\<^sup>*\<^sup>* (sys_boot client5 Check (peer_start 5)) s
     \<and> move_turn (c_peer (cl s)) = Some (Inl OutOfBounds)"
  using job_zero_race [OF start5(1,2,4,5), of "\<lambda>x. x + 1" "\<lambda>_. 0"] by blast

text \<open>
  C2. Client and server refine a sequential program, from the state in which the main loop of the client has taken
  job 0. Abstractly there is a pool of jobs and one
  array, and a step computes one job of the pool; every step of the two processes, whichever thread
  takes it, is such a step or changes nothing there. So at every moment the array of the client is
  the one that calling \<^verbatim>\<open>compute\<close> on the finished jobs, each once, one after the other, makes of the
  start values, in the order in which their results arrived.
\<close>
theorem system_refines_sequential:
  assumes "client_init v arr = Some (Inr c0)" and "length arr = ARRAY_SIZE" and "main_take c0 = Some (th, c)"
    and "server_init v arr' = Inr q" and "length arr' = ARRAY_SIZE"
    and "(sys_step bump fi)\<^sup>*\<^sup>* (sys_boot c th q) s"
  shows "(\<exists>js. distinct js \<and> set js = {0..<JOB_NUM} - set (inflight s) \<and> int (length js) = job_finished (cl s)
         \<and> compute_all bump js (replicate ARRAY_SIZE v) = Inr (job_array (c_peer (cl s))))
     \<and> (\<forall>t. sys_step bump fi s t \<longrightarrow> pool_of t = pool_of s \<or> pool_step bump (pool_of s) (pool_of t))"
proof -
  have run: "(sys_step bump fi)\<^sup>*\<^sup>* (sys_start v) s" using assms(6) start_state [OF assms(1-5)] by simp
  have inv: "sys_inv bump v s" using system_reachable_inv [OF assms] .
  have start: "remaining (pool_of (sys_start v)) = {0..<JOB_NUM}"
      "result_array (pool_of (sys_start v)) = replicate ARRAY_SIZE v"
    using inflight_start [of v] by (simp_all add: pool_of_start)
  obtain js where js: "distinct js" "set js \<subseteq> {0..<JOB_NUM}" "set (inflight s) = {0..<JOB_NUM} - set js"
      "compute_all bump js (replicate ARRAY_SIZE v) = Inr (job_array (c_peer (cl s)))"
    using pool_run_sequential [OF mp4_pool.refines_reachable [OF refl run]] by (auto simp: start) (auto simp: pool_of_def)
  then have s: "set js = {0..<JOB_NUM} - set (inflight s)" by blast
  have "card (set js) = 1024 - length (inflight s)"
    using inv s by (simp add: sys_inv_def place_inv_def card_Diff_subset distinct_card JOB_NUM_def)
  then have "int (length js) = job_finished (cl s)"
    using inv js(1) place_invD(1) [of s] by (simp add: distinct_card sys_inv_def place_inv_def JOB_NUM_def)
  then show ?thesis using js s mp4_pool.simulates [OF inv] by blast
qed

theorem system_refines_sequential_witness:
  "\<exists>(s :: system) js. job_finished (cl s) = 1 \<and> distinct js \<and> int (length js) = 1
     \<and> compute_all (\<lambda>x. x + 1) js (replicate ARRAY_SIZE 5) = Inr (job_array (c_peer (cl s)))"
proof -
  obtain s where s: "(sys_step (\<lambda>x. x + 1) (\<lambda>_. 0))\<^sup>*\<^sup>* (sys_start 5) s" "job_finished (cl s) = 1"
    using first_job_run by blast
  then show ?thesis
    using system_refines_sequential [OF start5, of "\<lambda>x. x + 1" "\<lambda>_. 0" s] start_state [OF start5]
    by (intro exI [of _ s]) auto
qed

text \<open>
  The separate turns of the client's reader agree with the sequential call: when no other thread
  runs meanwhile, reading a state message and moving jobs one turn at a time does exactly what
  \<^verbatim>\<open>state_handle\<close> does as a whole, to the process and to the messages sent.
\<close>
lemma reader_runs_state_handle:
  assumes "cl_reader s = Turn" and "sc s = StateMsg n th cpu # ms"
    and "state_handle fi n th cpu (c_peer (cl s)) = Some (Inr (p', out))"
  shows "(sys_turn bump fi)\<^sup>*\<^sup>* s
    (s\<lparr>cl := (cl s)\<lparr>c_peer := p'\<rparr>, sc := ms, cs := cs s @ out, cl_reader := Check\<rparr>)"
proof -
  obtain k q ask where q: "state_begin fi n th cpu (c_peer (cl s)) = Inr (k, q, ask)"
      and ml: "move_loop k q ask = Some (Inr (p', out))"
    using assms(3) by (auto simp: state_handle_split split: sum.splits)
  let ?u = "s\<lparr>cl := (cl s)\<lparr>c_peer := q\<rparr>, sc := ms, cs := cs s @ ask, cl_reader := moving Check k\<rparr>"
  have u: "sys_turn bump fi s ?u"
    by (intro sys_client_read [OF assms(1,2)]) (simp add: q)
  obtain out' where out: "out = ask @ out'" and
      t: "(sys_turn bump fi)\<^sup>*\<^sup>* ?u (?u\<lparr>cl := (cl ?u)\<lparr>c_peer := p'\<rparr>, cs := cs ?u @ out', cl_reader := Check\<rparr>)"
    using reader_runs_move_loop [of ?u k ask p' out bump fi] ml by auto
  have "?u\<lparr>cl := (cl ?u)\<lparr>c_peer := p'\<rparr>, cs := cs ?u @ out', cl_reader := Check\<rparr>
      = s\<lparr>cl := (cl s)\<lparr>c_peer := p'\<rparr>, sc := ms, cs := cs s @ out, cl_reader := Check\<rparr>"
    by (cases s) (simp add: out)
  then show ?thesis using converse_rtranclp_into_rtranclp [of "sys_turn bump fi", OF u t] by simp
qed

text \<open>
  C3. Progress of client and server over connections with buffers of any size that hold one job (32776 bytes), with the
  state threads at work, from the state in which the main loop of the client has taken job 0. In every reachable state with
  unfinished jobs some thread can take a turn, unless the reader of one side waits, inside the balancer for its queue of jobs or for
  room in the connection to move a job or to ask for some. In every run that stays among such states the number
  of turns is at most \<open>sys_rank\<close> of its start plus 20000 for each state message. So every run of turns from a reachable state
  comes, within \<open>sys_rank\<close> turns, to a state in which a reader waits, or in which all jobs are finished and the array of
  the client holds the computed values.
\<close>
theorem system_progress:
  assumes "client_init v arr = Some (Inr c0)" and "length arr = ARRAY_SIZE" and "main_take c0 = Some (th, c)"
    and "server_init v arr' = Inr q" and "length arr' = ARRAY_SIZE"
    and "32776 \<le> cap" and "(bounded_step cap bump fi)\<^sup>*\<^sup>* (sys_boot c th q) s"
    and "\<And>s. waits s \<longleftrightarrow> balancer_waits s \<or> room_waits cap fi s"
  shows "(job_finished (cl s) < JOB_NUM \<and> \<not> waits s \<longrightarrow> (\<exists>t. bounded_turn cap bump fi s t))
     \<and> (\<forall>f n. f 0 = s \<and> (\<forall>i < n. job_finished (cl (f i)) < JOB_NUM \<and> \<not> waits (f i) \<and> bounded_step cap bump fi (f i) (f (Suc i))) \<longrightarrow>
          card {i. i < n \<and> bounded_turn cap bump fi (f i) (f (Suc i))}
            \<le> sys_rank s + 20000 * card {i. i < n \<and> \<not> bounded_turn cap bump fi (f i) (f (Suc i))})
     \<and> (\<forall>f. f 0 = s \<and> (\<forall>i. job_finished (cl (f i)) < JOB_NUM \<and> \<not> waits (f i) \<longrightarrow> bounded_turn cap bump fi (f i) (f (Suc i))) \<longrightarrow>
          (\<exists>i \<le> sys_rank s. waits (f i) \<or> job_finished (cl (f i)) = JOB_NUM
             \<and> job_array (c_peer (cl (f i))) = replicate ARRAY_SIZE (bump_loop bump 6000 v)))"
proof -
  have cap: "largest_msg \<le> cap" using assms(6) by (simp add: largest_msg_def JOB_SIZE_def)
  have inv: "largest_msg \<le> cap \<and> sys_live_inv bump v s"
    using mp4_room.inv_reachable [of cap "sys_start v" v bump fi s] assms(7) start_state [OF assms(1-5)] cap by simp
  have "\<exists>t. bounded_turn cap bump fi s t" if "job_finished (cl s) < JOB_NUM" "\<not> waits s"
    using mp4_room.turn_enabled [OF inv, of fi] that assms(8) by auto
  moreover have "card {i. i < n \<and> bounded_turn cap bump fi (f i) (f (Suc i))}
      \<le> sys_rank s + 20000 * card {i. i < n \<and> \<not> bounded_turn cap bump fi (f i) (f (Suc i))}"
    if f: "f 0 = s" "\<And>i. i < n \<Longrightarrow> job_finished (cl (f i)) < JOB_NUM \<and> \<not> waits (f i) \<and> bounded_step cap bump fi (f i) (f (Suc i))" for f n
    using mp4_room.turns_bounded [of cap bump v f n fi] inv f assms(8) by (auto simp: not_le)
  moreover have "\<exists>i \<le> sys_rank s. waits (f i) \<or> job_finished (cl (f i)) = JOB_NUM
      \<and> job_array (c_peer (cl (f i))) = replicate ARRAY_SIZE (bump_loop bump 6000 v)"
    if f: "f 0 = s" "\<And>i. job_finished (cl (f i)) < JOB_NUM \<and> \<not> waits (f i) \<Longrightarrow> bounded_turn cap bump fi (f i) (f (Suc i))" for f
    using mp4_room.runs_reach_goal [of cap bump v f fi] f inv finished_done [of bump v] assms(8)
    by (auto simp: sys_live_inv_def not_le)
  ultimately show ?thesis by blast
qed

theorem system_progress_witness: "\<exists>t. bounded_turn 32776 (\<lambda>x. x + 1) (\<lambda>_. 0) (sys_start 5) t"
proof -
  have "job_finished (cl (sys_start 5)) < JOB_NUM" "\<not> balancer_waits (sys_start 5)" "\<not> room_waits 32776 (\<lambda>_. 0) (sys_start 5)"
    by (simp_all add: sys_start_def Let_def JOB_NUM_def balancer_waits_def room_waits_def)
  then show ?thesis
    using system_progress [OF start5, of 32776 "\<lambda>x. x + 1" "\<lambda>_. 0" "sys_start 5"
        "\<lambda>s. balancer_waits s \<or> room_waits 32776 (\<lambda>_. 0) s"] start_state [OF start5] by simp
qed

text \<open>
  Without state messages every run of the two processes ends: from the start every run of turns
  finishes all jobs within 12287 turns, whatever the order of the threads.
\<close>
theorem quiet_runs_complete:
  assumes "client_init v arr = Some (Inr c0)" and "length arr = ARRAY_SIZE" and "main_take c0 = Some (th, c)"
    and "server_init v arr' = Inr q" and "length arr' = ARRAY_SIZE"
    and "f 0 = sys_boot c th q"
    and "\<And>i. job_finished (cl (f i)) < JOB_NUM \<Longrightarrow> sys_turn bump fi (f i) (f (Suc i))"
  shows "\<exists>i \<le> 12287. job_finished (cl (f i)) = JOB_NUM
     \<and> job_array (c_peer (cl (f i))) = replicate ARRAY_SIZE (bump_loop bump 6000 v)"
proof -
  have f0: "f 0 = sys_start v" using assms(6) start_state [OF assms(1-5)] by simp
  have "sys_live_inv bump v (f 0) \<and> quiet (f 0)" using mp4_quiet.inv_init f0 by blast
  then obtain i where "i \<le> sys_rank (f 0)" "sys_live_inv bump v (f i)" "JOB_NUM \<le> job_finished (cl (f i))"
    using mp4_quiet.runs_reach_goal [of bump v f fi] assms(7) by (auto simp: not_le)
  then show ?thesis using finished_done [of bump v "f i"] f0 by (auto simp: sys_rank_start sys_live_inv_def)
qed

text \<open>There are such runs.\<close>

theorem quiet_runs_complete_witness:
  "\<exists>f (i :: nat). f 0 = sys_start 5 \<and> i \<le> 12287 \<and> job_finished (cl (f i)) = JOB_NUM
     \<and> job_array (c_peer (cl (f i))) = replicate ARRAY_SIZE (bump_loop (\<lambda>x. x + 1) 6000 5)"
proof -
  obtain f where f: "f 0 = sys_start 5"
      and run: "\<And>i. \<not> JOB_NUM \<le> job_finished (cl (f i)) \<Longrightarrow> sys_turn (\<lambda>x. x + 1) (\<lambda>_. 0) (f i) (f (Suc i))"
    using mp4_quiet.run_exists [of "\<lambda>x. x + 1" 5 "sys_start 5" "\<lambda>_. 0"] mp4_quiet.inv_init by blast
  show ?thesis
    using quiet_runs_complete [OF start5, of f "\<lambda>x. x + 1" "\<lambda>_. 0"] f run start_state [OF start5] by (auto simp: not_le)
qed

text \<open>
  C9. With buffers of any size that hold one job (32776 bytes) in either direction, where a writer waits
  for room, and without state messages: the bytes on their way never exceed the size, a thread can always
  take its turn until the last job is finished, and every run finishes all jobs within 12287 turns, whatever
  the order of the threads.
\<close>
theorem bounded_runs_complete:
  assumes "client_init v arr = Some (Inr c0)" and "length arr = ARRAY_SIZE" and "main_take c0 = Some (th, c)"
    and "server_init v arr' = Inr q" and "length arr' = ARRAY_SIZE" and "32776 \<le> cap"
  shows "(\<forall>s. (bounded_turn cap bump fi)\<^sup>*\<^sup>* (sys_boot c th q) s \<longrightarrow> within cap s
        \<and> (job_finished (cl s) < JOB_NUM \<longrightarrow> (\<exists>t. bounded_turn cap bump fi s t)))
     \<and> (\<forall>f. f 0 = sys_boot c th q
          \<and> (\<forall>i. job_finished (cl (f i)) < JOB_NUM \<longrightarrow> bounded_turn cap bump fi (f i) (f (Suc i))) \<longrightarrow>
        (\<exists>i \<le> 12287. job_finished (cl (f i)) = JOB_NUM
           \<and> job_array (c_peer (cl (f i))) = replicate ARRAY_SIZE (bump_loop bump 6000 v)))"
proof -
  have boot: "sys_boot c th q = sys_start v" using start_state [OF assms(1-5)] by simp
  have cap: "largest_msg \<le> cap" using assms(6) by (simp add: largest_msg_def JOB_SIZE_def)
  have "within cap s \<and> (job_finished (cl s) < JOB_NUM \<longrightarrow> (\<exists>t. bounded_turn cap bump fi s t))"
    if "(bounded_turn cap bump fi)\<^sup>*\<^sup>* (sys_start v) s" for s
    using mp4_flow.inv_reachable [of cap "sys_start v" v bump fi s] cap that
      mp4_flow.turn_enabled [of cap bump v s fi] by auto
  moreover have "\<exists>i \<le> 12287. job_finished (cl (f i)) = JOB_NUM
      \<and> job_array (c_peer (cl (f i))) = replicate ARRAY_SIZE (bump_loop bump 6000 v)"
    if f0: "f 0 = sys_start v"
      and run: "\<And>i. job_finished (cl (f i)) < JOB_NUM \<Longrightarrow> bounded_turn cap bump fi (f i) (f (Suc i))" for f
  proof -
    obtain i where "i \<le> sys_rank (f 0)" "sys_live_inv bump v (f i)" "JOB_NUM \<le> job_finished (cl (f i))"
      using mp4_flow.runs_reach_goal [of cap bump v f fi] mp4_flow.inv_init [of cap "f 0" v bump] cap f0 run
      by (auto simp: not_le)
    then show ?thesis using finished_done [of bump v "f i"] f0 by (auto simp: sys_rank_start sys_live_inv_def)
  qed
  ultimately show ?thesis unfolding boot by blast
qed

text \<open>There are such runs with room for a single job.\<close>

theorem bounded_runs_complete_witness:
  "\<exists>f (i :: nat). f 0 = sys_start 5 \<and> i \<le> 12287 \<and> job_finished (cl (f i)) = JOB_NUM
     \<and> (\<forall>k. JOB_NUM \<le> job_finished (cl (f k)) \<or> bounded_turn 32776 (\<lambda>x. x + 1) (\<lambda>_. 0) (f k) (f (Suc k)))"
proof -
  have cap: "largest_msg \<le> 32776" by (simp add: largest_msg_def JOB_SIZE_def)
  obtain f where f: "f 0 = sys_start 5"
      and run: "\<And>k. \<not> JOB_NUM \<le> job_finished (cl (f k)) \<Longrightarrow> bounded_turn 32776 (\<lambda>x. x + 1) (\<lambda>_. 0) (f k) (f (Suc k))"
    using mp4_flow.run_exists [of 32776 "\<lambda>x. x + 1" 5 "sys_start 5" "\<lambda>_. 0"] mp4_flow.inv_init [of 32776 "sys_start 5" 5] cap
    by blast
  then obtain i where "i \<le> 12287" "job_finished (cl (f i)) = JOB_NUM"
    using bounded_runs_complete [OF start5, of 32776 "\<lambda>x. x + 1" "\<lambda>_. 0"] start_state [OF start5] by (auto simp: not_le)
  then show ?thesis using f run by blast
qed

text \<open>
  C22. The wait of the balancer is real and final: there are runs in which the client's main loop
  empties the queue of jobs while the reader is still moving jobs out of it. The reader then waits
  for a job that only it could add, so it never reads another result, and in every state that can
  follow the jobs are unfinished.
\<close>
theorem balancer_deadlock:
  "\<exists>s. (sys_step bump fi)\<^sup>*\<^sup>* (sys_start v) s \<and> balancer_waits s
     \<and> (\<forall>t. (sys_step bump fi)\<^sup>*\<^sup>* s t \<longrightarrow> cl_reader t = Moving 255 \<and> job_finished (cl t) < JOB_NUM)"
proof -
  obtain s where s: "(sys_step bump fi)\<^sup>*\<^sup>* (sys_start v) s" "sys_inv bump v s" "reader_stuck 255 s"
    using reader_gets_stuck by blast
  have "cl_reader t = Moving 255 \<and> job_finished (cl t) < JOB_NUM" if "(sys_step bump fi)\<^sup>*\<^sup>* s t" for t
    using reader_stuck_steps [OF that s(2,3)] by (auto simp: reader_stuck_def)
  moreover have "balancer_waits s" using s(3) by (auto simp: reader_stuck_def balancer_waits_def)
  ultimately show ?thesis using s(1) by blast
qed

theorem balancer_deadlock_witness:
  "\<exists>s. (sys_step (\<lambda>x. x + 1) (\<lambda>_. 0))\<^sup>*\<^sup>* (sys_start 5) s \<and> balancer_waits s \<and> job_finished (cl s) < JOB_NUM"
  using balancer_deadlock [of "\<lambda>x. x + 1" "\<lambda>_. 0" 5] by blast

text \<open>
  C4. The client ends. The main loop has taken job 0 at the start, and the connections take any number of
  messages. From every reachable state in which the last job is counted, whatever the two
  processes and their state threads do, the main loop, writer and reader of the client take at most
  six more turns together. They can always take one until all three have ended, unless the reader
  waits for a message, for the end of the connection, or inside the balancer.
\<close>
theorem client_ends:
  assumes "client_init v arr = Some (Inr c0)" and "length arr = ARRAY_SIZE" and "main_take c0 = Some (th, c)"
    and "server_init v arr' = Inr q" and "length arr' = ARRAY_SIZE"
    and "(sys_step bump fi)\<^sup>*\<^sup>* (sys_boot c th q) s" and "job_finished (cl s) = JOB_NUM"
  shows "(\<forall>f. f 0 = s \<and> (\<forall>i. sys_step bump fi (f i) (f (Suc i))) \<longrightarrow>
        finite {i. client_threads (f (Suc i)) \<noteq> client_threads (f i)}
        \<and> card {i. client_threads (f (Suc i)) \<noteq> client_threads (f i)} \<le> 6)
     \<and> (client_threads s = (Ended, Ended, Ended) \<or> reader_waits s
        \<or> (\<exists>t. sys_turn bump fi s t \<and> client_threads t \<noteq> client_threads s))"
proof -
  have "(sys_step bump fi)\<^sup>*\<^sup>* (sys_start v) s" using assms(6) start_state [OF assms(1-5)] by simp
  then have inv: "finished_inv bump v s" using finished_reachable assms(7) by blast
  have "finite {i. client_threads (f (Suc i)) \<noteq> client_threads (f i)}
      \<and> card {i. client_threads (f (Suc i)) \<noteq> client_threads (f i)} \<le> 6"
    if "f 0 = s" "\<And>i. sys_step bump fi (f i) (f (Suc i))" for f
    using mp4_ends.changes_bounded [of bump v f fi] client_height_le [OF inv] inv that by fastforce
  then show ?thesis using client_turn_exists [OF inv, of fi] by blast
qed

text \<open>The run of the next property passes through such a state.\<close>

theorem client_ends_witness:
  "\<exists>s. (sys_step (\<lambda>x. x + 1) (\<lambda>_. 0))\<^sup>*\<^sup>* (sys_start 5) s \<and> job_finished (cl s) = JOB_NUM
     \<and> (client_threads s = (Ended, Ended, Ended) \<or> reader_waits s
        \<or> (\<exists>t. sys_turn (\<lambda>x. x + 1) (\<lambda>_. 0) s t \<and> client_threads t \<noteq> client_threads s))"
proof -
  obtain s where s: "(sys_step (\<lambda>x. x + 1) (\<lambda>_. 0))\<^sup>*\<^sup>* (sys_start 5) s" "finished_inv (\<lambda>x. x + 1) 5 s"
    using untold_reachable by blast
  then show ?thesis
    using client_ends [OF start5, of "\<lambda>x. x + 1" "\<lambda>_. 0" s] start_state [OF start5]
    by (intro exI [of _ s]) (simp add: finished_inv_def)
qed

text \<open>
  C23. The end mark may get lost: there are runs in which all jobs are finished and all three threads of the client have
  ended, but the writer left its loop before it took the mark -1 from its queue; in no state that can follow is the
  mark on its way to the server or in its queue, so the writer of the server never gets it and does not start the shutdown.
  What ends the server then is only the broken connection, which is outside this model.
\<close>
theorem end_mark_lost:
  "\<exists>s. (sys_step bump fi)\<^sup>*\<^sup>* (sys_start v) s \<and> job_finished (cl s) = JOB_NUM
     \<and> client_threads s = (Ended, Ended, Ended)
     \<and> (\<forall>t. (sys_step bump fi)\<^sup>*\<^sup>* s t \<longrightarrow> EndMsg \<notin> set (cs t) \<and> - 1 \<notin> set (job_tosend (sv t))
          \<and> sv_writer t = Turn \<and> \<not> session_end t)"
proof -
  obtain s where s: "(sys_step bump fi)\<^sup>*\<^sup>* (sys_start v) s" "finished_inv bump v s" "untold s"
      "client_threads s = (Ended, Ended, Ended)"
    using untold_reachable by blast
  have "EndMsg \<notin> set (cs t) \<and> - 1 \<notin> set (job_tosend (sv t)) \<and> sv_writer t = Turn \<and> \<not> session_end t"
    if "(sys_step bump fi)\<^sup>*\<^sup>* s t" for t
    using mp4_untold.inv_steps [OF that] s(2,3) by (auto simp: untold_def)
  then show ?thesis using s by (auto simp: finished_inv_def)
qed

theorem end_mark_lost_witness:
  "\<exists>s. (sys_step (\<lambda>x. x + 1) (\<lambda>_. 0))\<^sup>*\<^sup>* (sys_start 5) s \<and> client_threads s = (Ended, Ended, Ended)
     \<and> - 1 \<notin> set (job_tosend (sv s))"
  using end_mark_lost [of "\<lambda>x. x + 1" "\<lambda>_. 0" 5] by blast

end
