(* ===== verification/Spec2Isabelle.thy ===== *)
theory Spec2Isabelle
  imports MP1_Userapp MP2_Session MP2_Threads MP3_Threads Task_Lookup MP4_Properties
begin

text \<open>
  \<^bold>\<open>Verification of the CS 423 machine problems.\<close>

  The repository holds four programs, each in its own directory under \<^verbatim>\<open>src/\<close>. They share no code but
  several idioms (a proc file, a kernel list of registered processes, a status text formatted into
  a buffer), which this development captures once, as locales.

  \<^item> MP1 (\<^verbatim>\<open>MP1/mp1.c\<close>, \<^verbatim>\<open>MP1/userapp.c\<close>): a kernel module that lists registered processes with their user
    time, and its user program. A timer queues a bottom half that refreshes the times and drops dead
    processes.
  \<^item> MP2 (\<^verbatim>\<open>MP2/mp2.c\<close>, \<^verbatim>\<open>MP2/userapp.c\<close>): a rate-monotonic scheduler as a kernel module with admission
    control, and its user program.
  \<^item> MP3 (\<^verbatim>\<open>MP3/mp3.c\<close>, \<^verbatim>\<open>mp3_given.h\<close>, \<^verbatim>\<open>monitor.c\<close>, \<^verbatim>\<open>work.c\<close>): a page-fault profiler with a sample buffer that
    is mapped into user space, its reader and a workload program.
  \<^item> MP4 (\<^verbatim>\<open>MP4/queue.c\<close>, \<^verbatim>\<open>utils.c\<close>, \<^verbatim>\<open>client.c\<close>, \<^verbatim>\<open>server.c\<close>): a client and a server that share out 1024 jobs over a
    socket and balance their load.

  \<^bold>\<open>Conventions.\<close> A struct is a record, a kernel list the list of the addresses of its nodes, the heap
  a map from addresses to nodes. Every operation returns a result: \<^verbatim>\<open>Inl\<close> with a fault where the C code
  leaves defined behaviour (null or dangling pointer, access outside an object, division by zero or
  an overflowing one) or \<^verbatim>\<open>Inr\<close> with the new state. An operation that may block returns an option on
  top of that. A C \<^verbatim>\<open>int\<close> is an \<open>int\<close> with the wrap-around \<open>s32\<close> written out, an \<^verbatim>\<open>unsigned long\<close> a 64-bit
  word. What the kernel, the allocator or the processor supplies (the process table, the clock,
  addresses, conversions between jiffies, milliseconds and floating point) is an argument of the
  operations that use it. Threads and interrupts interleave as step relations whose steps are the critical sections
  and the accesses outside them, and the locale \<open>transition_system\<close> carries invariants to all reachable states.

  \<^bold>\<open>Shared theories.\<close>
  \<^item> \<open>Prelude\<close>: machine types, faults and results, C division, list facts, the locale \<open>transition_system\<close>
    and its extensions: \<open>refinement\<close>, where every step is a step of an abstract specification or changes
    nothing there; \<open>progress_system\<close>, where turns that lower a rank lead to a goal; its extension
    \<open>disturbed_system\<close>, where other steps raise the rank by a bounded amount; and \<open>settling_system\<close>, where a part of the state changes only finitely often.
  \<^item> \<open>C_Lib\<close>: C strings, decimal output and input (\<^verbatim>\<open>sprintf\<close>, \<^verbatim>\<open>sscanf\<close>, \<^verbatim>\<open>kstrtol\<close>) with their round
    trips, \<^verbatim>\<open>fgets\<close>.
  \<^item> \<open>Proc_Status\<close>: the locale \<open>status_loop\<close> for a loop that formats one line per entry into a buffer;
    interpreted for MP1 and MP2.
  \<^item> \<open>Task_Table\<close>: the locale \<open>task_table\<close> for the search by pid; interpreted for MP2 and MP3.
  \<^item> \<open>Task_Lookup\<close>: \<^verbatim>\<open>find_task_by_pid\<close> and \<^verbatim>\<open>get_cpu_use\<close> of \<^verbatim>\<open>MP2/mp2_given.h\<close> and \<^verbatim>\<open>MP3/mp3_given.h\<close> on a heap of
    task objects with RCU sections; they implement the table of processes the profiler works on.

  \<^bold>\<open>MP1.\<close> \<open>MP1_Status\<close>: state \<open>mp1_state\<close>, operations \<open>mp1_read\<close>, \<open>mp1_write\<close>, \<open>mp1_timer_callback\<close>, \<open>bottom_fn\<close>,
  \<open>mp1_init\<close>, \<open>mp1_exit\<close>, the step relation and its invariant. The properties: the bottom half in all
  reachable states, the text a read returns (with no process registered, the uninitialised buffer) and when it overruns
  its buffer, registration, unloading. \<open>MP1_Userapp\<close>: the user program, and that run against the module it prints the
  list with its own line, whatever registrations, timers and bottom halves come in between.

  \<^bold>\<open>MP2.\<close> \<open>MP2_Scheduler\<close>: the task struct and the operations of \<^verbatim>\<open>mp2.c\<close>, where \<open>registration\<close> is composed of its two
  critical sections (\<open>reg_check\<close>, \<open>reg_add\<close>) and \<open>yield_handle\<close> of the parts around \<^verbatim>\<open>mod_timer\<close>; the relation of
  operations that run one after the other, and the invariant of lists and pointers. \<open>MP2_Admission\<close>: the utilisation bound of admission control, exact in millionths, and
  its decision when the product wraps.
  \<open>MP2_Userapp\<close>: the messages and checks of the user program, and that each side reads what the other
  writes. \<open>MP2_Properties\<close>: the dispatcher with its complete effect, yield and release times, registration, unloading, and
  faults of single operations. \<open>MP2_Session\<close>: a whole run of the user program among other processes, timers and
  dispatcher rounds, one operation after the other. \<open>MP2_Threads\<close>: the module at the grain of its lock, with
  registrations between their sections, expired timers whose callbacks wait, and yields that walk along the list without
  the lock. No critical section touches freed memory; the utilisation bound holds when registrations do not overlap, and
  is broken when they do; the races of the callback, the walk and the wake-up are runs of the model.

  \<^bold>\<open>MP3.\<close> \<open>MP3_Profiler\<close>: the module with the parts of its work function and of its handlers as separate operations; the sums a
  run computes are characterised over the set of registered pids. \<open>MP3_Mmap\<close>: \<^verbatim>\<open>dev_mmap\<close> on 64-bit words,
  a partial function because its loop ends only for whole pages, and its draft in \<^verbatim>\<open>MP3/mmap.c\<close>. \<open>MP3_Monitor\<close>: the reader with
  its opening and closing of the device; its loop ends because every pass uses up an unread word. \<open>MP3_Work\<close>: the workload program, over a stream of
  random numbers and outcomes of \<^verbatim>\<open>malloc\<close>. \<open>MP3_Properties\<close>: the sample stored by a run and
  the overrun of the buffer, registration and its inverse, the race of cancelling with a running work
  item, the mapping, kernel and reader together through the page map, and the workload program on its two paths.
  \<open>MP3_Threads\<close>: writers at the grain of the lock beside the work function; the invariant of the nodes and the buffer,
  sampling when writes do not overlap, and the run after which it has stopped when they do.

  \<^bold>\<open>MP4.\<close> \<open>MP4_Queue\<close>: the linked queue, its representation of a list, and the locale \<open>bounded_fifo\<close> with its
  interpretation. \<open>MP4_Queue_Threads\<close>: threads that wait on the condition variable; they refine a
  bounded buffer (an interpretation of \<open>refinement\<close>). \<open>MP4_Socket\<close>: the read
  and write loops over scripts of partial transfers, interruptions and failures; a script that is
  used up means that the call still waits. \<open>MP4_Jobs\<close>: the job array and the messages, sent and
  received, and the throttled computation. \<open>MP4_Peers\<close>: the handlers of both processes and the balancer, on
  queues as lists, which the lemma \<open>queue_refines\<close> connects with the linked queue. \<open>MP4_System\<close>: both processes
  and their channels as a step relation over the positions of their threads; the balancer takes one
  job per step, so that other threads can run in between. The invariant accounts for every job and
  for the contents of both arrays. \<open>MP4_Wire\<close>: one direction of the connection byte by byte,
  written by several threads under \<^verbatim>\<open>transfer_mutex\<close>; it refines the lists of messages of \<open>MP4_System\<close>. \<open>MP4_Progress\<close>: while jobs are unfinished every turn lowers a rank, and
  some thread can take a turn unless a reader waits inside the balancer for an emptied queue; such a
  wait is reachable and final. \<open>MP4_Flow\<close>: the same with socket buffers of bounded size, as long as the
  balancer is idle. \<open>MP4_Jam\<close>: bounded buffers with the balancer at work; both readers may wait for room at the same time, for ever, and apart from
  readers that wait for room or for their queue some thread can always go on, with a bound on the turns for
  each state message (an interpretation of \<open>disturbed_system\<close>). \<open>MP4_Spec\<close>: the specification, a pool of jobs and one array, and that
  client and server refine it (an interpretation of \<open>refinement\<close>). \<open>MP4_Ending\<close>: how the threads of the client
  end after the last job (an interpretation of \<open>settling_system\<close>), and the run in which the end mark does not reach the server.
  \<open>MP4_Session\<close>: the accept loop, where \<^verbatim>\<open>accept\<close> may fail at any time, disconnection and shutdown of the server. \<open>MP4_Start\<close>: arguments,
  connection and socket setup of both processes, and SIGINT at the client, which destroys the two linked queues under
  the main loop. \<open>MP4_Console\<close>: the throttle typed by the user, the
  reading of \<^verbatim>\<open>/proc/stat\<close>, and the unused \<^verbatim>\<open>receiveJob.c\<close>.
  \<open>MP4_Properties\<close>: first-in first-out order and wake-ups under all interleavings, the round trips and
  typing of the messages, the balancer, and that the system refines a sequential computation, computes
  every job exactly once, never faults, makes progress, and ends. These runs start when the main loop of the client has
  taken job 0, because a moved job 0 is a fault of the code; that it can happen is a property of its own.

  \<^bold>\<open>Bounds.\<close> No model runs on fuel. \<open>dev_mmap_loop\<close> and \<open>destroy_loop\<close> are partial functions, and their
  properties state that they return. The socket loops consume a script; they are shown to return when
  it has as many transfers as bytes are asked for.

  \<^bold>\<open>Not modelled.\<close> Memory allocation in the kernel and copying from user space are taken to succeed, except
  \<^verbatim>\<open>vmalloc\<close> in MP3. Log output is left out. What the kernel
  and the network library do is an argument or, for RCU sections and timers, their documented
  behaviour; that a timer expires on a processor whose lock holder it interrupts is left out. Not modelled is \<^verbatim>\<open>MP4/queueThread.cpp\<close>, which no Makefile builds and which uses a variable
  that is declared nowhere. The channels of MP4 are bounded only in
  \<open>MP4_Flow\<close> (every buffer that holds one job is enough there, without state messages) and \<open>MP4_Jam\<close>; elsewhere a sender never
  waits for the receiver, which allows all runs that are possible with bounded ones, and a write to a connection the
  other side has closed does not end the process; so SIGPIPE and the end of the client process are outside the model. The
  \<^verbatim>\<open>continue\<close> in line 113 of \<^verbatim>\<open>client.c\<close>, after which the loop unlocks a mutex it does not hold, is not counted as a
  fault. After the number
  -1 of the server the client's reader is taken to wait until the connection is closed, as
  long as less than a block of further bytes comes. Floating-point addition, division and conversion are
  parameters.

  \<^bold>\<open>Possible extensions.\<close> The deadline behaviour of the MP2 dispatcher over several periods, which needs a model of
  the Linux scheduler classes it sets.
\<close>

end
